(* ===== verification/Thread_Runs.thy ===== *)
theory Thread_Runs
  imports Main
begin

text \<open>
  Systems of threads that take steps one after the other: an action of some thread is possible in
  a state or not, and a run is a list of possible actions. The locale \<open>safe_steps\<close> carries an invariant
  from steps to runs; \<open>observed\<close> and \<open>simulation\<close> do the same for what can be said of the events of a
  run. The locale \<open>progress\<close> is the contract of a thread, or of several, that must come to
  an end: a measure that no step increases, that their own steps decrease, and that is zero when
  they have nothing left to do, with a step of their own possible until then that is \<open>prompt\<close>, that
  is, waits neither for a timeout nor for anything outside the program. What follows is that they
  end in every run that does not neglect them.
\<close>

fun steps :: "('a \<Rightarrow> 's \<Rightarrow> 's option) \<Rightarrow> 'a list \<Rightarrow> 's \<Rightarrow> 's option" where
  "steps step [] s = Some s"
| "steps step (a # as) s = (case step a s of None \<Rightarrow> None | Some s' \<Rightarrow> steps step as s')"

lemma steps_append:
  "steps step (as @ bs) s = (case steps step as s of None \<Rightarrow> None | Some s' \<Rightarrow> steps step bs s')"
  by (induction as arbitrary: s) (auto split: option.split)

lemma steps_restrict:
  "steps (\<lambda>a s. if P a s then step a s else None) as s = Some s' \<Longrightarrow> steps step as s = Some s'"
  by (induction as arbitrary: s) (auto split: option.splits if_splits)

locale safe_steps =
  fixes step :: "'a \<Rightarrow> 's \<Rightarrow> 's option" and inv :: "'s \<Rightarrow> bool"
  assumes inv_step: "inv s \<Longrightarrow> step a s = Some s' \<Longrightarrow> inv s'"
begin

lemma inv_steps: "steps step as s = Some s' \<Longrightarrow> inv s \<Longrightarrow> inv s'"
  by (induction as arbitrary: s) (auto split: option.splits intro: inv_step)

end

text \<open>
  What a run shows to the outside: each action, in the state in which it is taken, may give rise to
  events. \<open>observed\<close> carries a fact about the events so far along a run; \<open>simulation\<close> carries a relation to
  an abstract state that takes the events one after the other.
\<close>

fun trace :: "('a \<Rightarrow> 's \<Rightarrow> 's option) \<Rightarrow> ('a \<Rightarrow> 's \<Rightarrow> 'e list) \<Rightarrow> 'a list \<Rightarrow> 's \<Rightarrow> 'e list" where
  "trace step label [] s = []"
| "trace step label (a # as) s = (case step a s of None \<Rightarrow> [] | Some s' \<Rightarrow> label a s @ trace step label as s')"

fun explains :: "('e \<Rightarrow> 'm \<Rightarrow> 'm \<Rightarrow> bool) \<Rightarrow> 'e list \<Rightarrow> 'm \<Rightarrow> 'm \<Rightarrow> bool" where
  "explains spec [] m m' \<longleftrightarrow> m = m'"
| "explains spec (e # es) m m' \<longleftrightarrow> (\<exists>m1. spec e m m1 \<and> explains spec es m1 m')"

lemma explains_append: "explains spec (es @ fs) m m' \<longleftrightarrow> (\<exists>m1. explains spec es m m1 \<and> explains spec fs m1 m')"
  by (induction es arbitrary: m) auto

locale observed =
  fixes step :: "'a \<Rightarrow> 's \<Rightarrow> 's option" and label :: "'a \<Rightarrow> 's \<Rightarrow> 'e list" and shown :: "'e list \<Rightarrow> 's \<Rightarrow> bool"
  assumes shown_step: "shown es s \<Longrightarrow> step a s = Some s' \<Longrightarrow> shown (es @ label a s) s'"
begin

lemma shown_steps: "steps step as s = Some s' \<Longrightarrow> shown es s \<Longrightarrow> shown (es @ trace step label as s) s'"
proof (induction as arbitrary: s es)
  case (Cons a as)
  then obtain s1 where "step a s = Some s1" "steps step as s1 = Some s'" by (auto split: option.splits)
  with Cons.IH [of s1 "es @ label a s"] Cons.prems(2) show ?case by (simp add: shown_step)
qed simp

end

locale simulation =
  fixes step :: "'a \<Rightarrow> 's \<Rightarrow> 's option" and label :: "'a \<Rightarrow> 's \<Rightarrow> 'e list"
    and spec :: "'e \<Rightarrow> 'm \<Rightarrow> 'm \<Rightarrow> bool" and rel :: "'s \<Rightarrow> 'm \<Rightarrow> bool"
  assumes sim_step: "rel s m \<Longrightarrow> step a s = Some s' \<Longrightarrow> \<exists>m'. explains spec (label a s) m m' \<and> rel s' m'"
begin

lemma sim_steps: "steps step as s = Some s' \<Longrightarrow> rel s m \<Longrightarrow> \<exists>m'. explains spec (trace step label as s) m m' \<and> rel s' m'"
proof (induction as arbitrary: s m)
  case (Cons a as)
  then obtain s1 where s1: "step a s = Some s1" "steps step as s1 = Some s'" by (auto split: option.splits)
  from sim_step [OF Cons.prems(2) s1(1)] obtain m1 where m1: "explains spec (label a s) m m1" "rel s1 m1" by blast
  from Cons.IH [OF s1(2) m1(2)] obtain m' where "explains spec (trace step label as s1) m1 m'" "rel s' m'" by blast
  with m1(1) s1(1) show ?case by (auto simp: explains_append)
qed auto

end

locale progress = safe_steps step inv
  for step :: "'a \<Rightarrow> 's \<Rightarrow> 's option" and inv :: "'s \<Rightarrow> bool" +
  fixes own :: "'a \<Rightarrow> bool" and prompt :: "'a \<Rightarrow> 's \<Rightarrow> bool" and todo :: "'s \<Rightarrow> nat"
  assumes others_keep: "inv s \<Longrightarrow> step a s = Some s' \<Longrightarrow> \<not> own a \<Longrightarrow> todo s' \<le> todo s"
    and own_decrease: "inv s \<Longrightarrow> step a s = Some s' \<Longrightarrow> own a \<Longrightarrow> todo s' < todo s"
    and enabled: "inv s \<Longrightarrow> 0 < todo s \<Longrightarrow> \<exists>a s'. own a \<and> prompt a s \<and> step a s = Some s'"
begin

text \<open>The threads can take no more steps than the measure says.\<close>

lemma own_steps_bounded:
  "steps step as s = Some s' \<Longrightarrow> inv s \<Longrightarrow> todo s' + length (filter own as) \<le> todo s"
proof (induction as arbitrary: s)
  case (Cons a as)
  then obtain s1 where s1: "step a s = Some s1" "steps step as s1 = Some s'" by (auto split: option.splits)
  then have "todo s' + length (filter own as) \<le> todo s1" using Cons by (blast intro: inv_step)
  moreover have "own a \<Longrightarrow> todo s1 < todo s" "\<not> own a \<Longrightarrow> todo s1 \<le> todo s"
    using Cons.prems(2) s1(1) by (blast intro: own_decrease others_keep)+
  ultimately show ?case by (cases "own a") auto
qed simp

text \<open>A run in which they have had that many turns has brought them to their end.\<close>

lemma ends_after_turns:
  assumes "steps step as s = Some s'" and "inv s" and "todo s \<le> length (filter own as)"
  shows "todo s' = 0"
  using own_steps_bounded [OF assms(1,2)] assms(3) by simp

text \<open>And they are never stuck on the way: from every state on, their own prompt steps alone lead to the end.\<close>

lemma can_end:
  "inv s \<Longrightarrow> \<exists>as s'. steps (\<lambda>a s. if own a \<and> prompt a s then step a s else None) as s = Some s' \<and> inv s' \<and> todo s' = 0"
proof (induction "todo s" arbitrary: s rule: less_induct)
  case less
  show ?case
  proof (cases "todo s")
    case 0
    then show ?thesis using less.prems by (intro exI [of _ "[]"]) simp
  next
    case (Suc n)
    then obtain a s1 where a: "own a" "prompt a s" "step a s = Some s1" using enabled [of s] less.prems by auto
    then have "inv s1" "todo s1 < todo s" using own_decrease inv_step less.prems by blast+
    from less.hyps [OF this(2,1)] obtain as s'
      where "steps (\<lambda>a s. if own a \<and> prompt a s then step a s else None) as s1 = Some s'" "inv s'" "todo s' = 0" by blast
    then show ?thesis using a by (intro exI [of _ "a # as"]) auto
  qed
qed

end

end
