(* ===== verification/Prelude.thy ===== *)
theory Prelude
  imports Main "HOL-Library.Word" "HOL-Library.Multiset" "HOL-Library.Signed_Division"
begin

unbundle bit_operations_syntax

text \<open>
  Shared vocabulary of the development: the machine integer types of the C++ sources, the
  lemma collections the component theories use, and generic facts on lists, association
  lists and words.

  A \<^verbatim>\<open>std::string\<close> is a \<^typ>\<open>string\<close>: an Isabelle \<^typ>\<open>char\<close> is one byte, exactly what
  the sources store. \<^verbatim>\<open>std::size_t\<close> and \<^verbatim>\<open>std::uint64_t\<close> values that are added and
  subtracted are 64-bit words; sizes of containers are \<^typ>\<open>nat\<close>.
\<close>

section \<open>Types and collections\<close>

type_synonym u8 = "8 word"
type_synonym u32 = "32 word"
type_synonym u64 = "64 word"
type_synonym bytes = string

named_theorems table_simps \<open>equations for the tables that back the store\<close>
named_theorems inv_intros \<open>preservation of the component invariants\<close>
named_theorems wire_simps \<open>equations for encoders and decoders\<close>

text \<open>
  Fixed-width signed arithmetic: the value a two's complement register of 64 or 32 bits
  holds after the mathematical result is stored in it.
\<close>

definition wrap64 :: "int \<Rightarrow> int" where
  "wrap64 x = sint (word_of_int x :: u64)"

definition wrap32 :: "int \<Rightarrow> int" where
  "wrap32 x = sint (word_of_int x :: u32)"

section \<open>Words\<close>

lemma wrap64_id: "- (2 ^ 63) \<le> x \<Longrightarrow> x < 2 ^ 63 \<Longrightarrow> wrap64 x = x"
  unfolding wrap64_def by (simp add: sint_sbintrunc' signed_take_bit_int_eq_self)

lemma wrap32_id: "- (2 ^ 31) \<le> x \<Longrightarrow> x < 2 ^ 31 \<Longrightarrow> wrap32 x = x"
  unfolding wrap32_def by (simp add: sint_sbintrunc' signed_take_bit_int_eq_self)

lemma wrap64_range: "- (2 ^ 63) \<le> wrap64 x \<and> wrap64 x < 2 ^ 63"
  unfolding wrap64_def
  using sint_ge [of "word_of_int x :: u64"] sint_lt [of "word_of_int x :: u64"] by simp

lemma wrap32_range: "- (2 ^ 31) \<le> wrap32 x \<and> wrap32 x < 2 ^ 31"
  unfolding wrap32_def
  using sint_ge [of "word_of_int x :: u32"] sint_lt [of "word_of_int x :: u32"] by simp

text \<open>
  Masking with \<open>2 ^ k - 1\<close> is reduction modulo \<open>2 ^ k\<close>; for a capacity beyond the word
  size the mask keeps the whole word, which is still below the capacity.
\<close>

lemma unat_and_mask_pow2:
  fixes w :: "'a::len word"
  shows "unat (w AND (of_nat (2 ^ k) - 1)) = unat w mod 2 ^ k"
proof -
  have "w AND (of_nat (2 ^ k) - 1) = take_bit k w"
    by (simp add: take_bit_eq_mask mask_eq_exp_minus_1)
  then show ?thesis
    by (metis take_bit_eq_mod unsigned_take_bit_eq)
qed

section \<open>Lists and association lists\<close>

lemma mset_concat_update:
  assumes "i < length bs"
  shows "mset (concat (bs[i := c])) + mset (bs ! i) = mset (concat bs) + mset c"
proof -
  have "concat (bs[i := c]) = concat (take i bs) @ c @ concat (drop (Suc i) bs)"
    using assms by (simp add: upd_conv_take_nth_drop)
  moreover have "concat bs = concat (take i bs) @ bs ! i @ concat (drop (Suc i) bs)"
    using assms by (metis append_assoc concat.simps(2) concat_append id_take_nth_drop)
  ultimately show ?thesis
    by (simp add: ac_simps)
qed

lemma map_of_mset_eq:
  assumes "mset xs = mset ys" and "distinct (map fst xs)"
  shows "map_of xs = map_of ys"
proof -
  have "distinct (map fst ys)"
    using assms by (metis mset_eq_imp_distinct_iff mset_map)
  then show ?thesis
    using assms map_of_inject_set mset_eq_setD by blast
qed

lemma distinct_fst_mset_eq:
  "mset xs = mset ys \<Longrightarrow> distinct (map fst xs) = distinct (map fst ys)"
  by (metis mset_eq_imp_distinct_iff mset_map)

lemma map_of_concat_None:
  "(\<And>c. c \<in> set cs \<Longrightarrow> map_of c k = None) \<Longrightarrow> map_of (concat cs) k = None"
  by (induction cs) (auto simp: map_add_None)

lemma distinct_set_singleton: "distinct xs \<Longrightarrow> set xs = {a} \<Longrightarrow> xs = [a]"
  by (metis card_1_singleton_iff distinct_card distinct_singleton empty_set insert_not_empty
      length_Suc_conv length_0_conv list.simps(15) One_nat_def singleton_insert_inj_eq)

lemma sum_list_mset_eq:
  fixes f :: "'a \<Rightarrow> 'b::comm_monoid_add"
  assumes "mset xs = mset ys"
  shows "sum_list (map f xs) = sum_list (map f ys)"
  using assms by (metis mset_map sum_mset_sum_list)

lemma map_le_None: "m \<subseteq>\<^sub>m m' \<Longrightarrow> m' k = None \<Longrightarrow> m k = None"
  by (cases "m k") (force simp: map_le_def dom_def)+

text \<open>Where a split of \<open>u @ v\<close> falls: properly inside \<open>u\<close>, or in \<open>v\<close>.\<close>

lemma append_split:
  assumes "p @ q = u @ v"
  obtains (inside) q' where "p @ q' = u" "q' \<noteq> []" | (beyond) b where "p = u @ b" "b @ q = v"
proof -
  from assms obtain us where "p = u @ us \<and> us @ q = v \<or> p @ us = u \<and> q = us @ v"
    by (auto simp: append_eq_append_conv2)
  then show thesis
  proof
    assume "p = u @ us \<and> us @ q = v"
    then show thesis using beyond by blast
  next
    assume "p @ us = u \<and> q = us @ v"
    then show thesis using inside [of us] beyond [of "[]"] by (cases "us = []") auto
  qed
qed

end
