(* ===== verification/Table_Interface.thy ===== *)
theory Table_Interface
  imports Prelude
begin

text \<open>
  The contract between the hash table and its clients (the store's key space, and the fields
  of a hash value): the operations the clients call and what each does to the finite map a
  table stands for. Everything the clients need, including how the sum of a per-entry
  measure changes under each operation, is derived here once from these laws.
\<close>

definition entry_sum :: "(string \<Rightarrow> 'v \<Rightarrow> 'b::comm_monoid_add) \<Rightarrow> (string \<times> 'v) list \<Rightarrow> 'b" where
  "entry_sum f es = (\<Sum>(k, v)\<leftarrow>es. f k v)"

lemma entry_sum_dom:
  assumes "distinct (map fst es)"
  shows "entry_sum f es = (\<Sum>k\<in>dom (map_of es). f k (the (map_of es k)))"
  using assms
proof (induction es)
  case (Cons e es)
  obtain k v where e: "e = (k, v)" by (cases e)
  have fresh: "k \<notin> dom (map_of es)"
    using Cons.prems by (simp add: e dom_map_of_conv_image_fst)
  have "(\<Sum>j\<in>dom (map_of es). f j (the (((map_of es)(k \<mapsto> v)) j)))
      = (\<Sum>j\<in>dom (map_of es). f j (the (map_of es j)))"
    using fresh by (intro sum.cong) auto
  moreover have "map_of (e # es) = (map_of es)(k \<mapsto> v)"
    by (simp add: e)
  moreover have "entry_sum f (e # es) = f k v + entry_sum f es"
    by (simp add: e entry_sum_def)
  moreover have "dom ((map_of es)(k \<mapsto> v)) = insert k (dom (map_of es))"
    by simp
  ultimately show ?case
    using Cons fresh by (simp only: sum.insert [OF finite_dom_map_of fresh]) simp
qed (simp add: entry_sum_def)

lemma entry_sum_cong:
  "(\<And>k v. (k, v) \<in> set es \<Longrightarrow> f k v = g k v) \<Longrightarrow> entry_sum f es = entry_sum g es"
  unfolding entry_sum_def by (intro arg_cong [where f = sum_list] map_cong) auto

locale keyed_table =
  fixes new :: "'t"
    and get :: "'t \<Rightarrow> string \<Rightarrow> 'v option"
    and put :: "string \<Rightarrow> 'v \<Rightarrow> 't \<Rightarrow> bool \<times> 't"
    and assign :: "string \<Rightarrow> 'v \<Rightarrow> 't \<Rightarrow> 't"
    and del :: "string \<Rightarrow> 't \<Rightarrow> bool \<times> 't"
    and clear :: "'t \<Rightarrow> 't"
    and entries :: "'t \<Rightarrow> (string \<times> 'v) list"
    and len :: "'t \<Rightarrow> nat"
    and invar :: "'t \<Rightarrow> bool"
  assumes invar_new: "invar new"
    and invar_put: "invar t \<Longrightarrow> invar (snd (put k v t))"
    and invar_assign: "invar t \<Longrightarrow> invar (assign k v t)"
    and invar_del: "invar t \<Longrightarrow> invar (snd (del k t))"
    and invar_clear: "invar (clear t)"
    and get_new: "get new = Map.empty"
    and get_put: "invar t \<Longrightarrow> get (snd (put k v t)) = (get t)(k \<mapsto> v)"
    and put_found: "invar t \<Longrightarrow> fst (put k v t) = (get t k \<noteq> None)"
    and get_assign: "invar t \<Longrightarrow>
          get (assign k v t) = (if get t k = None then get t else (get t)(k \<mapsto> v))"
    and get_del: "invar t \<Longrightarrow> get (snd (del k t)) = (get t)(k := None)"
    and del_found: "invar t \<Longrightarrow> fst (del k t) = (get t k \<noteq> None)"
    and get_clear: "get (clear t) = Map.empty"
    and map_of_entries: "invar t \<Longrightarrow> map_of (entries t) = get t"
    and distinct_entries: "invar t \<Longrightarrow> distinct (map fst (entries t))"
    and len_entries: "invar t \<Longrightarrow> len t = length (entries t)"
begin

lemmas invars = invar_new invar_put invar_assign invar_del invar_clear
lemmas gets = get_new get_put get_assign get_del get_clear

lemma finite_dom_get: "invar t \<Longrightarrow> finite (dom (get t))"
  by (metis finite_dom_map_of map_of_entries)

lemma in_entries_iff: "invar t \<Longrightarrow> (k, v) \<in> set (entries t) \<longleftrightarrow> get t k = Some v"
  by (metis distinct_entries map_of_entries map_of_eq_Some_iff)

lemma keys_entries: "invar t \<Longrightarrow> set (map fst (entries t)) = dom (get t)"
  by (metis dom_map_of_conv_image_fst list.set_map map_of_entries)

lemma len_card: "invar t \<Longrightarrow> len t = card (dom (get t))"
  by (metis distinct_card distinct_entries keys_entries len_entries length_map)

lemma len_0_iff: "invar t \<Longrightarrow> len t = 0 \<longleftrightarrow> get t = Map.empty"
  by (metis len_entries length_0_conv map_of.simps(1) map_of_entries map_of_eq_empty_iff)

lemma sum_entries:
  "invar t \<Longrightarrow> entry_sum f (entries t) = (\<Sum>k\<in>dom (get t). f k (the (get t k)))"
  by (metis distinct_entries entry_sum_dom map_of_entries)

lemma sum_new: "entry_sum f (entries new) = 0"
  by (simp add: sum_entries [OF invar_new] get_new)

lemma sum_clear: "entry_sum f (entries (clear t)) = 0"
  by (simp add: sum_entries [OF invar_clear] get_clear)

lemma sum_del:
  fixes f :: "string \<Rightarrow> 'v \<Rightarrow> 'b::ab_group_add"
  assumes "invar t" and "get t k = Some old"
  shows "entry_sum f (entries (snd (del k t))) = entry_sum f (entries t) - f k old"
proof -
  have "(\<Sum>j\<in>dom (get t) - {k}. f j (the (((get t)(k := None)) j)))
      = (\<Sum>j\<in>dom (get t) - {k}. f j (the (get t j)))"
    by (intro sum.cong) auto
  then show ?thesis
    using assms finite_dom_get [OF assms(1)]
    by (simp add: sum_entries invar_del get_del sum.remove [where x = k] domI)
qed

lemma sum_put_fresh:
  fixes f :: "string \<Rightarrow> 'v \<Rightarrow> 'b::ab_group_add"
  assumes "invar t" and "get t k = None"
  shows "entry_sum f (entries (snd (put k v t))) = entry_sum f (entries t) + f k v"
proof -
  have "(\<Sum>j\<in>dom (get t). f j (the (((get t)(k \<mapsto> v)) j))) = (\<Sum>j\<in>dom (get t). f j (the (get t j)))"
    using assms(2) by (intro sum.cong) auto
  then show ?thesis
    using assms finite_dom_get [OF assms(1)]
    by (simp add: sum_entries invar_put get_put domIff)
qed

lemma sum_map_update:
  fixes f :: "string \<Rightarrow> 'v \<Rightarrow> 'b::ab_group_add"
  assumes "invar t" and "get t k = Some old"
  shows "(\<Sum>j\<in>dom (get t). f j (the (((get t)(k \<mapsto> v)) j)))
    = (\<Sum>j\<in>dom (get t). f j (the (get t j))) - f k old + f k v"
proof -
  have "(\<Sum>j\<in>dom (get t) - {k}. f j (the (((get t)(k \<mapsto> v)) j)))
      = (\<Sum>j\<in>dom (get t) - {k}. f j (the (get t j)))"
    by (intro sum.cong) auto
  then show ?thesis
    using assms finite_dom_get [OF assms(1)] by (simp add: sum.remove [where x = k] domI)
qed

lemma sum_put_present:
  fixes f :: "string \<Rightarrow> 'v \<Rightarrow> 'b::ab_group_add"
  assumes "invar t" and "get t k = Some old"
  shows "entry_sum f (entries (snd (put k v t))) = entry_sum f (entries t) - f k old + f k v"
  using assms sum_map_update [OF assms]
  by (simp add: sum_entries invar_put get_put insert_absorb domI)

lemma sum_assign:
  fixes f :: "string \<Rightarrow> 'v \<Rightarrow> 'b::ab_group_add"
  assumes "invar t" and "get t k = Some old"
  shows "entry_sum f (entries (assign k v t)) = entry_sum f (entries t) - f k old + f k v"
  using assms sum_map_update [OF assms]
  by (simp add: sum_entries invar_assign get_assign insert_absorb domI)

lemma invar_put_all: "invar t \<Longrightarrow> invar (fold (\<lambda>(k, v) t. snd (put k v t)) kvs t)"
  by (induction kvs arbitrary: t) (auto simp: invar_put)

lemma get_put_all:
  "invar t \<Longrightarrow> get (fold (\<lambda>(k, v) t. snd (put k v t)) kvs t) = get t ++ map_of (rev kvs)"
  by (induction kvs arbitrary: t)
    (auto simp: invar_put get_put map_add_upd fun_eq_iff map_add_def split: option.split)

lemma len_put: "invar t \<Longrightarrow> len (snd (put k v t)) = (if get t k = None then Suc (len t) else len t)"
  by (simp add: len_card invar_put get_put finite_dom_get domIff card_insert_if)

lemma len_del: "invar t \<Longrightarrow> len (snd (del k t)) = (if get t k = None then len t else len t - 1)"
  by (simp add: len_card invar_del get_del finite_dom_get card_Diff_singleton_if domIff)

end

end
