(* ===== verification/HashTable.thy ===== *)
theory HashTable
  imports Complex_Main Table_Interface
begin

text \<open>
  The hand-rolled hash table of \<^verbatim>\<open>src/src/store/hash_table.h\<close>. A bucket is the chain of nodes
  hanging off it, from its head; \<^verbatim>\<open>buckets_\<close> is the list of chains and \<^verbatim>\<open>num_entries_\<close>
  the counter the class keeps. A pointer returned by \<^verbatim>\<open>Get\<close> and written through by
  the store is \<open>HT_Assign\<close>. \<^verbatim>\<open>SampleKeys\<close> draws bucket numbers from a random
  generator; the draws are a parameter.

  \<open>LoadFactor\<close> is the exact quotient: the capacity is a power of two, so the division of
  the two doubles is exact as long as the counts fit in 53 bits.
\<close>

unbundle bit_operations_syntax

section \<open>The table and its operations\<close>

type_synonym 'v node_chain = "(string \<times> 'v) list"

record 'v hash_table =
  buckets :: "'v node_chain list"
  num_entries :: nat

definition kInitialCapacity :: nat where
  "kInitialCapacity = 16"

definition kMaxLoadFactor :: real where
  "kMaxLoadFactor = 3 / 4"

definition kGrowthMultiplier :: nat where
  "kGrowthMultiplier = 2"

definition kOffsetBasis :: u64 where
  "kOffsetBasis = 14695981039346656037"

definition kPrime :: u64 where
  "kPrime = 1099511628211"

definition fnv_step :: "u64 \<Rightarrow> char \<Rightarrow> u64" where
  "fnv_step hash c = (hash XOR of_char c) * kPrime"

definition HashKey :: "string \<Rightarrow> u64" where
  "HashKey key = foldl fnv_step kOffsetBasis key"

definition bucket_slot :: "nat \<Rightarrow> string \<Rightarrow> nat" where
  "bucket_slot capacity key = unat (HashKey key AND (of_nat capacity - 1))"

definition BucketIndex :: "'v hash_table \<Rightarrow> string \<Rightarrow> nat" where
  "BucketIndex ht key = bucket_slot (length (buckets ht)) key"

definition LoadFactor :: "'v hash_table \<Rightarrow> real" where
  "LoadFactor ht = of_nat (num_entries ht) / of_nat (length (buckets ht))"

definition HT_new :: "'v hash_table" where
  "HT_new = \<lparr>buckets = replicate kInitialCapacity [], num_entries = 0\<rparr>"

definition relink :: "nat \<Rightarrow> string \<times> 'v \<Rightarrow> 'v node_chain list \<Rightarrow> 'v node_chain list" where
  "relink new_capacity node new_buckets =
     (let index = bucket_slot new_capacity (fst node)
      in new_buckets[index := node # new_buckets ! index])"

definition RehashTo :: "nat \<Rightarrow> 'v hash_table \<Rightarrow> 'v hash_table" where
  "RehashTo new_capacity ht =
     ht\<lparr>buckets := fold (fold (relink new_capacity)) (buckets ht) (replicate new_capacity [])\<rparr>"

definition Resize :: "'v hash_table \<Rightarrow> 'v hash_table" where
  "Resize ht = RehashTo (length (buckets ht) * kGrowthMultiplier) ht"

definition MaybeShrink :: "'v hash_table \<Rightarrow> 'v hash_table" where
  "MaybeShrink ht =
     (if length (buckets ht) \<le> kInitialCapacity then ht
      else if LoadFactor ht \<ge> kMaxLoadFactor / 4 then ht
      else RehashTo (max (length (buckets ht) div kGrowthMultiplier) kInitialCapacity) ht)"

fun chain_get :: "string \<Rightarrow> 'v node_chain \<Rightarrow> 'v option" where
  "chain_get key [] = None"
| "chain_get key ((k, v) # rest) = (if k = key then Some v else chain_get key rest)"

fun chain_update :: "string \<Rightarrow> 'v \<Rightarrow> 'v node_chain \<Rightarrow> 'v node_chain option" where
  "chain_update key value [] = None"
| "chain_update key value ((k, v) # rest) =
     (if k = key then Some ((k, value) # rest)
      else map_option (Cons (k, v)) (chain_update key value rest))"

fun chain_remove :: "string \<Rightarrow> 'v node_chain \<Rightarrow> 'v node_chain option" where
  "chain_remove key [] = None"
| "chain_remove key ((k, v) # rest) =
     (if k = key then Some rest else map_option (Cons (k, v)) (chain_remove key rest))"

definition HT_Set :: "string \<Rightarrow> 'v \<Rightarrow> 'v hash_table \<Rightarrow> bool \<times> 'v hash_table" where
  "HT_Set key value ht =
     (let index = BucketIndex ht key in
      case chain_update key value (buckets ht ! index) of
        Some chain \<Rightarrow> (True, ht\<lparr>buckets := (buckets ht)[index := chain]\<rparr>)
      | None \<Rightarrow>
          (let ht1 = ht\<lparr>buckets := (buckets ht)[index := (key, value) # buckets ht ! index],
                        num_entries := num_entries ht + 1\<rparr>
           in (False, if LoadFactor ht1 > kMaxLoadFactor then Resize ht1 else ht1)))"

definition HT_Get :: "'v hash_table \<Rightarrow> string \<Rightarrow> 'v option" where
  "HT_Get ht key = chain_get key (buckets ht ! BucketIndex ht key)"

definition HT_Assign :: "string \<Rightarrow> 'v \<Rightarrow> 'v hash_table \<Rightarrow> 'v hash_table" where
  "HT_Assign key value ht =
     (let index = BucketIndex ht key in
      case chain_update key value (buckets ht ! index) of
        Some chain \<Rightarrow> ht\<lparr>buckets := (buckets ht)[index := chain]\<rparr>
      | None \<Rightarrow> ht)"

definition HT_Delete :: "string \<Rightarrow> 'v hash_table \<Rightarrow> bool \<times> 'v hash_table" where
  "HT_Delete key ht =
     (let index = BucketIndex ht key in
      case chain_remove key (buckets ht ! index) of
        Some chain \<Rightarrow>
          (True, MaybeShrink (ht\<lparr>buckets := (buckets ht)[index := chain],
                                 num_entries := num_entries ht - 1\<rparr>))
      | None \<Rightarrow> (False, ht))"

definition HT_Len :: "'v hash_table \<Rightarrow> nat" where
  "HT_Len ht = num_entries ht"

definition HT_Keys :: "'v hash_table \<Rightarrow> string list" where
  "HT_Keys ht = concat (map (map fst) (buckets ht))"

definition HT_ForEach :: "(string \<Rightarrow> 'v \<Rightarrow> 's \<Rightarrow> 's) \<Rightarrow> 'v hash_table \<Rightarrow> 's \<Rightarrow> 's" where
  "HT_ForEach fn ht st = fold (fold (\<lambda>(key, value). fn key value)) (buckets ht) st"

text \<open>
  The sampling loop: \<open>draw i\<close> stands for the \<open>i\<close>-th number the generator delivers, reduced to
  the range \<open>[0, buckets_.size() - 1]\<close> the distribution is constructed with, so that every
  sequence of draws the distribution can make is the image of some \<open>draw\<close>. The first
  argument is what is left of the bounded number of attempts.
\<close>

fun sample_loop :: "nat \<Rightarrow> (nat \<Rightarrow> nat) \<Rightarrow> nat \<Rightarrow> 'v hash_table \<Rightarrow> nat \<Rightarrow> (string \<times> 'v) list \<Rightarrow>
    (string \<times> 'v) list" where
  "sample_loop 0 draw n ht attempts out = out"
| "sample_loop (Suc left) draw n ht attempts out =
     (if length out < n then
        (case buckets ht ! (draw attempts mod length (buckets ht)) of
           [] \<Rightarrow> sample_loop left draw n ht (attempts + 1) out
         | node # _ \<Rightarrow> sample_loop left draw n ht (attempts + 1) (out @ [node]))
      else out)"

definition SampleKeys :: "(nat \<Rightarrow> nat) \<Rightarrow> nat \<Rightarrow> 'v hash_table \<Rightarrow> (string \<times> 'v) list" where
  "SampleKeys draw n ht =
     (if num_entries ht = 0 then [] else sample_loop (n * 20) draw n ht 0 [])"

definition HT_Clear :: "'v hash_table \<Rightarrow> 'v hash_table" where
  "HT_Clear ht = ht\<lparr>buckets := replicate kInitialCapacity [], num_entries := 0\<rparr>"

text \<open>The entries in the order \<^verbatim>\<open>ForEach\<close> visits them.\<close>

definition HT_entries :: "'v hash_table \<Rightarrow> (string \<times> 'v) list" where
  "HT_entries ht = concat (buckets ht)"

section \<open>Invariant\<close>

text \<open>
  \<open>ht_wf\<close>: the capacity is a power of two of at least 16, every node sits in the bucket its
  key hashes to, no key occurs twice and the counter is the number of nodes.
  \<open>ht_inv\<close> adds the two load bounds the resizing policy is meant to keep.
\<close>

definition slots_ok :: "'v node_chain list \<Rightarrow> bool" where
  "slots_ok bs \<longleftrightarrow> (\<forall>i < length bs. \<forall>node \<in> set (bs ! i). bucket_slot (length bs) (fst node) = i)"

definition pow2_capacity :: "nat \<Rightarrow> bool" where
  "pow2_capacity n \<longleftrightarrow> (\<exists>k \<ge> 4. n = 2 ^ k)"

definition ht_wf :: "'v hash_table \<Rightarrow> bool" where
  "ht_wf ht \<longleftrightarrow> pow2_capacity (length (buckets ht)) \<and> slots_ok (buckets ht)
     \<and> distinct (map fst (HT_entries ht)) \<and> num_entries ht = length (HT_entries ht)"

definition ht_balanced :: "'v hash_table \<Rightarrow> bool" where
  "ht_balanced ht \<longleftrightarrow> 4 * num_entries ht \<le> 3 * length (buckets ht)
     \<and> (length (buckets ht) = kInitialCapacity \<or> 3 * length (buckets ht) \<le> 16 * num_entries ht)"

definition ht_inv :: "'v hash_table \<Rightarrow> bool" where
  "ht_inv ht \<longleftrightarrow> ht_wf ht \<and> ht_balanced ht"

text \<open>A client's history of a table, and the same history on a finite map.\<close>

datatype 'v table_op = OpSet string 'v | OpDelete string | OpClear

fun table_step :: "'v table_op \<Rightarrow> 'v hash_table \<Rightarrow> 'v hash_table" where
  "table_step (OpSet k v) ht = snd (HT_Set k v ht)"
| "table_step (OpDelete k) ht = snd (HT_Delete k ht)"
| "table_step OpClear ht = HT_Clear ht"

fun map_step :: "'v table_op \<Rightarrow> (string \<rightharpoonup> 'v) \<Rightarrow> (string \<rightharpoonup> 'v)" where
  "map_step (OpSet k v) m = m(k \<mapsto> v)"
| "map_step (OpDelete k) m = m(k := None)"
| "map_step OpClear m = Map.empty"

section \<open>Buckets and hashing\<close>

lemma pow2_capacity_16: "pow2_capacity kInitialCapacity"
  unfolding pow2_capacity_def kInitialCapacity_def by (rule exI [of _ 4]) simp

lemma pow2_capacity_double: "pow2_capacity n \<Longrightarrow> pow2_capacity (n * kGrowthMultiplier)"
  unfolding pow2_capacity_def kGrowthMultiplier_def
  by (metis le_Suc_eq power_Suc2)

lemma pow2_capacity_ge: "pow2_capacity n \<Longrightarrow> 16 \<le> n"
  unfolding pow2_capacity_def
  using power_increasing [of 4 _ "2::nat"] by fastforce

lemma pow2_capacity_half:
  assumes "pow2_capacity n" and "kInitialCapacity < n"
  shows "max (n div kGrowthMultiplier) kInitialCapacity = n div 2"
    and "pow2_capacity (n div 2)" and "2 * (n div 2) = n"
proof -
  obtain k where k: "k \<ge> 4" "n = 2 ^ k"
    using assms(1) by (auto simp: pow2_capacity_def)
  then have "k \<noteq> 4" using assms(2) by (auto simp: kInitialCapacity_def)
  with k obtain j where j: "k = Suc j" "j \<ge> 4"
    by (cases k) auto
  then have half: "n div 2 = 2 ^ j" using k by simp
  then show "pow2_capacity (n div 2)" using j by (auto simp: pow2_capacity_def)
  then show "max (n div kGrowthMultiplier) kInitialCapacity = n div 2"
    using pow2_capacity_ge by (simp add: kGrowthMultiplier_def kInitialCapacity_def)
  show "2 * (n div 2) = n" using half k j by simp
qed

lemma bucket_slot_mod: "pow2_capacity n \<Longrightarrow> bucket_slot n key = unat (HashKey key) mod n"
  unfolding bucket_slot_def pow2_capacity_def using unat_and_mask_pow2 by fastforce

lemma bucket_slot_less: "pow2_capacity n \<Longrightarrow> bucket_slot n key < n"
  using pow2_capacity_ge by (fastforce simp: bucket_slot_mod)

lemma chain_get_map_of: "chain_get key c = map_of c key"
  by (induction c) auto

lemma chain_update_cases:
  "case chain_update key v c of
     None \<Rightarrow> key \<notin> fst ` set c
   | Some c' \<Rightarrow> (\<exists>old. add_mset (key, old) (mset c') = add_mset (key, v) (mset c)
                   \<and> map_of c key = Some old)"
proof (induction c)
  case (Cons kv c)
  obtain k w where kv: "kv = (k, w)" by (cases kv)
  show ?case
    using Cons by (cases "chain_update key v c") (auto simp: kv add_mset_commute)
qed simp

lemma chain_remove_cases:
  "case chain_remove key c of
     None \<Rightarrow> key \<notin> fst ` set c
   | Some c' \<Rightarrow> (\<exists>old. mset c = add_mset (key, old) (mset c') \<and> map_of c key = Some old)"
proof (induction c)
  case (Cons kv c)
  obtain k w where kv: "kv = (k, w)" by (cases kv)
  show ?case
    using Cons by (cases "chain_remove key c") (auto simp: kv add_mset_commute)
qed simp

lemma chain_update_keys: "chain_update key v c = Some c' \<Longrightarrow> map fst c' = map fst c"
  by (induction c arbitrary: c') (auto split: if_splits)

lemma chain_remove_keys: "chain_remove key c = Some c' \<Longrightarrow> set c' \<subseteq> set c"
  by (induction c arbitrary: c') (fastforce split: if_splits)+

lemma slots_okD:
  "slots_ok bs \<Longrightarrow> i < length bs \<Longrightarrow> node \<in> set (bs ! i) \<Longrightarrow> bucket_slot (length bs) (fst node) = i"
  by (auto simp: slots_ok_def)

lemma slots_ok_update:
  assumes "slots_ok bs" and "\<And>node. node \<in> set c \<Longrightarrow> bucket_slot (length bs) (fst node) = i"
  shows "slots_ok (bs[i := c])"
  unfolding slots_ok_def
proof (intro allI impI ballI)
  fix j node assume "j < length (bs[i := c])" and "node \<in> set (bs[i := c] ! j)"
  then show "bucket_slot (length (bs[i := c])) (fst node) = j"
    using assms by (cases "i = j") (simp_all add: slots_okD)
qed

lemma slots_ok_empty: "slots_ok (replicate n [])"
  by (auto simp: slots_ok_def)

lemma slots_ok_lookup:
  assumes "slots_ok bs" and "bucket_slot (length bs) key < length bs"
  shows "map_of (bs ! bucket_slot (length bs) key) key = map_of (concat bs) key"
proof -
  let ?i = "bucket_slot (length bs) key"
  have split: "bs = take ?i bs @ bs ! ?i # drop (Suc ?i) bs"
    using assms(2) by (rule id_take_nth_drop)
  have other: "map_of (bs ! j) key = None" if "j < length bs" "j \<noteq> ?i" for j
    using slots_okD [OF assms(1) that(1)] that(2) by (force simp: map_of_eq_None_iff)
  have "map_of (concat (take ?i bs)) key = None"
    by (rule map_of_concat_None) (use other in \<open>auto simp: in_set_conv_nth\<close>)
  moreover have "map_of (concat (drop (Suc ?i) bs)) key = None"
    by (rule map_of_concat_None) (use other in \<open>auto simp: in_set_conv_nth\<close>)
  ultimately show ?thesis
    by (subst (2) split) (simp add: map_add_def split: option.split)
qed

section \<open>Rehashing\<close>

lemma length_relink [simp]: "length (relink n node bs) = length bs"
  by (simp add: relink_def Let_def)

lemma fold_fold_concat: "fold (fold f) xss st = fold f (concat xss) st"
  by (induction xss arbitrary: st) auto

lemma relink_invariant:
  assumes "pow2_capacity n" and "length bs = n" and "slots_ok bs"
  shows "slots_ok (relink n node bs)"
    and "mset (concat (relink n node bs)) = add_mset node (mset (concat bs))"
proof -
  let ?i = "bucket_slot n (fst node)"
  have i: "?i < length bs" using assms bucket_slot_less by simp
  show "slots_ok (relink n node bs)"
    unfolding relink_def Let_def using assms i
    by (intro slots_ok_update) (auto dest: slots_okD)
  show "mset (concat (relink n node bs)) = add_mset node (mset (concat bs))"
    using mset_concat_update [OF i, of "node # bs ! ?i"] by (simp add: relink_def Let_def)
qed

lemma fold_relink_invariant:
  assumes "pow2_capacity n" and "length bs = n" and "slots_ok bs"
  shows "length (fold (relink n) nodes bs) = n \<and> slots_ok (fold (relink n) nodes bs)
    \<and> mset (concat (fold (relink n) nodes bs)) = mset nodes + mset (concat bs)"
  using assms(2,3)
proof (induction nodes arbitrary: bs)
  case (Cons node nodes)
  then show ?case using relink_invariant [OF assms(1) Cons.prems]
    by (simp add: Cons.IH)
qed (simp add: assms)

lemma RehashTo_facts:
  assumes "ht_wf ht" and "pow2_capacity n"
  shows "ht_wf (RehashTo n ht)" and "length (buckets (RehashTo n ht)) = n"
    and "num_entries (RehashTo n ht) = num_entries ht"
    and "mset (HT_entries (RehashTo n ht)) = mset (HT_entries ht)"
proof -
  note inv = fold_relink_invariant [OF assms(2) _ slots_ok_empty, of n "concat (buckets ht)"]
  show len: "length (buckets (RehashTo n ht)) = n"
    using inv by (simp add: RehashTo_def fold_fold_concat)
  show num: "num_entries (RehashTo n ht) = num_entries ht"
    by (simp add: RehashTo_def)
  show ms: "mset (HT_entries (RehashTo n ht)) = mset (HT_entries ht)"
    using inv by (simp add: RehashTo_def fold_fold_concat HT_entries_def)
  have "slots_ok (buckets (RehashTo n ht))"
    using inv by (simp add: RehashTo_def fold_fold_concat)
  moreover have "length (HT_entries (RehashTo n ht)) = length (HT_entries ht)"
    using ms by (metis size_mset)
  ultimately show "ht_wf (RehashTo n ht)"
    using assms len num distinct_fst_mset_eq [OF ms] by (simp add: ht_wf_def)
qed

section \<open>Functional behaviour of the operations\<close>

lemma ht_wf_slot: "ht_wf ht \<Longrightarrow> BucketIndex ht key < length (buckets ht)"
  by (simp add: ht_wf_def BucketIndex_def bucket_slot_less)

lemma HT_Get_map_of: "ht_wf ht \<Longrightarrow> HT_Get ht = map_of (HT_entries ht)"
  using ht_wf_slot [of ht]
  by (auto simp: fun_eq_iff HT_Get_def chain_get_map_of HT_entries_def BucketIndex_def ht_wf_def
      intro!: slots_ok_lookup)

lemma LoadFactor_gt:
  "0 < length (buckets ht) \<Longrightarrow>
     (LoadFactor ht > kMaxLoadFactor) = (3 * length (buckets ht) < 4 * num_entries ht)"
  unfolding LoadFactor_def kMaxLoadFactor_def
  by (simp add: field_simps) linarith

lemma LoadFactor_ge_quarter:
  "0 < length (buckets ht) \<Longrightarrow>
     (LoadFactor ht \<ge> kMaxLoadFactor / 4) = (3 * length (buckets ht) \<le> 16 * num_entries ht)"
  unfolding LoadFactor_def kMaxLoadFactor_def
  by (simp add: field_simps) linarith

lemma ht_wf_pos: "ht_wf ht \<Longrightarrow> 0 < length (buckets ht)"
  using pow2_capacity_ge by (fastforce simp: ht_wf_def)

text \<open>What replacing one bucket of a well-formed table does to its entries.\<close>

lemma bucket_update_wf:
  assumes wf: "ht_wf ht" and i: "i = BucketIndex ht key"
    and keys: "fst ` set chain \<subseteq> insert key (fst ` set (buckets ht ! i))"
    and dist: "distinct (map fst (concat ((buckets ht)[i := chain])))"
  shows "ht_wf (ht\<lparr>buckets := (buckets ht)[i := chain],
                 num_entries := length (concat ((buckets ht)[i := chain]))\<rparr>)"
proof -
  have "slots_ok ((buckets ht)[i := chain])"
  proof (rule slots_ok_update)
    show "slots_ok (buckets ht)" using wf by (simp add: ht_wf_def)
    fix node assume "node \<in> set chain"
    then have "fst node = key \<or> fst node \<in> fst ` set (buckets ht ! i)"
      using keys by blast
    then show "bucket_slot (length (buckets ht)) (fst node) = i"
      using wf ht_wf_slot [OF wf, of key] i slots_okD [of "buckets ht" i]
      by (auto simp: ht_wf_def BucketIndex_def)
  qed
  then show ?thesis
    using wf dist by (simp add: ht_wf_def HT_entries_def)
qed

lemma mset_remove_key:
  assumes "map_of es key = Some old"
  obtains rest where "mset es = add_mset (key, old) (mset rest)"
  using assms by (metis ex_mset insert_DiffM map_of_SomeD set_mset_mset)

lemma key_absent_iff: "key \<notin> fst ` set es \<longleftrightarrow> map_of es key = None"
  by (simp add: map_of_eq_None_iff)

lemma HT_Set_update_facts:
  assumes wf: "ht_wf ht" and old: "HT_Get ht key = Some old"
  obtains rest where "mset (HT_entries ht) = add_mset (key, old) (mset rest)"
    and "HT_Set key v ht = (True, HT_Assign key v ht)"
    and "mset (HT_entries (HT_Assign key v ht)) = add_mset (key, v) (mset rest)"
    and "ht_wf (HT_Assign key v ht)"
    and "num_entries (HT_Assign key v ht) = num_entries ht"
    and "length (buckets (HT_Assign key v ht)) = length (buckets ht)"
proof -
  let ?i = "BucketIndex ht key"
  let ?c = "buckets ht ! ?i"
  have in_c: "map_of ?c key = Some old"
    using old by (simp add: HT_Get_def chain_get_map_of)
  obtain chain where chain: "chain_update key v ?c = Some chain"
    using chain_update_cases [where key = key and v = v and c = ?c] in_c key_absent_iff [of key ?c] by (auto split: option.splits)
  then have ms: "add_mset (key, old) (mset chain) = add_mset (key, v) (mset ?c)"
    using chain_update_cases [where key = key and v = v and c = ?c] in_c by auto
  have es: "HT_entries (HT_Assign key v ht) = concat ((buckets ht)[?i := chain])"
    by (simp add: HT_Assign_def Let_def chain HT_entries_def)
  have upd: "mset (concat ((buckets ht)[?i := chain])) + mset ?c = mset (HT_entries ht) + mset chain"
    using mset_concat_update [OF ht_wf_slot [OF wf]] by (simp add: HT_entries_def)
  obtain rest where rest: "mset (HT_entries ht) = add_mset (key, old) (mset rest)"
    using mset_remove_key old HT_Get_map_of [OF wf] by metis
  have new: "mset (concat ((buckets ht)[?i := chain])) = add_mset (key, v) (mset rest)"
  proof -
    have "mset (concat ((buckets ht)[?i := chain])) + mset ?c
        = mset rest + add_mset (key, old) (mset chain)"
      using upd rest by simp
    then have "mset (concat ((buckets ht)[?i := chain])) + mset ?c
        = add_mset (key, v) (mset rest) + mset ?c"
      unfolding ms by simp
    then show ?thesis by (rule add_right_imp_eq)
  qed
  have "distinct (map fst ((key, old) # rest))"
    using wf distinct_fst_mset_eq [of "HT_entries ht" "(key, old) # rest"] rest
    by (simp add: ht_wf_def)
  then have dist: "distinct (map fst (concat ((buckets ht)[?i := chain])))"
    using distinct_fst_mset_eq [of _ "(key, v) # rest"] new by simp
  have len: "length (concat ((buckets ht)[?i := chain])) = num_entries ht"
    using new rest wf by (metis ht_wf_def size_add_mset size_mset)
  have shape: "HT_Assign key v ht = ht\<lparr>buckets := (buckets ht)[?i := chain], num_entries := num_entries ht\<rparr>"
    by (simp add: HT_Assign_def Let_def chain)
  have "fst ` set chain \<subseteq> insert key (fst ` set ?c)"
    using chain_update_keys [OF chain] by (metis list.set_map subset_insertI)
  then have wf': "ht_wf (HT_Assign key v ht)"
    using bucket_update_wf [OF wf refl _ dist] len by (simp add: shape)
  show thesis
    by (rule that [OF rest _ _ wf'])
      (auto simp: HT_Set_def HT_Assign_def Let_def chain new HT_entries_def)
qed

lemma HT_Assign_absent: "ht_wf ht \<Longrightarrow> HT_Get ht key = None \<Longrightarrow> HT_Assign key v ht = ht"
  using chain_update_cases [where key = key and v = v and c = "buckets ht ! BucketIndex ht key"]
  by (auto simp: HT_Assign_def HT_Get_def Let_def chain_get_map_of split: option.splits)

lemma HT_Set_insert_facts:
  assumes inv: "ht_inv ht" and absent: "HT_Get ht key = None"
  shows "fst (HT_Set key v ht) = False"
    and "mset (HT_entries (snd (HT_Set key v ht))) = add_mset (key, v) (mset (HT_entries ht))"
    and "ht_inv (snd (HT_Set key v ht))"
proof -
  let ?i = "BucketIndex ht key"
  let ?bs = "(buckets ht)[?i := (key, v) # buckets ht ! ?i]"
  define ht1 where "ht1 = ht\<lparr>buckets := ?bs, num_entries := num_entries ht + 1\<rparr>"
  have wf: "ht_wf ht" and bal: "ht_balanced ht"
    using inv by (simp_all add: ht_inv_def)
  have upd: "chain_update key v (buckets ht ! ?i) = None"
    using chain_update_cases [where key = key and v = v and c = "buckets ht ! ?i"] absent
    by (auto simp: HT_Get_def chain_get_map_of split: option.splits)
  have set_eq: "HT_Set key v ht = (False, if LoadFactor ht1 > kMaxLoadFactor then Resize ht1 else ht1)"
    by (simp add: HT_Set_def Let_def upd ht1_def)
  then show "fst (HT_Set key v ht) = False" by simp
  have ms: "mset (concat ?bs) = add_mset (key, v) (mset (HT_entries ht))"
    using mset_concat_update [OF ht_wf_slot [OF wf], of key "(key, v) # buckets ht ! ?i"]
    by (simp add: HT_entries_def)
  then have len: "length (concat ?bs) = num_entries ht + 1"
    using wf by (metis Suc_eq_plus1 ht_wf_def size_add_mset size_mset)
  have "key \<notin> fst ` set (HT_entries ht)"
    using absent HT_Get_map_of [OF wf] by (simp add: map_of_eq_None_iff)
  then have "distinct (map fst (concat ?bs))"
    using distinct_fst_mset_eq [of "concat ?bs" "(key, v) # HT_entries ht"] ms wf
    by (simp add: ht_wf_def)
  then have wf1: "ht_wf ht1"
    using bucket_update_wf [OF wf refl, where key = key and chain = "(key, v) # buckets ht ! ?i"] len
    by (simp add: ht1_def image_subset_iff)
  have cap1: "length (buckets ht1) = length (buckets ht)" "num_entries ht1 = num_entries ht + 1"
    by (simp_all add: ht1_def)
  have grow: "ht_wf (Resize ht1)" "length (buckets (Resize ht1)) = 2 * length (buckets ht)"
    "num_entries (Resize ht1) = num_entries ht1" "mset (HT_entries (Resize ht1)) = mset (HT_entries ht1)"
    using RehashTo_facts [OF wf1 pow2_capacity_double] wf1 cap1
    by (simp_all add: Resize_def ht_wf_def kGrowthMultiplier_def)
  have cap16: "16 \<le> length (buckets ht)"
    using wf pow2_capacity_ge by (auto simp: ht_wf_def)
  show "mset (HT_entries (snd (HT_Set key v ht))) = add_mset (key, v) (mset (HT_entries ht))"
    using grow(4) ms by (simp add: set_eq ht1_def HT_entries_def)
  show "ht_inv (snd (HT_Set key v ht))"
    using wf1 grow bal cap1 cap16 LoadFactor_gt [OF ht_wf_pos [OF wf1]]
    by (auto simp: set_eq ht_inv_def ht_balanced_def)
qed

lemma HT_Assign_inv: "ht_inv ht \<Longrightarrow> ht_inv (HT_Assign key v ht)"
proof (cases "HT_Get ht key")
  case (Some old)
  assume "ht_inv ht"
  then show ?thesis
    unfolding ht_inv_def ht_balanced_def using HT_Set_update_facts [OF _ Some, of v] by metis
qed (simp add: ht_inv_def HT_Assign_absent)

lemma HT_Set_inv: "ht_inv ht \<Longrightarrow> ht_inv (snd (HT_Set key v ht))"
proof (cases "HT_Get ht key")
  case (Some old)
  assume "ht_inv ht"
  then show ?thesis
    using HT_Assign_inv [of ht key v] HT_Set_update_facts [OF _ Some, of v]
    by (metis ht_inv_def snd_conv)
qed (rule HT_Set_insert_facts(3))

lemma HT_Delete_absent: "ht_wf ht \<Longrightarrow> HT_Get ht key = None \<Longrightarrow> HT_Delete key ht = (False, ht)"
  using chain_remove_cases [where key = key and c = "buckets ht ! BucketIndex ht key"]
  by (auto simp: HT_Delete_def HT_Get_def Let_def chain_get_map_of split: option.splits)

lemma HT_Delete_present_facts:
  assumes inv: "ht_inv ht" and old: "HT_Get ht key = Some old"
  shows "fst (HT_Delete key ht) = True"
    and "mset (HT_entries ht) = add_mset (key, old) (mset (HT_entries (snd (HT_Delete key ht))))"
    and "ht_inv (snd (HT_Delete key ht))"
proof -
  let ?i = "BucketIndex ht key"
  let ?c = "buckets ht ! ?i"
  have wf: "ht_wf ht" and bal: "ht_balanced ht"
    using inv by (simp_all add: ht_inv_def)
  have in_c: "map_of ?c key = Some old"
    using old by (simp add: HT_Get_def chain_get_map_of)
  then obtain chain where chain: "chain_remove key ?c = Some chain"
    and ms_c: "mset ?c = add_mset (key, old) (mset chain)"
    using chain_remove_cases [where key = key and c = ?c] key_absent_iff [of key ?c]
    by (auto split: option.splits)
  define ht1 where "ht1 = ht\<lparr>buckets := (buckets ht)[?i := chain], num_entries := num_entries ht - 1\<rparr>"
  have del_eq: "HT_Delete key ht = (True, MaybeShrink ht1)"
    by (simp add: HT_Delete_def Let_def chain ht1_def)
  then show "fst (HT_Delete key ht) = True" by simp
  have ms: "mset (HT_entries ht) = add_mset (key, old) (mset (HT_entries ht1))"
    using mset_concat_update [OF ht_wf_slot [OF wf], of key chain] ms_c
    by (simp add: HT_entries_def ht1_def)
  then have len: "num_entries ht = Suc (length (HT_entries ht1))"
    using wf by (metis ht_wf_def size_add_mset size_mset)
  have "distinct (map fst (HT_entries ht1))"
    using distinct_fst_mset_eq [of "HT_entries ht" "(key, old) # HT_entries ht1"] ms wf
    by (simp add: ht_wf_def)
  then have dist: "distinct (map fst (concat ((buckets ht)[?i := chain])))"
    by (simp add: HT_entries_def ht1_def)
  have shape: "ht1 = ht\<lparr>buckets := (buckets ht)[?i := chain],
      num_entries := length (concat ((buckets ht)[?i := chain]))\<rparr>"
    using len by (simp add: ht1_def HT_entries_def)
  have wf1: "ht_wf ht1"
    unfolding shape
    by (rule bucket_update_wf [OF wf refl _ dist])
      (use image_mono [OF chain_remove_keys [OF chain], of fst] in blast)
  have cap1: "length (buckets ht1) = length (buckets ht)" "num_entries ht1 = num_entries ht - 1"
    by (simp_all add: ht1_def)
  have p2: "pow2_capacity (length (buckets ht1))"
    using wf1 by (simp add: ht_wf_def)
  note low = LoadFactor_ge_quarter [OF ht_wf_pos [OF wf1]]
  have "ht_inv (MaybeShrink ht1) \<and> mset (HT_entries (MaybeShrink ht1)) = mset (HT_entries ht1)"
  proof (cases "kInitialCapacity < length (buckets ht1) \<and> \<not> LoadFactor ht1 \<ge> kMaxLoadFactor / 4")
    case True
    then have big: "kInitialCapacity < length (buckets ht1)" by simp
    note half = pow2_capacity_half [OF p2 big]
    note rh = RehashTo_facts [OF wf1 half(2)]
    have "MaybeShrink ht1 = RehashTo (length (buckets ht1) div 2) ht1"
      using True half(1) by (simp add: MaybeShrink_def)
    moreover have "ht_balanced (RehashTo (length (buckets ht1) div 2) ht1)"
      unfolding ht_balanced_def rh(2,3)
      using True half(3) low bal cap1 len big unfolding ht_balanced_def kInitialCapacity_def by linarith
    ultimately show ?thesis
      using rh(1,4) by (simp add: ht_inv_def)
  next
    case False
    then have "ht_balanced ht1"
      using bal cap1 pow2_capacity_ge [OF p2] low unfolding ht_balanced_def kInitialCapacity_def by linarith
    then show ?thesis
      using wf1 False by (auto simp: MaybeShrink_def ht_inv_def)
  qed
  then show "ht_inv (snd (HT_Delete key ht))"
    and "mset (HT_entries ht) = add_mset (key, old) (mset (HT_entries (snd (HT_Delete key ht))))"
    using del_eq ms by simp_all
qed

section \<open>The table implements a finite map\<close>

lemma HT_new_inv [simp]: "ht_inv HT_new"
  using pow2_capacity_16 slots_ok_empty
  by (simp add: ht_inv_def ht_wf_def ht_balanced_def HT_new_def HT_entries_def)

lemma HT_Clear_inv: "ht_inv (HT_Clear ht)"
  using pow2_capacity_16 slots_ok_empty
  by (simp add: ht_inv_def ht_wf_def ht_balanced_def HT_Clear_def HT_entries_def)

lemma ht_inv_wf: "ht_inv ht \<Longrightarrow> ht_wf ht"
  by (simp add: ht_inv_def)

lemma HT_entries_Nil:
  "HT_entries (HT_new :: 'v hash_table) = []" "HT_entries (HT_Clear ht) = []"
  by (simp_all add: HT_entries_def HT_new_def HT_Clear_def)

lemma HT_Get_mset_Cons:
  assumes "ht_wf ht" and "mset (HT_entries ht) = add_mset (k, v) (mset rest)"
  shows "HT_Get ht = (map_of rest)(k \<mapsto> v)" and "map_of rest k = None"
proof -
  have "mset (HT_entries ht) = mset ((k, v) # rest)"
    using assms(2) by simp
  moreover have "distinct (map fst (HT_entries ht))"
    using assms(1) by (simp add: ht_wf_def)
  ultimately have "map_of (HT_entries ht) = map_of ((k, v) # rest)"
    and "distinct (map fst ((k, v) # rest))"
    using map_of_mset_eq distinct_fst_mset_eq by blast+
  then show "HT_Get ht = (map_of rest)(k \<mapsto> v)" and "map_of rest k = None"
    using HT_Get_map_of [OF assms(1)] by (simp_all add: map_of_eq_None_iff)
qed

lemma HT_Get_Assign:
  assumes "ht_wf ht"
  shows "HT_Get (HT_Assign k v ht) = (if HT_Get ht k = None then HT_Get ht else (HT_Get ht)(k \<mapsto> v))"
proof (cases "HT_Get ht k")
  case None
  then show ?thesis using assms by (simp add: HT_Assign_absent)
next
  case (Some old)
  obtain rest where ms: "mset (HT_entries ht) = add_mset (k, old) (mset rest)"
      "mset (HT_entries (HT_Assign k v ht)) = add_mset (k, v) (mset rest)"
    and wf': "ht_wf (HT_Assign k v ht)"
    using HT_Set_update_facts [OF assms Some, of v] by metis
  show ?thesis
    using HT_Get_mset_Cons(1) [OF assms ms(1)] HT_Get_mset_Cons(1) [OF wf' ms(2)]
    by (simp add: Some)
qed

lemma HT_Set_result:
  assumes "ht_inv ht"
  shows "fst (HT_Set k v ht) = (HT_Get ht k \<noteq> None)"
    and "HT_Get (snd (HT_Set k v ht)) = (HT_Get ht)(k \<mapsto> v)"
proof -
  note wf = ht_inv_wf [OF assms]
  have "fst (HT_Set k v ht) = (HT_Get ht k \<noteq> None) \<and> HT_Get (snd (HT_Set k v ht)) = (HT_Get ht)(k \<mapsto> v)"
  proof (cases "HT_Get ht k")
    case None
    note ins = HT_Set_insert_facts [OF assms None, of v]
    have "HT_Get (snd (HT_Set k v ht)) = (map_of (HT_entries ht))(k \<mapsto> v)"
      using HT_Get_mset_Cons(1) [OF ht_inv_wf [OF ins(3)] ins(2)] .
    then show ?thesis using ins(1) None by (simp add: HT_Get_map_of [OF wf])
  next
    case (Some old)
    then have "HT_Set k v ht = (True, HT_Assign k v ht)"
      using HT_Set_update_facts [OF wf Some, of v] by metis
    then show ?thesis using Some HT_Get_Assign [OF wf, of k v] by simp
  qed
  then show "fst (HT_Set k v ht) = (HT_Get ht k \<noteq> None)"
    and "HT_Get (snd (HT_Set k v ht)) = (HT_Get ht)(k \<mapsto> v)" by auto
qed

lemma HT_Delete_result:
  assumes "ht_inv ht"
  shows "fst (HT_Delete k ht) = (HT_Get ht k \<noteq> None)"
    and "HT_Get (snd (HT_Delete k ht)) = (HT_Get ht)(k := None)"
    and "ht_inv (snd (HT_Delete k ht))"
proof -
  note wf = ht_inv_wf [OF assms]
  have "fst (HT_Delete k ht) = (HT_Get ht k \<noteq> None) \<and> HT_Get (snd (HT_Delete k ht)) = (HT_Get ht)(k := None)
    \<and> ht_inv (snd (HT_Delete k ht))"
  proof (cases "HT_Get ht k")
    case None
    then show ?thesis using HT_Delete_absent [OF wf] assms by (simp add: fun_upd_idem)
  next
    case (Some old)
    note del = HT_Delete_present_facts [OF assms Some]
    have "HT_Get ht = (map_of (HT_entries (snd (HT_Delete k ht))))(k \<mapsto> old)"
      and "map_of (HT_entries (snd (HT_Delete k ht))) k = None"
      using HT_Get_mset_Cons [OF wf del(2)] .
    then show ?thesis
      using del Some HT_Get_map_of [OF ht_inv_wf [OF del(3)]] by (simp add: fun_upd_idem)
  qed
  then show "fst (HT_Delete k ht) = (HT_Get ht k \<noteq> None)"
    and "HT_Get (snd (HT_Delete k ht)) = (HT_Get ht)(k := None)"
    and "ht_inv (snd (HT_Delete k ht))" by auto
qed

interpretation ht: keyed_table
  HT_new HT_Get HT_Set HT_Assign HT_Delete HT_Clear HT_entries HT_Len ht_inv
proof unfold_locales
  fix t :: "'v hash_table" and k v
  show "ht_inv HT_new" by (rule HT_new_inv)
  show "ht_inv (HT_Clear t)" by (rule HT_Clear_inv)
  show "HT_Get HT_new = (Map.empty :: string \<Rightarrow> 'v option)"
    by (simp add: HT_Get_map_of [OF ht_inv_wf [OF HT_new_inv]] HT_entries_Nil)
  show "HT_Get (HT_Clear t) = Map.empty"
    by (simp add: HT_Get_map_of [OF ht_inv_wf [OF HT_Clear_inv]] HT_entries_Nil)
  assume inv: "ht_inv t"
  show "ht_inv (snd (HT_Set k v t))" "ht_inv (HT_Assign k v t)" "ht_inv (snd (HT_Delete k t))"
    using inv by (simp_all add: HT_Set_inv HT_Assign_inv HT_Delete_result)
  show "HT_Get (snd (HT_Set k v t)) = (HT_Get t)(k \<mapsto> v)"
    "fst (HT_Set k v t) = (HT_Get t k \<noteq> None)"
    "HT_Get (snd (HT_Delete k t)) = (HT_Get t)(k := None)"
    "fst (HT_Delete k t) = (HT_Get t k \<noteq> None)"
    using HT_Set_result [OF inv] HT_Delete_result [OF inv] by simp_all
  show "HT_Get (HT_Assign k v t) = (if HT_Get t k = None then HT_Get t else (HT_Get t)(k \<mapsto> v))"
    by (rule HT_Get_Assign [OF ht_inv_wf [OF inv]])
  show "map_of (HT_entries t) = HT_Get t" "distinct (map fst (HT_entries t))"
    "HT_Len t = length (HT_entries t)"
    using inv HT_Get_map_of [OF ht_inv_wf [OF inv]] by (simp_all add: ht_inv_def ht_wf_def HT_Len_def)
qed

lemmas ht_gets [table_simps] = ht.gets ht.put_found ht.del_found
lemmas ht_invars [table_simps, inv_intros] = ht.invars

lemma HT_ForEach_fold: "HT_ForEach fn ht st = fold (\<lambda>(k, v). fn k v) (HT_entries ht) st"
  by (simp add: HT_ForEach_def fold_fold_concat HT_entries_def)

lemma HT_Keys_entries: "HT_Keys ht = map fst (HT_entries ht)"
  by (simp add: HT_Keys_def HT_entries_def map_concat)

lemma table_step_inv: "ht_inv ht \<Longrightarrow> ht_inv (table_step op ht)"
  by (cases op) (simp_all add: table_simps)

lemma table_step_refines: "ht_inv ht \<Longrightarrow> HT_Get (table_step op ht) = map_step op (HT_Get ht)"
  by (cases op) (simp_all add: table_simps)

lemma table_run:
  "ht_inv ht \<Longrightarrow> ht_inv (fold table_step ops ht)
     \<and> HT_Get (fold table_step ops ht) = fold map_step ops (HT_Get ht)"
  by (induction ops arbitrary: ht) (simp_all add: table_step_inv table_step_refines)

section \<open>Sampling\<close>

lemma sample_loop_facts:
  assumes "set out \<subseteq> set (HT_entries ht)" and "length out \<le> n" and "0 < length (buckets ht)"
  shows "set (sample_loop left draw n ht i out) \<subseteq> set (HT_entries ht)
    \<and> length (sample_loop left draw n ht i out) \<le> n
    \<and> length out \<le> length (sample_loop left draw n ht i out)"
  using assms
proof (induction left arbitrary: i out)
  case (Suc left)
  let ?j = "draw i mod length (buckets ht)"
  show ?case
  proof (cases "length out < n")
    case True
    show ?thesis
    proof (cases "buckets ht ! ?j")
      case Nil
      then show ?thesis using Suc True by simp
    next
      case (Cons node rest)
      have "?j < length (buckets ht)" using Suc.prems(3) by simp
      then have "buckets ht ! ?j \<in> set (buckets ht)" by (rule nth_mem)
      then have "node \<in> set (HT_entries ht)"
        unfolding HT_entries_def set_concat using Cons by (metis UN_iff list.set_intros(1))
      then show ?thesis
        using Suc.IH [of "out @ [node]" "i + 1"] Suc.prems True Cons by simp
    qed
  qed (use Suc.prems in simp)
qed simp

lemma SampleKeys_entries:
  assumes "ht_inv ht" and "(k, v) \<in> set (SampleKeys draw n ht)"
  shows "HT_Get ht k = Some v"
  using assms sample_loop_facts [of "[]" ht n "n * 20" draw 0] ht_wf_pos [OF ht_inv_wf [OF assms(1)]]
  by (auto simp: SampleKeys_def ht.in_entries_iff split: if_splits)

lemma sample_loop_all_empty:
  "(\<And>i. buckets ht ! (draw i mod length (buckets ht)) = []) \<Longrightarrow> sample_loop left draw n ht j out = out"
  by (induction left arbitrary: j) auto

section \<open>Properties\<close>

text \<open>
  C6: Any sequence of Set, Delete and Clear calls on a new table leaves it holding exactly
  the finite map those calls describe: Get agrees with the map on every key and Len is the
  number of its keys, through every growth and shrink of the bucket array on the way.
\<close>

theorem hash_table_refines_map:
  "HT_Get (fold table_step ops HT_new) = fold map_step ops Map.empty
   \<and> HT_Len (fold table_step ops HT_new) = card (dom (fold map_step ops Map.empty))"
  using table_run [OF HT_new_inv, of ops] by (simp add: ht.get_new ht.len_card)

text \<open>
  After any sequence of calls the capacity is a power of two of at least 16, every key is
  stored in bucket \<open>hash mod capacity\<close> (the mask computes the modulus), no chain holds a key
  twice, the load factor is at most 3/4, and beyond the initial capacity it is at least 3/16.
\<close>

theorem hash_table_run_wellformed:
  fixes ops :: "'v table_op list"
  defines "ht \<equiv> fold table_step ops HT_new"
  shows "pow2_capacity (length (buckets ht))
    \<and> (\<forall>key. BucketIndex ht key = unat (HashKey key) mod length (buckets ht))
    \<and> slots_ok (buckets ht) \<and> distinct (map fst (concat (buckets ht)))
    \<and> 4 * num_entries ht \<le> 3 * length (buckets ht)
    \<and> (length (buckets ht) = kInitialCapacity \<or> 3 * length (buckets ht) \<le> 16 * num_entries ht)"
proof -
  have "ht_inv ht" using table_run [OF HT_new_inv, of ops] by (simp add: ht_def)
  then show ?thesis
    unfolding ht_inv_def ht_wf_def ht_balanced_def BucketIndex_def HT_entries_def
    using bucket_slot_mod by blast
qed

text \<open>
  Set and Delete report correctly: Set returns true exactly when it updated an existing
  key, Delete exactly when it removed one, and neither disturbs any other key.
\<close>

theorem hash_table_set_delete:
  assumes "ht_inv ht"
  shows "fst (HT_Set k v ht) = (HT_Get ht k \<noteq> None)
    \<and> HT_Get (snd (HT_Set k v ht)) = (HT_Get ht)(k \<mapsto> v)
    \<and> fst (HT_Delete k ht) = (HT_Get ht k \<noteq> None)
    \<and> HT_Get (snd (HT_Delete k ht)) = (HT_Get ht)(k := None)
    \<and> ht_inv (snd (HT_Set k v ht)) \<and> ht_inv (snd (HT_Delete k ht))"
  using assms by (simp add: table_simps)

theorem hash_table_set_delete_witness:
  "ht_inv (snd (HT_Set ''k'' (7::nat) HT_new))
   \<and> HT_Get (snd (HT_Delete ''k'' (snd (HT_Set ''k'' (7::nat) HT_new)))) ''k'' = None
   \<and> fst (HT_Delete ''k'' (snd (HT_Set ''k'' (7::nat) HT_new)))"
  using hash_table_set_delete [OF HT_new_inv, of "''k''" "7::nat"]
    hash_table_set_delete [of "snd (HT_Set ''k'' (7::nat) HT_new)" "''k''" 8]
  by (simp add: ht.get_new)

text \<open>
  Keys enumerates every key of the table exactly once, and ForEach visits every stored
  pair exactly once (stated for the traversal that collects what it sees).
\<close>

theorem hash_table_traversal:
  assumes "ht_inv ht"
  shows "distinct (HT_Keys ht) \<and> set (HT_Keys ht) = dom (HT_Get ht)
    \<and> HT_ForEach (\<lambda>k v acc. acc @ [(k, v)]) ht [] = HT_entries ht
    \<and> distinct (HT_entries ht) \<and> (\<forall>k v. (k, v) \<in> set (HT_entries ht) \<longleftrightarrow> HT_Get ht k = Some v)"
proof -
  have "fold (\<lambda>(k, v) acc. acc @ [(k, v)]) es acc = acc @ es" for es acc :: "(string \<times> 'a) list"
    by (induction es arbitrary: acc) auto
  then show ?thesis
    using ht.distinct_entries [OF assms] ht.keys_entries [OF assms] ht.in_entries_iff [OF assms]
    by (auto simp: HT_Keys_entries HT_ForEach_fold distinct_map)
qed

theorem hash_table_traversal_witness:
  "ht_inv (snd (HT_Set ''a'' (1::nat) HT_new)) \<and> HT_Keys (snd (HT_Set ''a'' (1::nat) HT_new)) = [''a'']"
proof -
  have inv: "ht_inv (snd (HT_Set ''a'' (1::nat) HT_new))"
    by (simp add: table_simps)
  have "set (HT_Keys (snd (HT_Set ''a'' (1::nat) HT_new))) = {''a''}"
    and "distinct (HT_Keys (snd (HT_Set ''a'' (1::nat) HT_new)))"
    using hash_table_traversal [OF inv] by (simp_all add: table_simps)
  then show ?thesis
    using inv by (simp add: distinct_set_singleton)
qed

text \<open>
  SampleKeys returns at most the requested number of entries, and each returned pair is
  a key of the table with the value stored under it.
\<close>

theorem sample_keys_sound:
  assumes "ht_inv ht"
  shows "length (SampleKeys draw n ht) \<le> n
    \<and> (\<forall>(k, v) \<in> set (SampleKeys draw n ht). HT_Get ht k = Some v)"
  using assms sample_loop_facts [of "[]" ht n "n * 20" draw 0] ht_wf_pos [OF ht_inv_wf [OF assms]]
  by (auto simp: SampleKeys_def ht.in_entries_iff)

theorem sample_keys_sound_witness:
  "ht_inv (snd (HT_Set ''a'' (1::nat) HT_new))
   \<and> length (SampleKeys (\<lambda>i. i) 5 (snd (HT_Set ''a'' (1::nat) HT_new))) \<le> 5"
proof -
  have inv: "ht_inv (snd (HT_Set ''a'' (1::nat) HT_new))"
    by (simp add: table_simps)
  then show ?thesis using sample_keys_sound [OF inv, of "\<lambda>i. i" 5] by simp
qed

end
