(* ===== verification/Store.thy ===== *)
theory Store
  imports HashTable
begin

text \<open>
  The storage engine: \<^verbatim>\<open>src/src/store/value.h\<close>, \<^verbatim>\<open>src/src/store/store.h\<close> and
  \<^verbatim>\<open>src/src/store/store.cpp\<close>. The state of a \<^verbatim>\<open>Store\<close> is the record \<open>store\<close>; every
  public and private method that touches it is one definition, taking the state and
  returning the new one together with the method's result.

  What a call reads from its surroundings is a parameter, the record \<open>env\<close>: \<open>clk i\<close> is the
  steady clock at the \<open>i\<close>-th point of the call where the code may read it, \<open>wall i\<close> the same
  for the system clock (both in nanoseconds, the tick of the two clocks in libstdc++), and
  \<open>rnd i\<close> the random draws of the \<open>i\<close>-th sample an eviction takes.

  A critical section (the code between taking \<^verbatim>\<open>mu_\<close> and releasing it) is atomic in the
  model. A method with two sections, a scan under the shared lock and
  \<^verbatim>\<open>DeleteIfExpired\<close> under the exclusive one, is the composition of the two; their
  interleaving with other threads is the subject of the theory on interleavings.

  A pointer into the table (the \<^verbatim>\<open>Value*\<close> that \<^verbatim>\<open>Get\<close> returns) is named by its key: reading
  through it is \<open>HT_Get\<close>, writing through it \<open>HT_Assign\<close>.
\<close>

section \<open>Values and results\<close>

datatype value_type = KString | KList | KHash

record stored_value =
  vtype :: value_type
  str_value :: string
  list_value :: "string list"
  hash_value :: "string hash_table"
  expires_at :: "int option"
  last_accessed_seq :: u64

definition new_value :: stored_value where
  "new_value = \<lparr>vtype = KString, str_value = [], list_value = [], hash_value = HT_new,
                expires_at = None, last_accessed_seq = 0\<rparr>"

datatype store_error = KNone | KWrongType

record 'a result =
  res_value :: "'a option"
  res_error :: store_error

definition Ok :: "'a result \<Rightarrow> bool" where
  "Ok r \<longleftrightarrow> res_error r = KNone"

abbreviation found :: "'a \<Rightarrow> 'a result" where
  "found x \<equiv> \<lparr>res_value = Some x, res_error = KNone\<rparr>"

abbreviation not_found :: "'a result" where
  "not_found \<equiv> \<lparr>res_value = None, res_error = KNone\<rparr>"

abbreviation wrong_type :: "'a result" where
  "wrong_type \<equiv> \<lparr>res_value = None, res_error = KWrongType\<rparr>"

record snapshot_entry =
  se_key :: string
  se_type :: value_type
  se_str :: string
  se_list :: "string list"
  se_hash :: "(string \<times> string) list"
  se_expires_at_wall :: "int option"

section \<open>The store\<close>

record store =
  data :: "stored_value hash_table"
  access_clock :: u64
  max_memory_bytes :: u64
  used_memory_bytes :: u64

record env =
  clk :: "nat \<Rightarrow> int"
  wall :: "nat \<Rightarrow> int"
  rnd :: "nat \<Rightarrow> nat \<Rightarrow> nat"

definition new_store :: store where
  "new_store = \<lparr>data = HT_new, access_clock = 0, max_memory_bytes = 0, used_memory_bytes = 0\<rparr>"

definition kSampleSize :: nat where
  "kSampleSize = 5"

definition kPerEntryOverheadBytes :: u64 where
  "kPerEntryOverheadBytes = 48"

definition kPerListElementOverheadBytes :: u64 where
  "kPerListElementOverheadBytes = 16"

definition kPerHashFieldOverheadBytes :: u64 where
  "kPerHashFieldOverheadBytes = 16"

definition size_of :: "string \<Rightarrow> u64" where
  "size_of s = of_nat (length s)"

definition EstimateEntryBytes :: "string \<Rightarrow> stored_value \<Rightarrow> u64" where
  "EstimateEntryBytes key v =
     (let bytes = size_of key + kPerEntryOverheadBytes in
      case vtype v of
        KString \<Rightarrow> bytes + size_of (str_value v)
      | KList \<Rightarrow> fold (\<lambda>elem b. b + (size_of elem + kPerListElementOverheadBytes)) (list_value v) bytes
      | KHash \<Rightarrow> HT_ForEach
          (\<lambda>field val b. b + (size_of field + size_of val + kPerHashFieldOverheadBytes))
          (hash_value v) bytes)"

definition NormalizeIndex :: "int \<Rightarrow> int \<Rightarrow> int" where
  "NormalizeIndex index n = (if index < 0 then wrap32 (n + index) else index)"

definition int_of_size :: "nat \<Rightarrow> int" where
  "int_of_size n = wrap32 (int n)"

definition IsExpired :: "int \<Rightarrow> stored_value \<Rightarrow> bool" where
  "IsExpired now v = (case expires_at v of None \<Rightarrow> False | Some t \<Rightarrow> t \<le> now)"

text \<open>The accounting steps that the methods repeat around a change of an entry.\<close>

definition remove_entry :: "string \<Rightarrow> stored_value \<Rightarrow> store \<Rightarrow> store" where
  "remove_entry key v s =
     s\<lparr>used_memory_bytes := used_memory_bytes s - EstimateEntryBytes key v,
       data := snd (HT_Delete key (data s))\<rparr>"

definition recount :: "string \<Rightarrow> u64 \<Rightarrow> store \<Rightarrow> store" where
  "recount key before s =
     (case HT_Get (data s) key of
        None \<Rightarrow> s
      | Some v \<Rightarrow> s\<lparr>used_memory_bytes := used_memory_bytes s - before + EstimateEntryBytes key v\<rparr>)"

definition Touch :: "string \<Rightarrow> store \<Rightarrow> store" where
  "Touch key s =
     (case HT_Get (data s) key of
        None \<Rightarrow> s
      | Some v \<Rightarrow> s\<lparr>data := HT_Assign key (v\<lparr>last_accessed_seq := access_clock s\<rparr>) (data s),
                     access_clock := access_clock s + 1\<rparr>)"

definition write_value :: "string \<Rightarrow> stored_value \<Rightarrow> store \<Rightarrow> store" where
  "write_value key v s = s\<lparr>data := HT_Assign key v (data s)\<rparr>"

section \<open>Expiry\<close>

definition DeleteIfExpired :: "int \<Rightarrow> string \<Rightarrow> store \<Rightarrow> bool \<times> store" where
  "DeleteIfExpired now key s =
     (case HT_Get (data s) key of
        None \<Rightarrow> (False, s)
      | Some v \<Rightarrow> if IsExpired now v then (True, remove_entry key v s) else (False, s))"

text \<open>The two critical sections of \<^verbatim>\<open>SweepExpired\<close>: the scan and the deletions.\<close>

fun expired_entries :: "(nat \<Rightarrow> int) \<Rightarrow> (string \<times> stored_value) list \<Rightarrow> string list" where
  "expired_entries now [] = []"
| "expired_entries now ((key, v) # rest) =
     (if IsExpired (now 0) v then key # expired_entries (\<lambda>i. now (Suc i)) rest
      else expired_entries (\<lambda>i. now (Suc i)) rest)"

definition SweepScan :: "(nat \<Rightarrow> int) \<Rightarrow> store \<Rightarrow> string list" where
  "SweepScan now s = expired_entries now (HT_entries (data s))"

fun SweepDelete :: "(nat \<Rightarrow> int) \<Rightarrow> string list \<Rightarrow> store \<Rightarrow> store" where
  "SweepDelete now [] s = s"
| "SweepDelete now (key # keys) s =
     SweepDelete (\<lambda>i. now (Suc i)) keys (snd (DeleteIfExpired (now 0) key s))"

definition SweepExpired :: "env \<Rightarrow> store \<Rightarrow> store" where
  "SweepExpired e s =
     (let expired = SweepScan (clk e) s in
      if expired = [] then s
      else SweepDelete (\<lambda>i. clk e (HT_Len (data s) + i)) expired s)"

section \<open>Eviction\<close>

fun pick_victim :: "string \<times> stored_value \<Rightarrow> (string \<times> stored_value) list \<Rightarrow> string \<times> stored_value" where
  "pick_victim oldest [] = oldest"
| "pick_victim oldest (candidate # sample) =
     pick_victim (if last_accessed_seq (snd candidate) < last_accessed_seq (snd oldest)
                  then candidate else oldest) sample"

fun evict_loop :: "nat \<Rightarrow> (nat \<Rightarrow> nat \<Rightarrow> nat) \<Rightarrow> store \<Rightarrow> store option" where
  "evict_loop 0 draws s = None"
| "evict_loop (Suc fuel) draws s =
     (if used_memory_bytes s > max_memory_bytes s \<and> HT_Len (data s) > 0 then
        (case SampleKeys (draws 0) kSampleSize (data s) of
           [] \<Rightarrow> Some s
         | candidate # sample \<Rightarrow>
             (let victim = pick_victim candidate sample in
              evict_loop fuel (\<lambda>i. draws (Suc i)) (remove_entry (fst victim) (snd victim) s)))
      else Some s)"

definition EvictIfOverBudget :: "(nat \<Rightarrow> nat \<Rightarrow> nat) \<Rightarrow> store \<Rightarrow> store" where
  "EvictIfOverBudget draws s =
     (if max_memory_bytes s = 0 then s
      else case evict_loop (Suc (HT_Len (data s))) draws s of None \<Rightarrow> s | Some s' \<Rightarrow> s')"

definition SetMaxMemory :: "env \<Rightarrow> u64 \<Rightarrow> store \<Rightarrow> store" where
  "SetMaxMemory e budget s = EvictIfOverBudget (rnd e) (s\<lparr>max_memory_bytes := budget\<rparr>)"

definition UsedMemory :: "store \<Rightarrow> u64" where
  "UsedMemory s = used_memory_bytes s"

section \<open>Keys and strings\<close>

definition Store_Set :: "env \<Rightarrow> string \<Rightarrow> string \<Rightarrow> store \<Rightarrow> store" where
  "Store_Set e key val s =
     (let before = (case HT_Get (data s) key of None \<Rightarrow> 0 | Some v \<Rightarrow> EstimateEntryBytes key v);
          v = new_value\<lparr>vtype := KString, str_value := val\<rparr>;
          s1 = s\<lparr>data := snd (HT_Set key v (data s))\<rparr>
      in EvictIfOverBudget (rnd e) (Touch key (recount key before s1)))"

text \<open>
  The shape that all single-key reads share: look the key up under the shared lock; absent,
  answer \<open>missing\<close>; live, check the type, touch the entry and answer from it; expired, escalate
  to \<open>DeleteIfExpired\<close> and answer \<open>missing\<close>.
\<close>

definition read_typed :: "env \<Rightarrow> value_type \<Rightarrow> 'a result \<Rightarrow> (stored_value \<Rightarrow> 'a result) \<Rightarrow>
    string \<Rightarrow> store \<Rightarrow> 'a result \<times> store" where
  "read_typed e ty missing answer key s =
     (case HT_Get (data s) key of
        None \<Rightarrow> (missing, s)
      | Some v \<Rightarrow>
          if \<not> IsExpired (clk e 0) v then
            (if vtype v \<noteq> ty then (wrong_type, s) else (answer v, Touch key s))
          else (missing, snd (DeleteIfExpired (clk e 1) key s)))"

definition Store_Get :: "env \<Rightarrow> string \<Rightarrow> store \<Rightarrow> string result \<times> store" where
  "Store_Get e key s = read_typed e KString not_found (\<lambda>v. found (str_value v)) key s"

fun del_loop :: "(nat \<Rightarrow> int) \<Rightarrow> string list \<Rightarrow> int \<Rightarrow> store \<Rightarrow> int \<times> store" where
  "del_loop now [] removed s = (removed, s)"
| "del_loop now (key # keys) removed s =
     (case HT_Get (data s) key of
        None \<Rightarrow> del_loop (\<lambda>i. now (Suc i)) keys removed s
      | Some v \<Rightarrow>
          del_loop (\<lambda>i. now (Suc i)) keys
            (if IsExpired (now 0) v then removed else removed + 1) (remove_entry key v s))"

definition Store_Del :: "env \<Rightarrow> string list \<Rightarrow> store \<Rightarrow> int \<times> store" where
  "Store_Del e keys s = del_loop (clk e) keys 0 s"

fun exists_scan :: "(nat \<Rightarrow> int) \<Rightarrow> string list \<Rightarrow> store \<Rightarrow> int \<times> string list" where
  "exists_scan now [] s = (0, [])"
| "exists_scan now (key # keys) s =
     (let (n, expired_keys) = exists_scan (\<lambda>i. now (Suc i)) keys s in
      case HT_Get (data s) key of
        None \<Rightarrow> (n, expired_keys)
      | Some v \<Rightarrow> if IsExpired (now 0) v then (n, key # expired_keys) else (n + 1, expired_keys))"

definition Store_Exists :: "env \<Rightarrow> string list \<Rightarrow> store \<Rightarrow> int \<times> store" where
  "Store_Exists e keys s =
     (let (n, expired_keys) = exists_scan (clk e) keys s
      in (n, SweepDelete (\<lambda>i. clk e (length keys + i)) expired_keys s))"

fun live_entries :: "(nat \<Rightarrow> int) \<Rightarrow> (string \<times> stored_value) list \<Rightarrow> string list" where
  "live_entries now [] = []"
| "live_entries now ((key, v) # rest) =
     (if IsExpired (now 0) v then live_entries (\<lambda>i. now (Suc i)) rest
      else key # live_entries (\<lambda>i. now (Suc i)) rest)"

definition Store_Keys :: "env \<Rightarrow> store \<Rightarrow> string list \<times> store" where
  "Store_Keys e s =
     (let live_keys = live_entries (clk e) (HT_entries (data s));
          expired_keys = expired_entries (clk e) (HT_entries (data s))
      in (live_keys, SweepDelete (\<lambda>i. clk e (HT_Len (data s) + i)) expired_keys s))"

definition FlushAll :: "store \<Rightarrow> store" where
  "FlushAll s = s\<lparr>data := HT_Clear (data s), used_memory_bytes := 0\<rparr>"

definition ns_per_second :: int where
  "ns_per_second = 1000000000"

definition ns_per_ms :: int where
  "ns_per_ms = 1000000"

definition Expire :: "env \<Rightarrow> string \<Rightarrow> int \<Rightarrow> store \<Rightarrow> bool \<times> store" where
  "Expire e key seconds s =
     (case HT_Get (data s) key of
        None \<Rightarrow> (False, s)
      | Some v \<Rightarrow>
          if IsExpired (clk e 0) v then (False, remove_entry key v s)
          else if seconds \<le> 0 then (True, remove_entry key v s)
          else (True, write_value key
                  (v\<lparr>expires_at := Some (wrap64 (clk e 1 + wrap64 (seconds * ns_per_second)))\<rparr>) s))"

definition TTL :: "env \<Rightarrow> string \<Rightarrow> store \<Rightarrow> int \<times> store" where
  "TTL e key s =
     (case HT_Get (data s) key of
        None \<Rightarrow> (-2, s)
      | Some v \<Rightarrow>
          if \<not> IsExpired (clk e 0) v then
            (case expires_at v of
               None \<Rightarrow> (-1, s)
             | Some t \<Rightarrow>
                 (let remaining_ms = wrap64 (t - clk e 1) sdiv ns_per_ms
                  in ((remaining_ms + 500) sdiv 1000, s)))
          else (-2, snd (DeleteIfExpired (clk e 1) key s)))"

section \<open>Lists and hashes\<close>

text \<open>
  \<open>get_or_create\<close> is the common body of \<^verbatim>\<open>GetOrCreateList\<close> and \<^verbatim>\<open>GetOrCreateHash\<close>; on
  \<open>KNone\<close> the entry of \<open>key\<close> is the value the returned pointer points to.
\<close>

definition get_or_create :: "value_type \<Rightarrow> int \<Rightarrow> string \<Rightarrow> store \<Rightarrow> store_error \<times> store" where
  "get_or_create ty now key s =
     (let s0 = (case HT_Get (data s) key of
                  None \<Rightarrow> s
                | Some v \<Rightarrow> if IsExpired now v then remove_entry key v s else s)
      in case HT_Get (data s0) key of
           None \<Rightarrow>
             (let s1 = s0\<lparr>data := snd (HT_Set key (new_value\<lparr>vtype := ty\<rparr>) (data s0))\<rparr>
              in (KNone, Touch key (recount key 0 s1)))
         | Some v \<Rightarrow> if vtype v \<noteq> ty then (KWrongType, s0) else (KNone, s0))"

definition GetOrCreateList :: "int \<Rightarrow> string \<Rightarrow> store \<Rightarrow> store_error \<times> store" where
  "GetOrCreateList now key s = get_or_create KList now key s"

definition GetOrCreateHash :: "int \<Rightarrow> string \<Rightarrow> store \<Rightarrow> store_error \<times> store" where
  "GetOrCreateHash now key s = get_or_create KHash now key s"

text \<open>Writing a changed value back through the pointer, with the accounting around it.\<close>

definition update_entry :: "string \<Rightarrow> stored_value \<Rightarrow> stored_value \<Rightarrow> store \<Rightarrow> store" where
  "update_entry key v v' s =
     Touch key (recount key (EstimateEntryBytes key v) (write_value key v' s))"

definition LPush :: "env \<Rightarrow> string \<Rightarrow> string list \<Rightarrow> store \<Rightarrow> int result \<times> store" where
  "LPush e key vals s =
     (case GetOrCreateList (clk e 0) key s of
        (KWrongType, s1) \<Rightarrow> (wrong_type, s1)
      | (KNone, s1) \<Rightarrow>
          (case HT_Get (data s1) key of
             None \<Rightarrow> (not_found, s1)
           | Some v \<Rightarrow>
               (let v' = v\<lparr>list_value := fold (#) vals (list_value v)\<rparr>
                in (found (int_of_size (length (list_value v'))),
                    EvictIfOverBudget (rnd e) (update_entry key v v' s1)))))"

definition RPush :: "env \<Rightarrow> string \<Rightarrow> string list \<Rightarrow> store \<Rightarrow> int result \<times> store" where
  "RPush e key vals s =
     (case GetOrCreateList (clk e 0) key s of
        (KWrongType, s1) \<Rightarrow> (wrong_type, s1)
      | (KNone, s1) \<Rightarrow>
          (case HT_Get (data s1) key of
             None \<Rightarrow> (not_found, s1)
           | Some v \<Rightarrow>
               (let v' = v\<lparr>list_value := list_value v @ vals\<rparr>
                in (found (int_of_size (length (list_value v'))),
                    EvictIfOverBudget (rnd e) (update_entry key v v' s1)))))"

definition LLen :: "env \<Rightarrow> string \<Rightarrow> store \<Rightarrow> int result \<times> store" where
  "LLen e key s =
     read_typed e KList (found 0) (\<lambda>v. found (int_of_size (length (list_value v)))) key s"

definition lrange_slice :: "int \<Rightarrow> int \<Rightarrow> string list \<Rightarrow> string list" where
  "lrange_slice start stop xs =
     (let n = int_of_size (length xs);
          norm_start = max (NormalizeIndex start n) 0;
          norm_stop = min (NormalizeIndex stop n) (wrap32 (n - 1))
      in if norm_start > norm_stop \<or> n = 0 then []
         else take (nat (norm_stop + 1 - norm_start)) (drop (nat norm_start) xs))"

definition LRange :: "env \<Rightarrow> string \<Rightarrow> int \<Rightarrow> int \<Rightarrow> store \<Rightarrow> string list result \<times> store" where
  "LRange e key start stop s =
     read_typed e KList (found []) (\<lambda>v. found (lrange_slice start stop (list_value v))) key s"

definition hset_field :: "string \<times> string \<Rightarrow> string hash_table \<times> int \<Rightarrow> string hash_table \<times> int" where
  "hset_field fv acc =
     (let (updated, h) = HT_Set (fst fv) (snd fv) (fst acc)
      in (h, if \<not> updated then snd acc + 1 else snd acc))"

definition HSet :: "env \<Rightarrow> string \<Rightarrow> (string \<times> string) list \<Rightarrow> store \<Rightarrow> int result \<times> store" where
  "HSet e key fvs s =
     (case GetOrCreateHash (clk e 0) key s of
        (KWrongType, s1) \<Rightarrow> (wrong_type, s1)
      | (KNone, s1) \<Rightarrow>
          (case HT_Get (data s1) key of
             None \<Rightarrow> (not_found, s1)
           | Some v \<Rightarrow>
               (let (h, added) = fold hset_field fvs (hash_value v, 0);
                    v' = v\<lparr>hash_value := h\<rparr>
                in (found added, EvictIfOverBudget (rnd e) (update_entry key v v' s1)))))"

definition HGet :: "env \<Rightarrow> string \<Rightarrow> string \<Rightarrow> store \<Rightarrow> string result \<times> store" where
  "HGet e key field s =
     read_typed e KHash not_found
       (\<lambda>v. case HT_Get (hash_value v) field of None \<Rightarrow> not_found | Some val \<Rightarrow> found val) key s"

definition hdel_field :: "string \<Rightarrow> string hash_table \<times> int \<Rightarrow> string hash_table \<times> int" where
  "hdel_field field acc =
     (let (deleted, h) = HT_Delete field (fst acc)
      in (h, if deleted then snd acc + 1 else snd acc))"

definition HDel :: "env \<Rightarrow> string \<Rightarrow> string list \<Rightarrow> store \<Rightarrow> int result \<times> store" where
  "HDel e key fs s =
     (case HT_Get (data s) key of
        None \<Rightarrow> (found 0, s)
      | Some v \<Rightarrow>
          if IsExpired (clk e 0) v then (found 0, remove_entry key v s)
          else if vtype v \<noteq> KHash then (wrong_type, s)
          else
            (let (h, removed) = fold hdel_field fs (hash_value v, 0);
                 v' = v\<lparr>hash_value := h\<rparr>
             in if HT_Len h = 0
                then (found removed, remove_entry key v (write_value key v' s))
                else (found removed, update_entry key v v' s)))"

definition HGetAll :: "env \<Rightarrow> string \<Rightarrow> store \<Rightarrow> (string \<times> string) list result \<times> store" where
  "HGetAll e key s =
     read_typed e KHash (found [])
       (\<lambda>v. found (HT_ForEach (\<lambda>field val out. out @ [(field, val)]) (hash_value v) [])) key s"

definition HLen :: "env \<Rightarrow> string \<Rightarrow> store \<Rightarrow> int result \<times> store" where
  "HLen e key s = read_typed e KHash (found 0) (\<lambda>v. found (int_of_size (HT_Len (hash_value v)))) key s"

definition HExists :: "env \<Rightarrow> string \<Rightarrow> string \<Rightarrow> store \<Rightarrow> int result \<times> store" where
  "HExists e key field s =
     read_typed e KHash (found 0)
       (\<lambda>v. found (if HT_Get (hash_value v) field \<noteq> None then 1 else 0)) key s"

definition HKeys :: "env \<Rightarrow> string \<Rightarrow> store \<Rightarrow> string list result \<times> store" where
  "HKeys e key s = read_typed e KHash (found []) (\<lambda>v. found (HT_Keys (hash_value v))) key s"

definition HVals :: "env \<Rightarrow> string \<Rightarrow> store \<Rightarrow> string list result \<times> store" where
  "HVals e key s =
     read_typed e KHash (found [])
       (\<lambda>v. found (HT_ForEach (\<lambda>field val out. out @ [val]) (hash_value v) [])) key s"

section \<open>Snapshots\<close>

definition snapshot_of :: "int \<Rightarrow> int \<Rightarrow> string \<Rightarrow> stored_value \<Rightarrow> snapshot_entry" where
  "snapshot_of steady_now wall_now key v =
     \<lparr>se_key = key, se_type = vtype v, se_str = str_value v, se_list = list_value v,
      se_hash = (if vtype v = KHash
                 then HT_ForEach (\<lambda>field val out. out @ [(field, val)]) (hash_value v) [] else []),
      se_expires_at_wall =
        (case expires_at v of
           None \<Rightarrow> None
         | Some t \<Rightarrow> Some (wrap64 (wall_now + wrap64 (t - steady_now) sdiv ns_per_ms * ns_per_ms)))\<rparr>"

fun snapshot_loop :: "(nat \<Rightarrow> int) \<Rightarrow> int \<Rightarrow> int \<Rightarrow> (string \<times> stored_value) list \<Rightarrow> snapshot_entry list" where
  "snapshot_loop now steady_now wall_now [] = []"
| "snapshot_loop now steady_now wall_now ((key, v) # rest) =
     (if IsExpired (now 0) v then snapshot_loop (\<lambda>i. now (Suc i)) steady_now wall_now rest
      else snapshot_of steady_now wall_now key v
           # snapshot_loop (\<lambda>i. now (Suc i)) steady_now wall_now rest)"

definition Snapshot :: "env \<Rightarrow> store \<Rightarrow> snapshot_entry list" where
  "Snapshot e s = snapshot_loop (\<lambda>i. clk e (Suc i)) (clk e 0) (wall e 0) (HT_entries (data s))"

definition value_of_snapshot :: "int \<Rightarrow> int \<Rightarrow> snapshot_entry \<Rightarrow> stored_value" where
  "value_of_snapshot steady_now wall_now entry =
     \<lparr>vtype = se_type entry, str_value = se_str entry, list_value = se_list entry,
      hash_value = (if se_type entry = KHash
                    then fold (\<lambda>(field, val) h. snd (HT_Set field val h)) (se_hash entry) HT_new
                    else HT_new),
      expires_at = (case se_expires_at_wall entry of
                      None \<Rightarrow> None
                    | Some t \<Rightarrow> Some (wrap64 (steady_now + wrap64 (t - wall_now)))),
      last_accessed_seq = 0\<rparr>"

definition load_entry :: "int \<Rightarrow> int \<Rightarrow> snapshot_entry \<Rightarrow> store \<Rightarrow> store" where
  "load_entry steady_now wall_now entry s =
     (if (case se_expires_at_wall entry of None \<Rightarrow> False | Some t \<Rightarrow> t \<le> wall_now) then s
      else
        (let key = se_key entry;
             s1 = s\<lparr>data := snd (HT_Set key (value_of_snapshot steady_now wall_now entry) (data s))\<rparr>
         in Touch key (recount key 0 s1)))"

definition LoadSnapshot :: "env \<Rightarrow> snapshot_entry list \<Rightarrow> store \<Rightarrow> store" where
  "LoadSnapshot e entries s =
     (let s0 = s\<lparr>data := HT_Clear (data s), used_memory_bytes := 0\<rparr>
      in EvictIfOverBudget (rnd e) (fold (load_entry (clk e 0) (wall e 0)) entries s0))"

end
