(* ===== verification/Store_Invariant.thy ===== *)
theory Store_Invariant
  imports Store
begin

text \<open>
  The invariant of the store and its preservation by every method: both levels of hash
  tables are well-formed and \<^verbatim>\<open>used_memory_bytes_\<close> is exactly the sum of the estimates of
  the entries in the table (as a 64-bit sum, so no bound on the contents is needed).
  The lemmas on the building blocks also say what each does to the table seen as a map.
\<close>

section \<open>The invariant\<close>

definition store_inv :: "store \<Rightarrow> bool" where
  "store_inv s \<longleftrightarrow> ht_inv (data s)
     \<and> (\<forall>k v. HT_Get (data s) k = Some v \<longrightarrow> ht_inv (hash_value v))
     \<and> used_memory_bytes s = entry_sum EstimateEntryBytes (HT_entries (data s))"

lemma store_invD:
  assumes "store_inv s"
  shows "ht_inv (data s)" and "HT_Get (data s) k = Some v \<Longrightarrow> ht_inv (hash_value v)"
    and "used_memory_bytes s = entry_sum EstimateEntryBytes (HT_entries (data s))"
  using assms by (auto simp: store_inv_def)

lemma store_inv_new: "store_inv new_store"
  by (simp add: store_inv_def new_store_def table_simps ht.sum_new)

lemma Estimate_frame [simp]:
  "EstimateEntryBytes key (v\<lparr>last_accessed_seq := q\<rparr>) = EstimateEntryBytes key v"
  "EstimateEntryBytes key (v\<lparr>expires_at := t\<rparr>) = EstimateEntryBytes key v"
  by (simp_all add: EstimateEntryBytes_def Let_def split: value_type.split)

section \<open>Building blocks\<close>

lemma remove_entry_fields [simp]:
  "max_memory_bytes (remove_entry k v s) = max_memory_bytes s"
  "access_clock (remove_entry k v s) = access_clock s"
  by (simp_all add: remove_entry_def)

lemma remove_entry_get [table_simps]:
  "ht_inv (data s) \<Longrightarrow> HT_Get (data (remove_entry k v s)) = (HT_Get (data s))(k := None)"
  by (simp add: remove_entry_def table_simps)

lemma remove_entry_inv [inv_intros]:
  "store_inv s \<Longrightarrow> HT_Get (data s) k = Some v \<Longrightarrow> store_inv (remove_entry k v s)"
  by (auto simp: store_inv_def remove_entry_def table_simps ht.sum_del split: if_splits)

lemma remove_entry_len:
  "ht_inv (data s) \<Longrightarrow> HT_Get (data s) k = Some v \<Longrightarrow>
     HT_Len (data (remove_entry k v s)) = HT_Len (data s) - 1"
  by (simp add: remove_entry_def ht.len_del)

lemma write_value_fields [simp]:
  "max_memory_bytes (write_value k v s) = max_memory_bytes s"
  "access_clock (write_value k v s) = access_clock s"
  "used_memory_bytes (write_value k v s) = used_memory_bytes s"
  by (simp_all add: write_value_def)

lemma write_value_get [table_simps]:
  "ht_inv (data s) \<Longrightarrow> HT_Get (data s) k = Some old \<Longrightarrow>
     HT_Get (data (write_value k v s)) = (HT_Get (data s))(k \<mapsto> v)"
  by (simp add: write_value_def table_simps)

lemma write_value_inv:
  assumes "store_inv s" and "HT_Get (data s) k = Some old" and "ht_inv (hash_value v)"
    and "EstimateEntryBytes k v = EstimateEntryBytes k old"
  shows "store_inv (write_value k v s)"
  using assms ht.sum_assign [of "data s" k old EstimateEntryBytes v]
  by (auto simp: store_inv_def write_value_def table_simps split: if_splits)

lemma Touch_fields [simp]:
  "max_memory_bytes (Touch k s) = max_memory_bytes s"
  "used_memory_bytes (Touch k s) = used_memory_bytes s"
  by (simp_all add: Touch_def split: option.split)

lemma Touch_get [table_simps]:
  "ht_inv (data s) \<Longrightarrow> HT_Get (data (Touch k s)) =
     (case HT_Get (data s) k of
        None \<Rightarrow> HT_Get (data s)
      | Some v \<Rightarrow> (HT_Get (data s))(k \<mapsto> v\<lparr>last_accessed_seq := access_clock s\<rparr>))"
  by (simp add: Touch_def table_simps split: option.split)

lemma Touch_inv [inv_intros]: "store_inv s \<Longrightarrow> store_inv (Touch k s)"
proof (cases "HT_Get (data s) k")
  case (Some v)
  assume inv: "store_inv s"
  have "Touch k s = (write_value k (v\<lparr>last_accessed_seq := access_clock s\<rparr>) s)\<lparr>access_clock := access_clock s + 1\<rparr>"
    by (simp add: Touch_def write_value_def Some)
  moreover have "store_inv (write_value k (v\<lparr>last_accessed_seq := access_clock s\<rparr>) s)"
    using inv Some store_invD(2) [OF inv Some] by (intro write_value_inv) auto
  ultimately show ?thesis by (simp add: store_inv_def)
qed (simp add: Touch_def)

lemma recount_fields [simp]:
  "max_memory_bytes (recount k b s) = max_memory_bytes s"
  "access_clock (recount k b s) = access_clock s"
  "data (recount k b s) = data s"
  by (simp_all add: recount_def split: option.split)

text \<open>Storing a value under a key and counting it, as the methods do.\<close>

lemma put_recount_inv:
  assumes inv: "store_inv s" and v: "ht_inv (hash_value v)"
    and before: "before = (case HT_Get (data s) k of None \<Rightarrow> 0 | Some old \<Rightarrow> EstimateEntryBytes k old)"
  shows "store_inv (recount k before (s\<lparr>data := snd (HT_Set k v (data s))\<rparr>))"
proof -
  have "HT_Get (snd (HT_Set k v (data s))) = (HT_Get (data s))(k \<mapsto> v)"
    using store_invD(1) [OF inv] by (simp add: table_simps)
  then show ?thesis
    using inv v ht.sum_put_fresh [of "data s" k EstimateEntryBytes v]
      ht.sum_put_present [of "data s" k _ EstimateEntryBytes v]
    by (cases "HT_Get (data s) k") (auto simp: store_inv_def recount_def before table_simps split: if_splits)
qed

lemma update_entry_fields [simp]: "max_memory_bytes (update_entry k v v' s) = max_memory_bytes s"
  by (simp add: update_entry_def)

lemma update_entry_get [table_simps]:
  assumes "ht_inv (data s)" and "HT_Get (data s) k = Some v"
  shows "HT_Get (data (update_entry k v v' s)) =
    (HT_Get (data s))(k \<mapsto> v'\<lparr>last_accessed_seq := access_clock s\<rparr>)"
  using assms by (simp add: update_entry_def table_simps write_value_def)

lemma update_entry_inv [inv_intros]:
  assumes inv: "store_inv s" and k: "HT_Get (data s) k = Some v" and v': "ht_inv (hash_value v')"
  shows "store_inv (update_entry k v v' s)"
proof -
  have "HT_Get (data (write_value k v' s)) = (HT_Get (data s))(k \<mapsto> v')"
    using store_invD(1) [OF inv] k by (simp add: table_simps)
  then have "store_inv (recount k (EstimateEntryBytes k v) (write_value k v' s))"
    using inv k v' ht.sum_assign [OF store_invD(1) [OF inv] k, of EstimateEntryBytes v']
    by (auto simp: store_inv_def recount_def write_value_def table_simps split: if_splits)
  then show ?thesis by (simp add: update_entry_def Touch_inv)
qed

lemma remove_written_inv:
  assumes inv: "store_inv s" and k: "HT_Get (data s) k = Some v"
  shows "store_inv (remove_entry k v (write_value k v' s))"
proof -
  let ?t = "HT_Assign k v' (data s)"
  note wf = store_invD(1) [OF inv]
  have g: "HT_Get ?t = (HT_Get (data s))(k \<mapsto> v')" and t: "ht_inv ?t"
    using wf k by (simp_all add: table_simps)
  have "entry_sum EstimateEntryBytes (HT_entries (snd (HT_Delete k ?t)))
      = entry_sum EstimateEntryBytes (HT_entries (data s)) - EstimateEntryBytes k v"
    using ht.sum_del [OF t, of k v' EstimateEntryBytes] ht.sum_assign [OF wf k, of EstimateEntryBytes v'] g
    by simp
  then show ?thesis
    using inv t g by (auto simp: store_inv_def remove_entry_def write_value_def table_simps split: if_splits)
qed

section \<open>Expiry\<close>

lemma DeleteIfExpired_fields [simp]:
  "max_memory_bytes (snd (DeleteIfExpired now k s)) = max_memory_bytes s"
  by (simp add: DeleteIfExpired_def split: option.split)

lemma DeleteIfExpired_inv [inv_intros]: "store_inv s \<Longrightarrow> store_inv (snd (DeleteIfExpired now k s))"
  by (auto simp: DeleteIfExpired_def remove_entry_inv split: option.split)

lemma DeleteIfExpired_get [table_simps]:
  "ht_inv (data s) \<Longrightarrow> HT_Get (data (snd (DeleteIfExpired now k s))) =
     (HT_Get (data s))(k := (case HT_Get (data s) k of
        None \<Rightarrow> None | Some v \<Rightarrow> if IsExpired now v then None else Some v))"
  by (auto simp: DeleteIfExpired_def remove_entry_get fun_upd_idem split: option.split)

lemma SweepDelete_inv [inv_intros]: "store_inv s \<Longrightarrow> store_inv (SweepDelete now keys s)"
  by (induction now keys s rule: SweepDelete.induct) (simp_all add: DeleteIfExpired_inv)

lemma SweepExpired_inv [inv_intros]: "store_inv s \<Longrightarrow> store_inv (SweepExpired e s)"
  by (simp add: SweepExpired_def Let_def SweepDelete_inv)

section \<open>Eviction\<close>

lemma pick_victim_in: "pick_victim c cs \<in> set (c # cs)"
  by (induction c cs rule: pick_victim.induct) auto

lemma pick_victim_least:
  "x \<in> set (c # cs) \<Longrightarrow> last_accessed_seq (snd (pick_victim c cs)) \<le> last_accessed_seq (snd x)"
proof (induction c cs arbitrary: x rule: pick_victim.induct)
  case (2 oldest candidate sample)
  let ?c = "if last_accessed_seq (snd candidate) < last_accessed_seq (snd oldest) then candidate else oldest"
  have "last_accessed_seq (snd (pick_victim ?c sample)) \<le> last_accessed_seq (snd ?c)"
    by (rule "2.IH") simp
  then show ?case
    using "2.prems" "2.IH" [of x] by (auto split: if_splits)
qed simp

text \<open>One round of the loop removes an entry of the table, so its length bounds the rounds.\<close>

lemma evict_victim:
  assumes "store_inv s" and "SampleKeys d n (data s) = c # cs"
  shows "HT_Get (data s) (fst (pick_victim c cs)) = Some (snd (pick_victim c cs))"
  using SampleKeys_entries [OF store_invD(1) [OF assms(1)], of "fst (pick_victim c cs)" "snd (pick_victim c cs)" d n]
    pick_victim_in [of c cs] assms(2) by simp

lemma evict_loop_facts:
  assumes "store_inv s" and "HT_Len (data s) < fuel"
  shows "\<exists>s'. evict_loop fuel draws s = Some s' \<and> store_inv s'
    \<and> HT_Get (data s') \<subseteq>\<^sub>m HT_Get (data s) \<and> max_memory_bytes s' = max_memory_bytes s
    \<and> access_clock s' = access_clock s
    \<and> (used_memory_bytes s' \<le> max_memory_bytes s' \<or> HT_Len (data s') = 0
        \<or> (\<exists>d. SampleKeys d kSampleSize (data s') = []))"
  using assms
proof (induction fuel arbitrary: s draws)
  case (Suc fuel)
  show ?case
  proof (cases "used_memory_bytes s > max_memory_bytes s \<and> HT_Len (data s) > 0")
    case True
    show ?thesis
    proof (cases "SampleKeys (draws 0) kSampleSize (data s)")
      case Nil
      then show ?thesis using Suc.prems True by auto
    next
      case (Cons c cs)
      let ?v = "pick_victim c cs"
      let ?s1 = "remove_entry (fst ?v) (snd ?v) s"
      have v: "HT_Get (data s) (fst ?v) = Some (snd ?v)"
        using evict_victim [OF Suc.prems(1) Cons] .
      note inv = store_invD(1) [OF Suc.prems(1)]
      have "store_inv ?s1" using Suc.prems(1) v by (rule remove_entry_inv)
      moreover have "HT_Len (data ?s1) < fuel"
        using remove_entry_len [OF inv v] Suc.prems(2) True by linarith
      moreover have "HT_Get (data ?s1) \<subseteq>\<^sub>m HT_Get (data s)"
        using inv by (auto simp: remove_entry_get map_le_def)
      ultimately show ?thesis
        using Suc.IH [of ?s1 "\<lambda>i. draws (Suc i)"] True Cons
        by (auto simp: Let_def intro: map_le_trans)
    qed
  next
    case False
    then show ?thesis using Suc.prems by (auto simp: not_less)
  qed
qed simp

lemma EvictIfOverBudget_facts:
  assumes "store_inv s"
  shows "store_inv (EvictIfOverBudget draws s)"
    and "HT_Get (data (EvictIfOverBudget draws s)) \<subseteq>\<^sub>m HT_Get (data s)"
    and "max_memory_bytes (EvictIfOverBudget draws s) = max_memory_bytes s"
    and "access_clock (EvictIfOverBudget draws s) = access_clock s"
  using evict_loop_facts [OF assms lessI, of draws] assms
  by (auto simp: EvictIfOverBudget_def)

lemma EvictIfOverBudget_unlimited: "max_memory_bytes s = 0 \<Longrightarrow> EvictIfOverBudget draws s = s"
  by (simp add: EvictIfOverBudget_def)

lemma EvictIfOverBudget_within:
  "used_memory_bytes s \<le> max_memory_bytes s \<Longrightarrow> EvictIfOverBudget draws s = s"
  by (simp add: EvictIfOverBudget_def leD)

lemmas EvictIfOverBudget_inv [inv_intros] = EvictIfOverBudget_facts(1)

section \<open>The methods of the class\<close>

lemma budget_frame [simp]: "store_inv (s\<lparr>max_memory_bytes := b\<rparr>) = store_inv s"
  by (simp add: store_inv_def)

lemma SetMaxMemory_inv [inv_intros]: "store_inv s \<Longrightarrow> store_inv (SetMaxMemory e b s)"
  by (simp add: SetMaxMemory_def EvictIfOverBudget_inv)

lemma new_value_hash [simp]: "ht_inv (hash_value new_value)"
  by (simp add: new_value_def table_simps)

lemma Store_Set_inv [inv_intros]: "store_inv s \<Longrightarrow> store_inv (Store_Set e k val s)"
  by (simp add: Store_Set_def Let_def EvictIfOverBudget_inv Touch_inv put_recount_inv)

lemma read_typed_inv: "store_inv s \<Longrightarrow> store_inv (snd (read_typed e ty m f k s))"
  by (simp add: read_typed_def Touch_inv DeleteIfExpired_inv split: option.split)

lemma read_methods_inv [inv_intros]:
  assumes "store_inv s"
  shows "store_inv (snd (Store_Get e k s))" "store_inv (snd (LLen e k s))"
    "store_inv (snd (LRange e k a b s))" "store_inv (snd (HGet e k f s))"
    "store_inv (snd (HGetAll e k s))" "store_inv (snd (HLen e k s))"
    "store_inv (snd (HExists e k f s))" "store_inv (snd (HKeys e k s))" "store_inv (snd (HVals e k s))"
  using assms
  by (simp_all add: Store_Get_def LLen_def LRange_def HGet_def HGetAll_def HLen_def HExists_def
      HKeys_def HVals_def read_typed_inv)

lemma del_loop_inv: "store_inv s \<Longrightarrow> store_inv (snd (del_loop now ks n s))"
  by (induction now ks n s rule: del_loop.induct) (simp_all add: remove_entry_inv split: option.split)

lemma keyspace_methods_inv [inv_intros]:
  assumes "store_inv s"
  shows "store_inv (snd (Store_Del e ks s))" "store_inv (snd (Store_Exists e ks s))"
    "store_inv (snd (Store_Keys e s))" "store_inv (FlushAll s)" "store_inv (snd (Expire e k n s))"
    "store_inv (snd (TTL e k s))"
proof -
  show "store_inv (snd (Store_Del e ks s))"
    using assms by (simp add: Store_Del_def del_loop_inv)
  show "store_inv (snd (Store_Exists e ks s))"
    using assms by (simp add: Store_Exists_def Let_def SweepDelete_inv split: prod.split)
  show "store_inv (snd (Store_Keys e s))"
    using assms by (simp add: Store_Keys_def Let_def SweepDelete_inv)
  show "store_inv (FlushAll s)"
    by (simp add: FlushAll_def store_inv_def table_simps ht.sum_clear)
  show "store_inv (snd (TTL e k s))"
    using assms by (simp add: TTL_def Let_def DeleteIfExpired_inv split: option.split)
  show "store_inv (snd (Expire e k n s))"
    using assms by (auto simp: Expire_def remove_entry_inv store_invD(2) intro!: write_value_inv split: option.split)
qed

text \<open>After \<open>get_or_create\<close> succeeds, the entry is present with the right type.\<close>

lemma get_or_create_facts:
  assumes inv: "store_inv s" and r: "get_or_create ty now k s = (err, s1)"
  shows "store_inv s1" and "max_memory_bytes s1 = max_memory_bytes s"
    and "err = KNone \<Longrightarrow> \<exists>v. HT_Get (data s1) k = Some v \<and> vtype v = ty \<and> ht_inv (hash_value v)"
proof -
  define s0 where "s0 = (case HT_Get (data s) k of None \<Rightarrow> s
      | Some v \<Rightarrow> if IsExpired now v then remove_entry k v s else s)"
  have inv0: "store_inv s0" "max_memory_bytes s0 = max_memory_bytes s"
    using inv by (auto simp: s0_def remove_entry_inv split: option.split)
  have r': "(case HT_Get (data s0) k of
       None \<Rightarrow> (KNone, Touch k (recount k 0 (s0\<lparr>data := snd (HT_Set k (new_value\<lparr>vtype := ty\<rparr>) (data s0))\<rparr>)))
     | Some v \<Rightarrow> if vtype v \<noteq> ty then (KWrongType, s0) else (KNone, s0)) = (err, s1)"
    using r unfolding get_or_create_def Let_def s0_def .
  have "store_inv s1 \<and> max_memory_bytes s1 = max_memory_bytes s
      \<and> (err = KNone \<longrightarrow> (\<exists>v. HT_Get (data s1) k = Some v \<and> vtype v = ty \<and> ht_inv (hash_value v)))"
  proof (cases "HT_Get (data s0) k")
    case None
    let ?s1 = "s0\<lparr>data := snd (HT_Set k (new_value\<lparr>vtype := ty\<rparr>) (data s0))\<rparr>"
    have "store_inv (recount k 0 ?s1)"
      by (rule put_recount_inv [OF inv0(1)]) (simp_all add: None)
    then show ?thesis
      using r' None inv0 store_invD(1) [OF inv0(1)]
      by (auto simp: Touch_inv Touch_get table_simps)
  next
    case (Some v)
    then show ?thesis using r' inv0 store_invD(2) [OF inv0(1)] by (auto split: if_splits)
  qed
  then show "store_inv s1" and "max_memory_bytes s1 = max_memory_bytes s"
    and "err = KNone \<Longrightarrow> \<exists>v. HT_Get (data s1) k = Some v \<and> vtype v = ty \<and> ht_inv (hash_value v)"
    by auto
qed

lemma hset_fields_inv: "ht_inv (fst acc) \<Longrightarrow> ht_inv (fst (fold hset_field fvs acc))"
  by (induction fvs arbitrary: acc) (simp_all add: hset_field_def Let_def case_prod_beta table_simps)

lemma hdel_fields_inv: "ht_inv (fst acc) \<Longrightarrow> ht_inv (fst (fold hdel_field fs acc))"
  by (induction fs arbitrary: acc) (simp_all add: hdel_field_def Let_def case_prod_beta table_simps)

lemma push_methods_inv [inv_intros]:
  assumes "store_inv s"
  shows "store_inv (snd (LPush e k vals s))" "store_inv (snd (RPush e k vals s))"
    "store_inv (snd (HSet e k fvs s))"
proof -
  obtain err s1 where r: "get_or_create KList (clk e 0) k s = (err, s1)" by fastforce
  note f = get_or_create_facts [OF assms r]
  show "store_inv (snd (LPush e k vals s))" "store_inv (snd (RPush e k vals s))"
    using f by (auto simp: LPush_def RPush_def GetOrCreateList_def r Let_def
        EvictIfOverBudget_inv update_entry_inv split: store_error.split option.split)
  obtain err' s2 where r': "get_or_create KHash (clk e 0) k s = (err', s2)" by fastforce
  note f' = get_or_create_facts [OF assms r']
  show "store_inv (snd (HSet e k fvs s))"
    using f' hset_fields_inv [of "(_, 0)" fvs]
    by (auto simp: HSet_def GetOrCreateHash_def r' Let_def case_prod_beta
        EvictIfOverBudget_inv update_entry_inv split: store_error.split option.split)
qed

lemma HDel_inv [inv_intros]: "store_inv s \<Longrightarrow> store_inv (snd (HDel e k fs s))"
proof (cases "HT_Get (data s) k")
  case (Some v)
  assume inv: "store_inv s"
  let ?h = "fst (fold hdel_field fs (hash_value v, 0))"
  let ?v' = "v\<lparr>hash_value := ?h\<rparr>"
  have h: "ht_inv ?h" using store_invD(2) [OF inv Some] by (simp add: hdel_fields_inv)
  have "store_inv (remove_entry k v (write_value k ?v' s))"
    using inv Some by (rule remove_written_inv)
  moreover have "store_inv (update_entry k v ?v' s)"
    using inv Some h by (intro update_entry_inv) simp_all
  ultimately show ?thesis
    using inv Some by (simp add: HDel_def Let_def case_prod_beta remove_entry_inv)
qed (simp add: HDel_def)

lemma load_entry_fields [simp]: "max_memory_bytes (load_entry a b en s) = max_memory_bytes s"
  by (simp add: load_entry_def Let_def)

lemma value_of_snapshot_hash: "ht_inv (hash_value (value_of_snapshot a b en))"
  by (simp add: value_of_snapshot_def table_simps ht.invar_put_all)

text \<open>
  Loading counts each stored entry in full, so the account is right as long as no key is
  loaded twice.
\<close>

lemma load_entry_inv:
  assumes "store_inv s" and "HT_Get (data s) (se_key en) = None"
  shows "store_inv (load_entry a b en s)"
  using assms
  by (simp add: load_entry_def Let_def Touch_inv put_recount_inv value_of_snapshot_hash)

lemma load_entry_get:
  "ht_inv (data s) \<Longrightarrow> j \<noteq> se_key en \<Longrightarrow> HT_Get (data (load_entry a b en s)) j = HT_Get (data s) j"
  by (simp add: load_entry_def Let_def table_simps split: option.split)

lemma load_entries_inv:
  assumes "store_inv s" and "distinct (map se_key ens)" and "\<forall>en \<in> set ens. HT_Get (data s) (se_key en) = None"
  shows "store_inv (fold (load_entry a b) ens s)"
  using assms
proof (induction ens arbitrary: s)
  case (Cons en ens)
  have "\<forall>x \<in> set ens. HT_Get (data (load_entry a b en s)) (se_key x) = None"
    using Cons.prems load_entry_get [OF store_invD(1) [OF Cons.prems(1)]] by (auto simp: image_iff)
  then show ?case using Cons load_entry_inv [of s en a b] by simp
qed simp

lemma LoadSnapshot_inv [inv_intros]:
  assumes "distinct (map se_key ens)"
  shows "store_inv (LoadSnapshot e ens s)"
proof -
  have "store_inv (s\<lparr>data := HT_Clear (data s), used_memory_bytes := 0\<rparr>)"
    by (simp add: store_inv_def table_simps ht.sum_clear)
  then show ?thesis
    using assms by (simp add: LoadSnapshot_def EvictIfOverBudget_inv load_entries_inv table_simps)
qed

end
