(* ===== verification/Store_Spec.thy ===== *)
theory Store_Spec
  imports Store_Invariant
begin

text \<open>
  The abstract specification of the store and the refinement. A store stands for a key space:
  a finite map from keys to a payload (string, list, or field map) and an optional deadline.
  \<open>live now\<close> is what a caller can observe at an instant: the keys whose deadline has not
  passed. Each method is related to an operation on key spaces; a method that ends in an
  eviction may lose keys, but only when a memory budget is set and exceeded.
\<close>

section \<open>Key spaces\<close>

datatype payload = PString string | PList "string list" | PHash "string \<rightharpoonup> string"

type_synonym keyspace = "string \<rightharpoonup> payload \<times> int option"

definition payload_of :: "stored_value \<Rightarrow> payload" where
  "payload_of v = (case vtype v of
      KString \<Rightarrow> PString (str_value v)
    | KList \<Rightarrow> PList (list_value v)
    | KHash \<Rightarrow> PHash (HT_Get (hash_value v)))"

definition abs_value :: "stored_value \<Rightarrow> payload \<times> int option" where
  "abs_value v = (payload_of v, expires_at v)"

definition keyspace_of :: "store \<Rightarrow> keyspace" where
  "keyspace_of s = map_option abs_value \<circ> HT_Get (data s)"

definition expired_at :: "int \<Rightarrow> int option \<Rightarrow> bool" where
  "expired_at now t = (case t of None \<Rightarrow> False | Some d \<Rightarrow> d \<le> now)"

definition live :: "int \<Rightarrow> keyspace \<Rightarrow> keyspace" where
  "live now m k = (case m k of None \<Rightarrow> None | Some (p, t) \<Rightarrow> if expired_at now t then None else Some (p, t))"

definition evicted_from :: "keyspace \<Rightarrow> store \<Rightarrow> bool" where
  "evicted_from m s \<longleftrightarrow> keyspace_of s \<subseteq>\<^sub>m m \<and> (max_memory_bytes s = 0 \<longrightarrow> keyspace_of s = m)"

section \<open>Specifications of the methods\<close>

definition spec_set :: "string \<Rightarrow> string \<Rightarrow> keyspace \<Rightarrow> keyspace" where
  "spec_set k val m = m(k \<mapsto> (PString val, None))"

text \<open>\<open>None\<close> is the wrong-type error; the key space is then left as it is.\<close>

definition spec_push :: "(string list \<Rightarrow> string list) \<Rightarrow> int \<Rightarrow> string \<Rightarrow> keyspace \<Rightarrow> (int \<times> keyspace) option" where
  "spec_push f now k m =
     (case live now m k of
        None \<Rightarrow> Some (int_of_size (length (f [])), m(k \<mapsto> (PList (f []), None)))
      | Some (PList xs, t) \<Rightarrow> Some (int_of_size (length (f xs)), m(k \<mapsto> (PList (f xs), t)))
      | Some _ \<Rightarrow> None)"

definition new_fields :: "(string \<rightharpoonup> string) \<Rightarrow> (string \<times> string) list \<Rightarrow> int" where
  "new_fields h fvs = int (card (fst ` set fvs - dom h))"

definition spec_hset :: "int \<Rightarrow> string \<Rightarrow> (string \<times> string) list \<Rightarrow> keyspace \<Rightarrow> (int \<times> keyspace) option" where
  "spec_hset now k fvs m =
     (case live now m k of
        None \<Rightarrow> Some (new_fields Map.empty fvs, m(k \<mapsto> (PHash (map_of (rev fvs)), None)))
      | Some (PHash h, t) \<Rightarrow> Some (new_fields h fvs, m(k \<mapsto> (PHash (h ++ map_of (rev fvs)), t)))
      | Some _ \<Rightarrow> None)"

definition spec_hdel :: "int \<Rightarrow> string \<Rightarrow> string list \<Rightarrow> keyspace \<Rightarrow> (int \<times> keyspace) option" where
  "spec_hdel now k fs m =
     (case live now m k of
        None \<Rightarrow> Some (0, m(k := None))
      | Some (PHash h, t) \<Rightarrow>
          (let h' = h |` (- set fs) in
           Some (int (card (dom h \<inter> set fs)), if h' = Map.empty then m(k := None) else m(k \<mapsto> (PHash h', t))))
      | Some _ \<Rightarrow> None)"

section \<open>The abstraction and the building blocks\<close>

lemma keyspace_of_apply: "keyspace_of s k = map_option abs_value (HT_Get (data s) k)"
  by (simp add: keyspace_of_def)

lemma expired_abs: "expired_at now (expires_at v) = IsExpired now v"
  by (simp add: expired_at_def IsExpired_def)

lemma live_keyspace:
  "live now (keyspace_of s) k =
     (case HT_Get (data s) k of None \<Rightarrow> None | Some v \<Rightarrow> if IsExpired now v then None else Some (abs_value v))"
  by (auto simp: live_def keyspace_of_apply abs_value_def expired_abs split: option.split)

lemma abs_value_touch [simp]: "abs_value (v\<lparr>last_accessed_seq := q\<rparr>) = abs_value v"
  by (simp add: abs_value_def payload_of_def split: value_type.split)

lemma keyspace_frame [simp]:
  "keyspace_of (s\<lparr>access_clock := c\<rparr>) = keyspace_of s"
  "keyspace_of (s\<lparr>used_memory_bytes := u\<rparr>) = keyspace_of s"
  "keyspace_of (s\<lparr>max_memory_bytes := b\<rparr>) = keyspace_of s"
  by (simp_all add: keyspace_of_def)

lemma keyspace_recount [simp]: "keyspace_of (recount k b s) = keyspace_of s"
  by (simp add: keyspace_of_def)

lemma keyspace_Touch: "store_inv s \<Longrightarrow> keyspace_of (Touch k s) = keyspace_of s"
  using store_invD(1) [of s]
  by (auto simp: keyspace_of_def Touch_get fun_eq_iff split: option.split)

lemma keyspace_remove: "store_inv s \<Longrightarrow> keyspace_of (remove_entry k v s) = (keyspace_of s)(k := None)"
  using store_invD(1) [of s] by (auto simp: keyspace_of_def remove_entry_get)

lemma keyspace_write:
  "store_inv s \<Longrightarrow> HT_Get (data s) k = Some old \<Longrightarrow>
     keyspace_of (write_value k v s) = (keyspace_of s)(k \<mapsto> abs_value v)"
  using store_invD(1) [of s] by (auto simp: keyspace_of_def write_value_get)

lemma keyspace_put:
  "store_inv s \<Longrightarrow> keyspace_of (s\<lparr>data := snd (HT_Set k v (data s))\<rparr>) = (keyspace_of s)(k \<mapsto> abs_value v)"
  using store_invD(1) [of s] by (auto simp: keyspace_of_def table_simps)

lemma keyspace_update:
  "store_inv s \<Longrightarrow> HT_Get (data s) k = Some v \<Longrightarrow>
     keyspace_of (update_entry k v v' s) = (keyspace_of s)(k \<mapsto> abs_value v')"
  using store_invD(1) [of s] by (auto simp: keyspace_of_def update_entry_get fun_eq_iff)

lemma keyspace_delete_expired:
  "store_inv s \<Longrightarrow> keyspace_of (snd (DeleteIfExpired now k s)) =
     (if live now (keyspace_of s) k = None then (keyspace_of s)(k := None) else keyspace_of s)"
  using store_invD(1) [of s]
  by (auto simp: keyspace_of_def live_keyspace [unfolded keyspace_of_def] DeleteIfExpired_get fun_eq_iff
      split: option.splits if_splits)

lemma evicted_from_evict:
  assumes "store_inv s"
  shows "evicted_from (keyspace_of s) (EvictIfOverBudget draws s)"
proof -
  have "map_option abs_value \<circ> m \<subseteq>\<^sub>m map_option abs_value \<circ> m'" if "m \<subseteq>\<^sub>m m'" for m m'
    using that by (force simp: map_le_def)
  then show ?thesis
    using EvictIfOverBudget_facts [OF assms, of draws] EvictIfOverBudget_unlimited [of s draws]
    by (auto simp: evicted_from_def keyspace_of_def)
qed

text \<open>Deadlines only pass: what is expired stays expired, so removing it cannot be observed.\<close>

lemma expired_at_mono: "expired_at now t \<Longrightarrow> now \<le> now' \<Longrightarrow> expired_at now' t"
  by (auto simp: expired_at_def split: option.splits)

lemma live_remove_expired:
  assumes "live now m k = None" and "now \<le> now'"
  shows "live now' (m(k := None)) = live now' m"
  using assms expired_at_mono [OF _ assms(2)]
  by (auto simp: live_def fun_eq_iff split: option.splits if_splits)

lemma live_after_delete_expired:
  "store_inv s \<Longrightarrow> now \<le> now' \<Longrightarrow>
     live now' (keyspace_of (snd (DeleteIfExpired now k s))) = live now' (keyspace_of s)"
  by (simp add: keyspace_delete_expired live_remove_expired)

section \<open>Reads\<close>

text \<open>
  All single-key reads are instances of \<open>read_typed\<close>: the result depends only on what is live
  at the first clock reading, and the call changes nothing that can be observed later.
\<close>

lemma read_typed_result:
  "fst (read_typed e ty missing answer k s) =
     (case HT_Get (data s) k of
        None \<Rightarrow> missing
      | Some v \<Rightarrow> if IsExpired (clk e 0) v then missing
                  else if vtype v \<noteq> ty then wrong_type else answer v)"
  by (simp add: read_typed_def split: option.split)

lemma read_typed_unobservable:
  assumes "store_inv s" and "clk e 1 \<le> now"
  shows "live now (keyspace_of (snd (read_typed e ty missing answer k s))) = live now (keyspace_of s)"
  using assms
  by (simp add: read_typed_def keyspace_Touch live_after_delete_expired split: option.split)

lemma SweepDelete_unobservable:
  assumes "store_inv s" and "\<And>i. clocks i \<le> now"
  shows "live now (keyspace_of (SweepDelete clocks keys s)) = live now (keyspace_of s)"
  using assms
  by (induction clocks keys s rule: SweepDelete.induct)
    (simp_all add: live_after_delete_expired DeleteIfExpired_inv)

section \<open>Writes\<close>

lemma abs_value_new [simp]: "abs_value (new_value\<lparr>str_value := val\<rparr>) = (PString val, None)"
  by (simp add: abs_value_def payload_of_def new_value_def)

lemma new_value_vtype: "new_value\<lparr>vtype := KString\<rparr> = new_value"
  by (simp add: new_value_def)

lemma new_value_fields [simp]:
  "list_value new_value = []" "hash_value new_value = HT_new" "expires_at new_value = None"
  by (simp_all add: new_value_def)

lemma Store_Set_refines:
  assumes "store_inv s"
  shows "evicted_from (spec_set k val (keyspace_of s)) (Store_Set e k val s)"
proof -
  let ?v = "new_value\<lparr>vtype := KString, str_value := val\<rparr>"
  let ?b = "case HT_Get (data s) k of None \<Rightarrow> 0 | Some v \<Rightarrow> EstimateEntryBytes k v"
  let ?s1 = "recount k ?b (s\<lparr>data := snd (HT_Set k ?v (data s))\<rparr>)"
  have inv: "store_inv ?s1"
    using assms by (intro put_recount_inv) simp_all
  have "keyspace_of (Touch k ?s1) = spec_set k val (keyspace_of s)"
    by (subst keyspace_Touch [OF inv]) (simp add: keyspace_put [OF assms] spec_set_def new_value_vtype)
  then show ?thesis
    using evicted_from_evict [OF Touch_inv [OF inv], of k "rnd e"] by (simp add: Store_Set_def Let_def)
qed

lemma get_or_create_cases:
  assumes inv: "store_inv s"
  obtains
    (fresh) s1 v where "live now (keyspace_of s) k = None" "get_or_create ty now k s = (KNone, s1)"
      "store_inv s1" "HT_Get (data s1) k = Some v" "vtype v = ty" "list_value v = []"
      "hash_value v = HT_new" "expires_at v = None" "keyspace_of s1 = (keyspace_of s)(k \<mapsto> abs_value v)"
      "max_memory_bytes s1 = max_memory_bytes s"
  | (wrong) v where "HT_Get (data s) k = Some v" "\<not> IsExpired now v" "vtype v \<noteq> ty"
      "get_or_create ty now k s = (KWrongType, s)"
  | (present) v where "HT_Get (data s) k = Some v" "\<not> IsExpired now v" "vtype v = ty"
      "get_or_create ty now k s = (KNone, s)"
proof (cases "live now (keyspace_of s) k")
  case None
  define s0 where "s0 = (case HT_Get (data s) k of None \<Rightarrow> s
      | Some v \<Rightarrow> if IsExpired now v then remove_entry k v s else s)"
  let ?w = "new_value\<lparr>vtype := ty\<rparr>"
  let ?s1 = "recount k 0 (s0\<lparr>data := snd (HT_Set k ?w (data s0))\<rparr>)"
  have inv0: "store_inv s0" and abs0: "keyspace_of s0 = (keyspace_of s)(k := None)"
    and max0: "max_memory_bytes s0 = max_memory_bytes s"
    using inv None by (auto simp: s0_def remove_entry_inv keyspace_remove live_keyspace
        fun_upd_idem keyspace_of_apply split: option.splits if_splits)
  have none0: "HT_Get (data s0) k = None"
    using fun_cong [OF abs0, of k] by (simp add: keyspace_of_apply)
  have res: "get_or_create ty now k s = (KNone, Touch k ?s1)"
    unfolding get_or_create_def Let_def s0_def [symmetric] by (simp add: none0)
  have inv1: "store_inv ?s1"
    using inv0 by (rule put_recount_inv) (simp_all add: none0)
  have get1: "HT_Get (data ?s1) k = Some ?w"
    using store_invD(1) [OF inv0] by (simp add: table_simps)
  have "keyspace_of (Touch k ?s1) = (keyspace_of s)(k \<mapsto> abs_value ?w)"
    by (simp add: keyspace_Touch [OF inv1] keyspace_put [OF inv0] abs0)
  moreover have "HT_Get (data (Touch k ?s1)) k = Some (?w\<lparr>last_accessed_seq := access_clock ?s1\<rparr>)"
    using store_invD(1) [OF inv1] get1 by (simp add: Touch_get)
  ultimately show thesis
    using res Touch_inv [OF inv1] max0
    by (intro fresh [OF None res, of "?w\<lparr>last_accessed_seq := access_clock ?s1\<rparr>"])
      simp_all
next
  case (Some pt)
  then obtain v where v: "HT_Get (data s) k = Some v" "\<not> IsExpired now v"
    by (auto simp: live_keyspace split: option.splits if_splits)
  then show thesis
    using wrong [OF v] present [OF v] by (cases "vtype v = ty") (auto simp: get_or_create_def Let_def)
qed

lemma fold_Cons_rev_append: "fold (#) vals xs = rev vals @ xs"
  by (induction vals arbitrary: xs) auto

text \<open>Both pushes are the same method with a different way to add to the list.\<close>

definition push_with :: "(string list \<Rightarrow> string list) \<Rightarrow> env \<Rightarrow> string \<Rightarrow> store \<Rightarrow> int result \<times> store" where
  "push_with f e key s =
     (case GetOrCreateList (clk e 0) key s of
        (KWrongType, s1) \<Rightarrow> (wrong_type, s1)
      | (KNone, s1) \<Rightarrow>
          (case HT_Get (data s1) key of
             None \<Rightarrow> (not_found, s1)
           | Some v \<Rightarrow>
               (let v' = v\<lparr>list_value := f (list_value v)\<rparr>
                in (found (int_of_size (length (list_value v'))),
                    EvictIfOverBudget (rnd e) (update_entry key v v' s1)))))"

lemma pushes_push_with:
  "LPush e k vals s = push_with (\<lambda>xs. rev vals @ xs) e k s"
  "RPush e k vals s = push_with (\<lambda>xs. xs @ vals) e k s"
  by (auto simp: LPush_def RPush_def push_with_def fold_Cons_rev_append Let_def
      split: prod.split store_error.split option.split)

lemma evicted_from_update:
  assumes "store_inv s" and "HT_Get (data s) k = Some v" and "ht_inv (hash_value v')"
  shows "evicted_from ((keyspace_of s)(k \<mapsto> abs_value v')) (EvictIfOverBudget draws (update_entry k v v' s))"
  using evicted_from_evict [OF update_entry_inv [OF assms], of draws] keyspace_update [OF assms(1,2)]
  by simp

lemma push_with_refines:
  assumes inv: "store_inv s"
  shows "case spec_push f (clk e 0) k (keyspace_of s) of
           None \<Rightarrow> push_with f e k s = (wrong_type, s)
         | Some (n, m) \<Rightarrow> fst (push_with f e k s) = found n \<and> evicted_from m (snd (push_with f e k s))"
  using inv
proof (cases rule: get_or_create_cases [of s "clk e 0" k KList])
  case (fresh s1 v)
  let ?v' = "v\<lparr>list_value := f (list_value v)\<rparr>"
  have "abs_value ?v' = (PList (f []), None)" using fresh by (simp add: abs_value_def payload_of_def)
  moreover have "evicted_from ((keyspace_of s1)(k \<mapsto> abs_value ?v')) (EvictIfOverBudget (rnd e) (update_entry k v ?v' s1))"
    using fresh by (intro evicted_from_update) (simp_all add: table_simps)
  ultimately show ?thesis
    using fresh by (simp add: push_with_def GetOrCreateList_def spec_push_def Let_def)
next
  case (wrong v)
  then have "live (clk e 0) (keyspace_of s) k = Some (abs_value v)" by (simp add: live_keyspace)
  then show ?thesis
    using wrong by (simp add: push_with_def GetOrCreateList_def spec_push_def abs_value_def payload_of_def
        split: value_type.splits)
next
  case (present v)
  let ?v' = "v\<lparr>list_value := f (list_value v)\<rparr>"
  have "live (clk e 0) (keyspace_of s) k = Some (abs_value v)" using present by (simp add: live_keyspace)
  moreover have "evicted_from ((keyspace_of s)(k \<mapsto> abs_value ?v')) (EvictIfOverBudget (rnd e) (update_entry k v ?v' s))"
    using inv present store_invD(2) [OF inv present(1)] by (intro evicted_from_update) simp_all
  ultimately show ?thesis
    using present by (simp add: push_with_def GetOrCreateList_def spec_push_def abs_value_def payload_of_def Let_def)
qed

lemma hset_fields_result:
  assumes "ht_inv h"
  shows "HT_Get (fst (fold hset_field fvs (h, n))) = HT_Get h ++ map_of (rev fvs)
    \<and> snd (fold hset_field fvs (h, n)) = n + new_fields (HT_Get h) fvs"
  using assms
proof (induction fvs arbitrary: h n)
  case (Cons fv fvs)
  obtain f w where fv: "fv = (f, w)" by (cases fv)
  let ?h = "snd (HT_Set f w h)"
  have step: "hset_field fv (h, n) = (?h, if HT_Get h f = None then n + 1 else n)"
    using Cons.prems by (auto simp: hset_field_def fv table_simps case_prod_beta Let_def)
  have inv: "ht_inv ?h" and get: "HT_Get ?h = (HT_Get h)(f \<mapsto> w)"
    using Cons.prems by (simp_all add: table_simps)
  have "fst ` set (fv # fvs) - dom (HT_Get h) =
      (if HT_Get h f = None then insert f (fst ` set fvs - dom (HT_Get ?h)) else fst ` set fvs - dom (HT_Get ?h))"
    by (auto simp: fv get)
  then have "new_fields (HT_Get h) (fv # fvs)
      = (if HT_Get h f = None then 1 else 0) + new_fields (HT_Get ?h) fvs"
    by (simp add: new_fields_def get)
  moreover have merge: "HT_Get h ++ map_of (rev (fv # fvs)) = HT_Get ?h ++ map_of (rev fvs)"
    by (simp add: get fv map_of_append)
  ultimately show ?case
    using Cons.IH [OF inv, of "if HT_Get h f = None then n + 1 else n"] merge by (simp add: step)
qed (simp add: new_fields_def)

lemma hdel_fields_result:
  assumes "ht_inv h"
  shows "HT_Get (fst (fold hdel_field fs (h, n))) = HT_Get h |` (- set fs)
    \<and> snd (fold hdel_field fs (h, n)) = n + int (card (dom (HT_Get h) \<inter> set fs))"
  using assms
proof (induction fs arbitrary: h n)
  case (Cons f fs)
  let ?h = "snd (HT_Delete f h)"
  have step: "hdel_field f (h, n) = (?h, if HT_Get h f = None then n else n + 1)"
    using Cons.prems by (auto simp: hdel_field_def table_simps case_prod_beta Let_def)
  have inv: "ht_inv ?h" and get: "HT_Get ?h = (HT_Get h)(f := None)"
    using Cons.prems by (simp_all add: table_simps)
  have "dom (HT_Get h) \<inter> set (f # fs) =
      (if HT_Get h f = None then dom (HT_Get ?h) \<inter> set fs else insert f (dom (HT_Get ?h) \<inter> set fs))"
    by (auto simp: get)
  then have "card (dom (HT_Get h) \<inter> set (f # fs))
      = (if HT_Get h f = None then 0 else 1) + card (dom (HT_Get ?h) \<inter> set fs)"
    by (simp add: get)
  moreover have "HT_Get h |` (- set (f # fs)) = HT_Get ?h |` (- set fs)"
    by (auto simp: get restrict_map_def)
  ultimately show ?case
    using Cons.IH [OF inv, of "if HT_Get h f = None then n else n + 1"] by (simp add: step)
qed (simp add: restrict_map_def)

lemma HSet_refines:
  assumes inv: "store_inv s"
  shows "case spec_hset (clk e 0) k fvs (keyspace_of s) of
           None \<Rightarrow> HSet e k fvs s = (wrong_type, s)
         | Some (n, m) \<Rightarrow> fst (HSet e k fvs s) = found n \<and> evicted_from m (snd (HSet e k fvs s))"
  using inv
proof (cases rule: get_or_create_cases [of s "clk e 0" k KHash])
  case (fresh s1 v)
  let ?acc = "fold hset_field fvs (hash_value v, 0)"
  let ?v' = "v\<lparr>hash_value := fst ?acc\<rparr>"
  have h: "HT_Get (fst ?acc) = map_of (rev fvs)" "snd ?acc = new_fields Map.empty fvs"
    using hset_fields_result [of "hash_value v" fvs 0] fresh by (simp_all add: table_simps)
  have "abs_value ?v' = (PHash (map_of (rev fvs)), None)"
    using fresh h by (simp add: abs_value_def payload_of_def)
  moreover have "evicted_from ((keyspace_of s1)(k \<mapsto> abs_value ?v')) (EvictIfOverBudget (rnd e) (update_entry k v ?v' s1))"
    using fresh by (intro evicted_from_update) (simp_all add: hset_fields_inv)
  ultimately show ?thesis
    using fresh h by (simp add: HSet_def GetOrCreateHash_def spec_hset_def Let_def case_prod_beta)
next
  case (wrong v)
  then have "live (clk e 0) (keyspace_of s) k = Some (abs_value v)" by (simp add: live_keyspace)
  then show ?thesis
    using wrong by (simp add: HSet_def GetOrCreateHash_def spec_hset_def abs_value_def payload_of_def
        split: value_type.splits)
next
  case (present v)
  let ?acc = "fold hset_field fvs (hash_value v, 0)"
  let ?v' = "v\<lparr>hash_value := fst ?acc\<rparr>"
  note hv = store_invD(2) [OF inv present(1)]
  have "live (clk e 0) (keyspace_of s) k = Some (abs_value v)" using present by (simp add: live_keyspace)
  moreover have "evicted_from ((keyspace_of s)(k \<mapsto> abs_value ?v')) (EvictIfOverBudget (rnd e) (update_entry k v ?v' s))"
    using inv present hv by (intro evicted_from_update) (simp_all add: hset_fields_inv)
  ultimately show ?thesis
    using present hset_fields_result [OF hv, of fvs 0]
    by (simp add: HSet_def GetOrCreateHash_def spec_hset_def abs_value_def payload_of_def Let_def case_prod_beta)
qed

lemma HDel_refines:
  assumes inv: "store_inv s"
  shows "case spec_hdel (clk e 0) k fs (keyspace_of s) of
           None \<Rightarrow> HDel e k fs s = (wrong_type, s)
         | Some (n, m) \<Rightarrow> fst (HDel e k fs s) = found n \<and> keyspace_of (snd (HDel e k fs s)) = m"
proof (cases "HT_Get (data s) k")
  case None
  then show ?thesis
    by (simp add: HDel_def spec_hdel_def live_keyspace keyspace_of_apply fun_upd_idem)
next
  case (Some v)
  let ?acc = "fold hdel_field fs (hash_value v, 0)"
  let ?v' = "v\<lparr>hash_value := fst ?acc\<rparr>"
  note hv = store_invD(2) [OF inv Some]
  have h: "ht_inv (fst ?acc)" "HT_Get (fst ?acc) = HT_Get (hash_value v) |` (- set fs)"
    "snd ?acc = int (card (dom (HT_Get (hash_value v)) \<inter> set fs))"
    using hdel_fields_result [OF hv, of fs 0] hdel_fields_inv [of "(hash_value v, 0)" fs] hv by simp_all
  have live: "live (clk e 0) (keyspace_of s) k = (if IsExpired (clk e 0) v then None else Some (abs_value v))"
    using Some by (simp add: live_keyspace)
  show ?thesis
  proof (cases "IsExpired (clk e 0) v \<or> vtype v \<noteq> KHash")
    case True
    then show ?thesis
      using Some live inv
      by (auto simp: HDel_def spec_hdel_def keyspace_remove abs_value_def payload_of_def split: value_type.splits)
  next
    case False
    have "keyspace_of (remove_entry k v (write_value k ?v' s)) = (keyspace_of s)(k := None)"
      using store_invD(1) [OF inv] Some
      by (auto simp: keyspace_of_def remove_entry_def write_value_def table_simps)
    moreover have "keyspace_of (update_entry k v ?v' s) = (keyspace_of s)(k \<mapsto> abs_value ?v')"
      using inv Some by (rule keyspace_update)
    moreover have "(HT_Len (fst ?acc) = 0) = (HT_Get (hash_value v) |` (- set fs) = Map.empty)"
      using ht.len_0_iff [OF h(1)] h(2) by simp
    ultimately show ?thesis
      using False Some live h
      by (simp add: HDel_def spec_hdel_def abs_value_def payload_of_def Let_def case_prod_beta)
  qed
qed

section \<open>Stores without a budget\<close>

lemma evict_loop_budget: "evict_loop fuel draws s = Some s' \<Longrightarrow> max_memory_bytes s' = max_memory_bytes s"
  by (induction fuel draws s rule: evict_loop.induct)
    (auto simp: Let_def split: if_splits list.splits)

lemma EvictIfOverBudget_budget [simp]: "max_memory_bytes (EvictIfOverBudget draws s) = max_memory_bytes s"
  using evict_loop_budget [of "Suc (HT_Len (data s))" draws s]
  by (simp add: EvictIfOverBudget_def del: evict_loop.simps split: option.split)

lemma get_or_create_budget: "max_memory_bytes (snd (get_or_create ty now k s)) = max_memory_bytes s"
  by (auto simp: get_or_create_def Let_def split: option.split)

lemma write_methods_budget [simp]:
  "max_memory_bytes (Store_Set e k val s) = max_memory_bytes s"
  "max_memory_bytes (snd (push_with f e k s)) = max_memory_bytes s"
  "max_memory_bytes (snd (HSet e k fvs s)) = max_memory_bytes s"
  using get_or_create_budget [of KList "clk e 0" k s] get_or_create_budget [of KHash "clk e 0" k s]
  by (auto simp: Store_Set_def push_with_def HSet_def GetOrCreateList_def GetOrCreateHash_def Let_def
      split: prod.split store_error.split option.split)

lemma keyspace_unlimited:
  assumes "store_inv s" and "max_memory_bytes s = 0"
  shows "keyspace_of (Store_Set e k val s) = spec_set k val (keyspace_of s)"
    and "spec_push f (clk e 0) k (keyspace_of s) = Some (n, m) \<Longrightarrow>
      fst (push_with f e k s) = found n \<and> keyspace_of (snd (push_with f e k s)) = m"
    and "spec_hset (clk e 0) k fvs (keyspace_of s) = Some (n, m) \<Longrightarrow>
      fst (HSet e k fvs s) = found n \<and> keyspace_of (snd (HSet e k fvs s)) = m"
  using assms Store_Set_refines [OF assms(1), of k val e] push_with_refines [OF assms(1), of f e k]
    HSet_refines [OF assms(1), of e k fvs]
  by (simp_all add: evicted_from_def)

end
