(* ===== verification/Store_Props.thy ===== *)
theory Store_Props
  imports Store_Spec
begin

text \<open>
  What the methods of the store do, as properties over key spaces: strings, lists, hashes,
  multi-key commands, expiry, eviction and snapshots.
\<close>

section \<open>Multi-key methods\<close>

definition position :: "string \<Rightarrow> string list \<Rightarrow> nat" where
  "position k ks = length (takeWhile (\<lambda>x. x \<noteq> k) ks)"

definition is_live :: "int \<Rightarrow> keyspace \<Rightarrow> string \<Rightarrow> bool" where
  "is_live now m k \<longleftrightarrow> k \<in> dom (live now m)"

lemma is_live_get:
  "is_live now (keyspace_of s) k \<longleftrightarrow>
     (case HT_Get (data s) k of None \<Rightarrow> False | Some v \<Rightarrow> \<not> IsExpired now v)"
  by (auto simp: is_live_def dom_def live_keyspace split: option.splits)

lemma is_live_remove: "is_live now (m(k := None)) j \<longleftrightarrow> j \<noteq> k \<and> is_live now m j"
  by (auto simp: is_live_def dom_def live_def)

lemma del_loop_keyspace:
  "store_inv s \<Longrightarrow> keyspace_of (snd (del_loop now ks n s)) = keyspace_of s |` (- set ks)"
proof (induction now ks n s rule: del_loop.induct)
  case (2 now key keys removed s)
  show ?case
  proof (cases "HT_Get (data s) key")
    case None
    then have "keyspace_of s key = None" by (simp add: keyspace_of_apply)
    then show ?thesis
      using "2.IH"(1) [OF None "2.prems"] None by (auto simp: restrict_map_def fun_eq_iff)
  next
    case (Some v)
    have "store_inv (remove_entry key v s)" using "2.prems" Some by (rule remove_entry_inv)
    then show ?thesis
      using "2.IH"(2) [OF Some] Some "2.prems" by (auto simp: keyspace_remove restrict_map_def fun_eq_iff)
  qed
qed (simp add: restrict_map_def)

lemma del_count_step:
  fixes P :: "nat \<Rightarrow> string \<Rightarrow> bool"
  shows "{k \<in> set (key # keys). P (position k (key # keys)) k} =
    (if P 0 key then {key} else {}) \<union> {k \<in> set keys. k \<noteq> key \<and> P (Suc (position k keys)) k}"
  by (auto simp: position_def)

lemma del_loop_count:
  assumes "store_inv s"
  shows "fst (del_loop now ks n s) =
    n + int (card {k \<in> set ks. is_live (now (position k ks)) (keyspace_of s) k})"
  using assms
proof (induction now ks n s rule: del_loop.induct)
  case (2 now key keys removed s)
  let ?later = "\<lambda>m. {k \<in> set keys. is_live (now (Suc (position k keys))) m k}"
  have split: "{k \<in> set (key # keys). is_live (now (position k (key # keys))) (keyspace_of s) k} =
      (if is_live (now 0) (keyspace_of s) key then {key} else {}) \<union> ?later ((keyspace_of s)(key := None))"
    by (subst del_count_step) (auto simp: is_live_remove)
  have card: "card {k \<in> set (key # keys). is_live (now (position k (key # keys))) (keyspace_of s) k} =
      (if is_live (now 0) (keyspace_of s) key then 1 else 0) + card (?later ((keyspace_of s)(key := None)))"
    unfolding split by (auto simp: is_live_remove card_insert_if)
  show ?case
  proof (cases "HT_Get (data s) key")
    case None
    then have "keyspace_of s key = None" by (simp add: keyspace_of_apply)
    then have "\<not> is_live (now 0) (keyspace_of s) key" "(keyspace_of s)(key := None) = keyspace_of s"
      by (auto simp: is_live_def dom_def live_def)
    then show ?thesis
      unfolding card using "2.IH"(1) [OF None "2.prems"] None by simp
  next
    case (Some v)
    have "store_inv (remove_entry key v s)" using "2.prems" Some by (rule remove_entry_inv)
    moreover have "is_live (now 0) (keyspace_of s) key = (\<not> IsExpired (now 0) v)"
      using Some by (simp add: is_live_get)
    ultimately show ?thesis
      unfolding card using "2.IH"(2) [OF Some] Some "2.prems"
      by (simp add: keyspace_remove del: fun_upd_apply)
  qed
qed simp

lemma exists_scan_count:
  "fst (exists_scan now ks s) =
     int (length (filter (\<lambda>i. is_live (now i) (keyspace_of s) (ks ! i)) [0..<length ks]))"
proof (induction ks arbitrary: now)
  case (Cons k ks)
  have "[0..<length (k # ks)] = 0 # map Suc [0..<length ks]"
    by (simp add: map_Suc_upt upt_conv_Cons del: upt_Suc)
  then show ?case
    using Cons [of "\<lambda>i. now (Suc i)"]
    by (auto simp: filter_map o_def is_live_get Let_def case_prod_beta split: option.split)
qed simp

lemma live_entries_subseq: "set (live_entries now es) \<subseteq> fst ` set es"
  by (induction now es rule: live_entries.induct) (auto simp: image_iff)

lemma live_entries_distinct: "distinct (map fst es) \<Longrightarrow> distinct (live_entries now es)"
  by (induction now es rule: live_entries.induct) (use live_entries_subseq in fastforce)+

lemma live_entries_bounds:
  assumes "\<And>i. t0 \<le> now i" and "\<And>i. now i \<le> t1"
  shows "{k. \<exists>v. (k, v) \<in> set es \<and> \<not> IsExpired t1 v} \<subseteq> set (live_entries now es)"
    and "set (live_entries now es) \<subseteq> {k. \<exists>v. (k, v) \<in> set es \<and> \<not> IsExpired t0 v}"
proof -
  have mono: "IsExpired a v \<Longrightarrow> a \<le> b \<Longrightarrow> IsExpired b v" for a b v
    by (auto simp: IsExpired_def split: option.splits)
  have "{k. \<exists>v. (k, v) \<in> set es \<and> \<not> IsExpired t1 v} \<subseteq> set (live_entries now es)
      \<and> set (live_entries now es) \<subseteq> {k. \<exists>v. (k, v) \<in> set es \<and> \<not> IsExpired t0 v}"
    using assms
  proof (induction es arbitrary: now)
    case (Cons kv es)
    obtain k v where kv: "kv = (k, v)" by (cases kv)
    have IH: "{k. \<exists>v. (k, v) \<in> set es \<and> \<not> IsExpired t1 v} \<subseteq> set (live_entries (\<lambda>i. now (Suc i)) es)"
      "set (live_entries (\<lambda>i. now (Suc i)) es) \<subseteq> {k. \<exists>v. (k, v) \<in> set es \<and> \<not> IsExpired t0 v}"
      using Cons.IH [of "\<lambda>i. now (Suc i)"] Cons.prems by simp_all
    have "IsExpired t0 v \<Longrightarrow> IsExpired (now 0) v" "IsExpired (now 0) v \<Longrightarrow> IsExpired t1 v"
      using mono Cons.prems by blast+
    then show ?case using IH by (auto simp: kv)
  qed simp
  then show "{k. \<exists>v. (k, v) \<in> set es \<and> \<not> IsExpired t1 v} \<subseteq> set (live_entries now es)"
    and "set (live_entries now es) \<subseteq> {k. \<exists>v. (k, v) \<in> set es \<and> \<not> IsExpired t0 v}" by auto
qed

section \<open>List slices\<close>

text \<open>The elements a Redis range selects: indices from the end when negative, both ends included.\<close>

definition redis_index :: "int \<Rightarrow> nat \<Rightarrow> int" where
  "redis_index i n = (if i < 0 then i + int n else i)"

definition redis_range :: "int \<Rightarrow> int \<Rightarrow> 'a list \<Rightarrow> 'a list" where
  "redis_range start stop xs =
     map (nth xs) (filter (\<lambda>i. redis_index start (length xs) \<le> int i
                              \<and> int i \<le> redis_index stop (length xs)) [0..<length xs])"

lemma filter_upt_between:
  "filter (\<lambda>i. a \<le> i \<and> i < b) [0..<n] = [a..<min b n]"
proof (induction n)
  case (Suc n)
  then show ?case by (auto simp: min_def le_Suc_eq upt_conv_Nil)
qed simp

lemma take_drop_map_nth: "take m (drop a xs) = map (nth xs) [a..<min (a + m) (length xs)]"
proof (rule nth_equalityI)
  fix i assume "i < length (take m (drop a xs))"
  then have "a \<le> length xs" "i < m" "a + i < length xs" by auto
  then show "take m (drop a xs) ! i = map (nth xs) [a..<min (a + m) (length xs)] ! i" by simp
qed auto

lemma lrange_slice_redis_range:
  assumes len: "int (length xs) < 2 ^ 31"
    and start: "- (2 ^ 31) \<le> start" "start < 2 ^ 31" and stop: "- (2 ^ 31) \<le> stop" "stop < 2 ^ 31"
  shows "lrange_slice start stop xs = redis_range start stop xs"
proof -
  let ?n = "length xs"
  define lo where "lo = max (redis_index start ?n) 0"
  define hi where "hi = min (redis_index stop ?n) (int ?n - 1)"
  have n: "int_of_size ?n = int ?n"
    using len by (simp add: int_of_size_def wrap32_id)
  have norm: "NormalizeIndex i (int ?n) = redis_index i ?n" if "- (2 ^ 31) \<le> i" "i < 2 ^ 31" for i
    using that len by (auto simp: NormalizeIndex_def redis_index_def wrap32_id)
  have last: "wrap32 (int ?n - 1) = int ?n - 1"
    using len by (intro wrap32_id) auto
  have slice: "lrange_slice start stop xs =
      (if lo > hi \<or> ?n = 0 then [] else take (nat (hi + 1 - lo)) (drop (nat lo) xs))"
    unfolding lrange_slice_def Let_def n norm [OF start] norm [OF stop] last lo_def hi_def by simp
  have "redis_range start stop xs = map (nth xs) (filter (\<lambda>i. nat lo \<le> i \<and> i < nat (hi + 1)) [0..<?n])"
  proof -
    have "(redis_index start ?n \<le> int i \<and> int i \<le> redis_index stop ?n) = (nat lo \<le> i \<and> i < nat (hi + 1))"
      if "i < ?n" for i
      using that by (auto simp: lo_def hi_def)
    then show ?thesis
      unfolding redis_range_def by (intro arg_cong [where f = "map (nth xs)"] filter_cong) auto
  qed
  then have range: "redis_range start stop xs = map (nth xs) [nat lo..<min (nat (hi + 1)) ?n]"
    by (simp only: filter_upt_between)
  have bounds: "0 \<le> lo" "hi < int ?n"
    by (auto simp: lo_def hi_def)
  show ?thesis
  proof (cases "lo > hi \<or> ?n = 0")
    case True
    then have "min (nat (hi + 1)) ?n \<le> nat lo"
      using bounds by auto
    then show ?thesis
      using True unfolding slice range by simp
  next
    case False
    then have "min (nat lo + nat (hi + 1 - lo)) ?n = min (nat (hi + 1)) ?n"
      using bounds by (simp add: nat_add_distrib [symmetric])
    then show ?thesis
      unfolding slice range take_drop_map_nth using False by simp
  qed
qed

section \<open>Reads\<close>

text \<open>What each single-key read answers, as a function of the key space that is live.\<close>

definition spec_read :: "'a result \<Rightarrow> (payload \<Rightarrow> 'p option) \<Rightarrow> ('p \<Rightarrow> 'a result) \<Rightarrow>
    int \<Rightarrow> string \<Rightarrow> keyspace \<Rightarrow> 'a result" where
  "spec_read missing view answer now k m =
     (case live now m k of
        None \<Rightarrow> missing
      | Some (p, t) \<Rightarrow> (case view p of None \<Rightarrow> wrong_type | Some x \<Rightarrow> answer x))"

primrec as_string :: "payload \<Rightarrow> string option" where
  "as_string (PString x) = Some x"
| "as_string (PList xs) = None"
| "as_string (PHash h) = None"

primrec as_list :: "payload \<Rightarrow> string list option" where
  "as_list (PString x) = None"
| "as_list (PList xs) = Some xs"
| "as_list (PHash h) = None"

primrec as_hash :: "payload \<Rightarrow> (string \<rightharpoonup> string) option" where
  "as_hash (PString x) = None"
| "as_hash (PList xs) = None"
| "as_hash (PHash h) = Some h"

lemma as_of_value:
  "as_string (payload_of v) = (if vtype v = KString then Some (str_value v) else None)"
  "as_list (payload_of v) = (if vtype v = KList then Some (list_value v) else None)"
  "as_hash (payload_of v) = (if vtype v = KHash then Some (HT_Get (hash_value v)) else None)"
  by (auto simp: payload_of_def split: value_type.split)

lemma read_typed_spec:
  assumes "\<And>v. HT_Get (data s) k = Some v \<Longrightarrow>
    (case view (payload_of v) of None \<Rightarrow> wrong_type | Some x \<Rightarrow> answer x)
      = (if vtype v \<noteq> ty then wrong_type else ans v)"
  shows "fst (read_typed e ty missing ans k s) = spec_read missing view answer (clk e 0) k (keyspace_of s)"
  using assms
  by (auto simp: read_typed_result spec_read_def live_keyspace abs_value_def split: option.split)

text \<open>An enumeration of a field map: every field once, with its value.\<close>

definition enumerates :: "(string \<times> string) list \<Rightarrow> (string \<rightharpoonup> string) \<Rightarrow> bool" where
  "enumerates es h \<longleftrightarrow> distinct (map fst es) \<and> map_of es = h"

lemma collect_entries: "HT_ForEach (\<lambda>k v acc. acc @ [(k, v)]) ht [] = HT_entries ht"
proof -
  have "fold (\<lambda>(k, v) acc. acc @ [(k, v)]) es acc = acc @ es" for es acc :: "(string \<times> 'a) list"
    by (induction es arbitrary: acc) auto
  then show ?thesis by (simp add: HT_ForEach_fold)
qed

lemma collect_vals: "HT_ForEach (\<lambda>k v acc. acc @ [v]) ht [] = map snd (HT_entries ht)"
proof -
  have "fold (\<lambda>(k, v) acc. acc @ [v]) es acc = acc @ map snd es" for es :: "(string \<times> 'a) list" and acc
    by (induction es arbitrary: acc) auto
  then show ?thesis by (simp add: HT_ForEach_fold)
qed

lemma enumerates_entries: "ht_inv h \<Longrightarrow> enumerates (HT_entries h) (HT_Get h)"
  by (simp add: enumerates_def ht.distinct_entries ht.map_of_entries)

section \<open>Properties\<close>

text \<open>An environment in which the clocks stand still, for concrete runs.\<close>

definition still :: "int \<Rightarrow> env" where
  "still t = \<lparr>clk = (\<lambda>_. t), wall = (\<lambda>_. t), rnd = (\<lambda>_ i. i)\<rparr>"

lemma still_fields [simp]: "clk (still t) i = t" "wall (still t) i = t"
  by (simp_all add: still_def)

lemma new_store_keyspace [simp]: "keyspace_of new_store = Map.empty" "max_memory_bytes new_store = 0"
  by (simp_all add: keyspace_of_def new_store_def fun_eq_iff ht.get_new)

lemma live_singleton [simp]: "live now [k \<mapsto> (p, None)] = [k \<mapsto> (p, None)]"
  by (simp add: fun_eq_iff live_def expired_at_def)

lemma new_store_hset:
  "store_inv (snd (HSet e k fvs new_store))"
  "keyspace_of (snd (HSet e k fvs new_store)) = [k \<mapsto> (PHash (map_of (rev fvs)), None)]"
  using keyspace_unlimited(3) [OF store_inv_new, of e k fvs] store_inv_new
  by (simp_all add: push_methods_inv spec_hset_def live_def)

lemma new_store_rpush:
  "store_inv (snd (RPush e k vals new_store))"
  "keyspace_of (snd (RPush e k vals new_store)) = [k \<mapsto> (PList vals, None)]"
  using keyspace_unlimited(2) [OF store_inv_new, of "\<lambda>xs. xs @ vals" e k] push_methods_inv(2) [OF store_inv_new]
  by (simp_all add: pushes_push_with spec_push_def live_def)

text \<open>
  C11: Set stores the string under the key without a deadline, drops any value and deadline the
  key had, and leaves the other keys alone, except that it may evict keys when a memory budget
  is set. With no budget, or with one that the result fits in, a later Get returns the string.
\<close>

theorem store_set_get:
  assumes "store_inv s"
  shows "evicted_from (spec_set k val (keyspace_of s)) (Store_Set e k val s)
    \<and> (keyspace_of (Store_Set e k val s) = spec_set k val (keyspace_of s)
        \<longrightarrow> fst (Store_Get e' k (Store_Set e k val s)) = found val)"
proof -
  have "fst (Store_Get e' k t) = spec_read not_found as_string found (clk e' 0) k (keyspace_of t)" for t
    unfolding Store_Get_def by (rule read_typed_spec) (simp add: as_of_value)
  then show ?thesis
    using Store_Set_refines [OF assms]
    by (simp add: spec_read_def spec_set_def live_def expired_at_def)
qed

theorem store_set_get_witness:
  "store_inv new_store
   \<and> keyspace_of (Store_Set (still 0) ''k'' ''v'' new_store) = [''k'' \<mapsto> (PString ''v'', None)]
   \<and> fst (Store_Get (still 1) ''k'' (Store_Set (still 0) ''k'' ''v'' new_store)) = found ''v''"
proof -
  note p = store_set_get [OF store_inv_new, of "''k''" "''v''" "still 0" "still 1"]
  have "keyspace_of (Store_Set (still 0) ''k'' ''v'' new_store) = [''k'' \<mapsto> (PString ''v'', None)]"
    using keyspace_unlimited(1) [OF store_inv_new] by (simp add: spec_set_def)
  then show ?thesis using p store_inv_new by (simp add: spec_set_def)
qed

lemma read_results:
  assumes inv: "store_inv s"
  shows "fst (Store_Get e k s) = spec_read not_found as_string found (clk e 0) k (keyspace_of s)"
    and "fst (LLen e k s) =
        spec_read (found 0) as_list (\<lambda>xs. found (int_of_size (length xs))) (clk e 0) k (keyspace_of s)"
    and "fst (LRange e k a b s) =
        spec_read (found []) as_list (\<lambda>xs. found (lrange_slice a b xs)) (clk e 0) k (keyspace_of s)"
    and "fst (HGet e k f s) =
        spec_read not_found as_hash (\<lambda>h. \<lparr>res_value = h f, res_error = KNone\<rparr>) (clk e 0) k (keyspace_of s)"
    and "fst (HLen e k s) =
        spec_read (found 0) as_hash (\<lambda>h. found (int_of_size (card (dom h)))) (clk e 0) k (keyspace_of s)"
    and "fst (HExists e k f s) =
        spec_read (found 0) as_hash (\<lambda>h. found (if f \<in> dom h then 1 else 0)) (clk e 0) k (keyspace_of s)"
  unfolding Store_Get_def LLen_def LRange_def HGet_def HLen_def HExists_def
  using store_invD(2) [OF inv]
  by (auto intro!: read_typed_spec simp: as_of_value ht.len_card split: option.split)



lemma hash_listing:
  assumes inv: "store_inv s" and k: "live (clk e 0) (keyspace_of s) k = Some (PHash h, t)"
  shows "\<exists>es. enumerates es h \<and> fst (HGetAll e k s) = found es
    \<and> fst (HKeys e k s) = found (map fst es) \<and> fst (HVals e k s) = found (map snd es)"
proof -
  from k obtain v where v: "HT_Get (data s) k = Some v" "\<not> IsExpired (clk e 0) v"
    and p: "payload_of v = PHash h"
    by (auto simp: live_keyspace abs_value_def split: option.splits if_splits)
  then have ty: "vtype v = KHash" and h: "h = HT_Get (hash_value v)"
    by (auto simp: payload_of_def split: value_type.splits)
  show ?thesis
    unfolding h using enumerates_entries [OF store_invD(2) [OF inv v(1)]] v ty
    by (auto simp: HGetAll_def HKeys_def HVals_def read_typed_result collect_entries collect_vals HT_Keys_entries)
qed

text \<open>
  On a live hash, HGetAll lists every field exactly once with its value, and HKeys and
  HVals are the two halves of that same list, in the same order.
\<close>

theorem hash_enumeration:
  assumes inv: "store_inv s" and k: "live (clk e 0) (keyspace_of s) k = Some (PHash h, t)"
  shows "\<exists>es. enumerates es h \<and> fst (HGetAll e k s) = found es
    \<and> fst (HKeys e k s) = found (map fst es) \<and> fst (HVals e k s) = found (map snd es)"
  using assms by (rule hash_listing)

theorem hash_enumeration_witness:
  "\<exists>es. enumerates es [''f'' \<mapsto> ''x'']
     \<and> fst (HGetAll (still 1) ''h'' (snd (HSet (still 0) ''h'' [(''f'', ''x'')] new_store))) = found es"
  using hash_enumeration [OF new_store_hset(1) [of "still 0" "''h''" "[(''f'', ''x'')]"], of "still 1" "''h''"
      "[''f'' \<mapsto> ''x'']" None] new_store_hset(2) [of "still 0" "''h''" "[(''f'', ''x'')]"]
  by (auto simp: live_def expired_at_def)

text \<open>
  No read changes what any later call can observe. Reads touch recency stamps and delete
  entries they find expired, and from the last clock reading of the call on, the live key space
  is the one it would have been without the call.
\<close>

theorem reads_unobservable:
  assumes inv: "store_inv s" and now: "\<forall>i. clk e i \<le> now"
  shows "live now (keyspace_of (snd (Store_Get e k s))) = live now (keyspace_of s)
    \<and> live now (keyspace_of (snd (LLen e k s))) = live now (keyspace_of s)
    \<and> live now (keyspace_of (snd (LRange e k a b s))) = live now (keyspace_of s)
    \<and> live now (keyspace_of (snd (HGet e k f s))) = live now (keyspace_of s)
    \<and> live now (keyspace_of (snd (HGetAll e k s))) = live now (keyspace_of s)
    \<and> live now (keyspace_of (snd (HLen e k s))) = live now (keyspace_of s)
    \<and> live now (keyspace_of (snd (HExists e k f s))) = live now (keyspace_of s)
    \<and> live now (keyspace_of (snd (HKeys e k s))) = live now (keyspace_of s)
    \<and> live now (keyspace_of (snd (HVals e k s))) = live now (keyspace_of s)
    \<and> live now (keyspace_of (snd (TTL e k s))) = live now (keyspace_of s)
    \<and> live now (keyspace_of (snd (Store_Exists e ks s))) = live now (keyspace_of s)
    \<and> live now (keyspace_of (snd (Store_Keys e s))) = live now (keyspace_of s)
    \<and> live now (keyspace_of (SweepExpired e s)) = live now (keyspace_of s)"
  unfolding Store_Get_def LLen_def LRange_def HGet_def HGetAll_def HLen_def HExists_def HKeys_def HVals_def
    TTL_def Store_Exists_def Store_Keys_def SweepExpired_def
  using inv now
  by (simp add: read_typed_unobservable SweepDelete_unobservable live_after_delete_expired Let_def
      case_prod_beta split: option.split)

theorem reads_unobservable_witness:
  "store_inv (snd (HSet (still 0) ''h'' [(''f'', ''x'')] new_store)) \<and> (\<forall>i. clk (still 1) i \<le> 1)
   \<and> live 1 (keyspace_of (snd (HGet (still 1) ''h'' ''f'' (snd (HSet (still 0) ''h'' [(''f'', ''x'')] new_store)))))
     = [''h'' \<mapsto> (PHash [''f'' \<mapsto> ''x''], None)]"
  using reads_unobservable [OF new_store_hset(1) [of "still 0" "''h''" "[(''f'', ''x'')]"], of "still 1" 1 "''h''" _ _ "''f''"] new_store_hset [of "still 0" "''h''" "[(''f'', ''x'')]"]
  by (simp add: live_def expired_at_def fun_eq_iff)

text \<open>
  C26: LPush and RPush answer the new length and put the values before the list in reverse order,
  respectively after it in order, keeping the key's deadline; they create the list when the key
  is absent or expired, and on a key of another type they report the error and change nothing.
\<close>

theorem pushes_refine:
  assumes "store_inv s"
  shows "(case spec_push (\<lambda>xs. rev vals @ xs) (clk e 0) k (keyspace_of s) of
           None \<Rightarrow> LPush e k vals s = (wrong_type, s)
         | Some (n, m) \<Rightarrow> fst (LPush e k vals s) = found n \<and> evicted_from m (snd (LPush e k vals s)))
    \<and> (case spec_push (\<lambda>xs. xs @ vals) (clk e 0) k (keyspace_of s) of
           None \<Rightarrow> RPush e k vals s = (wrong_type, s)
         | Some (n, m) \<Rightarrow> fst (RPush e k vals s) = found n \<and> evicted_from m (snd (RPush e k vals s)))"
  unfolding pushes_push_with using push_with_refines [OF assms] by blast

theorem pushes_refine_witness:
  "fst (LPush (still 1) ''l'' [''a'', ''b''] (snd (RPush (still 0) ''l'' [''x''] new_store))) = found 3
   \<and> keyspace_of (snd (LPush (still 1) ''l'' [''a'', ''b''] (snd (RPush (still 0) ''l'' [''x''] new_store))))
       = [''l'' \<mapsto> (PList [''b'', ''a'', ''x''], None)]"
proof -
  let ?s = "snd (RPush (still 0) ''l'' [''x''] new_store)"
  have "max_memory_bytes (snd (LPush (still 1) ''l'' [''a'', ''b''] ?s)) = 0"
    by (simp add: pushes_push_with)
  moreover have "int_of_size (Suc (Suc (Suc 0))) = 3" by (simp add: int_of_size_def wrap32_id)
  ultimately show ?thesis
    using pushes_refine [OF new_store_rpush(1) [of "still 0" "''l''" "[''x'']"], where vals = "[''a'', ''b'']" and e = "still 1" and k = "''l''"]
      new_store_rpush(2) [of "still 0" "''l''" "[''x'']"]
    by (simp add: spec_push_def live_def expired_at_def evicted_from_def)
qed

text \<open>
  LRange returns the elements whose position lies between the two bounds, both included,
  where a negative bound counts from the end; out-of-range bounds are cut to the list. (The
  list must be shorter than \<open>2\<^sup>3\<^sup>1\<close> elements, the range of the \<^verbatim>\<open>int\<close> the code computes with.)
\<close>

theorem lrange_selects:
  assumes inv: "store_inv s" and k: "live (clk e 0) (keyspace_of s) k = Some (PList xs, t)"
    and "length xs < 2 ^ 31" and "a \<in> {- (2 ^ 31)..<2 ^ 31}" and "b \<in> {- (2 ^ 31)..<2 ^ 31}"
  shows "fst (LRange e k a b s) = found (redis_range a b xs)"
proof -
  have "fst (LRange e k a b s) =
      spec_read (found []) as_list (\<lambda>xs. found (lrange_slice a b xs)) (clk e 0) k (keyspace_of s)"
    unfolding LRange_def by (rule read_typed_spec) (simp add: as_of_value)
  moreover have "lrange_slice a b xs = redis_range a b xs"
    using assms by (intro lrange_slice_redis_range) auto
  ultimately show ?thesis using k by (simp add: spec_read_def)
qed

theorem lrange_selects_witness:
  "fst (LRange (still 1) ''l'' (- 2) 7 (snd (RPush (still 0) ''l'' [''x'', ''y'', ''z''] new_store)))
     = found [''y'', ''z'']"
proof -
  have "redis_range (- 2) 7 [''x'', ''y'', ''z''] = [''y'', ''z'']"
    by (simp add: redis_range_def redis_index_def upt_rec)
  then show ?thesis
    using lrange_selects [OF new_store_rpush(1) [of "still 0" "''l''" "[''x'', ''y'', ''z'']"],
        of "still 1" "''l''" "[''x'', ''y'', ''z'']" None "- 2" 7]
      new_store_rpush(2) [of "still 0" "''l''" "[''x'', ''y'', ''z'']"]
    by (simp add: live_def expired_at_def)
qed

text \<open>
  C25: HSet overrides the given fields (the last value of a repeated field wins), answers how
  many of them were new, keeps the deadline and creates the hash when the key is absent or
  expired. HDel removes the given fields, answers how many there were, and deletes the key with
  its last field. Both report a key of another type and then change nothing.
\<close>

theorem hash_writes_refine:
  assumes "store_inv s"
  shows "(case spec_hset (clk e 0) k fvs (keyspace_of s) of
           None \<Rightarrow> HSet e k fvs s = (wrong_type, s)
         | Some (n, m) \<Rightarrow> fst (HSet e k fvs s) = found n \<and> evicted_from m (snd (HSet e k fvs s)))
    \<and> (case spec_hdel (clk e 0) k fs (keyspace_of s) of
           None \<Rightarrow> HDel e k fs s = (wrong_type, s)
         | Some (n, m) \<Rightarrow> fst (HDel e k fs s) = found n \<and> keyspace_of (snd (HDel e k fs s)) = m)"
  using HSet_refines [OF assms] HDel_refines [OF assms] by blast

theorem hash_writes_refine_witness:
  "fst (HDel (still 1) ''h'' [''f'', ''g''] (snd (HSet (still 0) ''h'' [(''f'', ''x'')] new_store))) = found 1
   \<and> keyspace_of (snd (HDel (still 1) ''h'' [''f'', ''g''] (snd (HSet (still 0) ''h'' [(''f'', ''x'')] new_store))))
       = Map.empty"
proof -
  have "[''f'' \<mapsto> ''x''] |` (- {''f'', ''g''}) = Map.empty"
    by (auto simp: restrict_map_def)
  then show ?thesis
    using hash_writes_refine [OF new_store_hset(1) [of "still 0" "''h''" "[(''f'', ''x'')]"],
        where e = "still 1" and k = "''h''" and fs = "[''f'', ''g'']"]
      new_store_hset(2) [of "still 0" "''h''" "[(''f'', ''x'')]"]
    by (simp add: spec_hdel_def live_def expired_at_def Let_def)
qed

text \<open>
  Del removes exactly the given keys, whatever their type, and answers the number of
  distinct given keys that were live when the loop came to them. Exists answers the number of
  given keys that are live, a repeated key counting each time.
\<close>

theorem del_exists_count:
  assumes inv: "store_inv s"
  shows "keyspace_of (snd (Store_Del e ks s)) = keyspace_of s |` (- set ks)
    \<and> fst (Store_Del e ks s) = int (card {k \<in> set ks. is_live (clk e (position k ks)) (keyspace_of s) k})
    \<and> fst (Store_Exists e ks s) =
        int (length (filter (\<lambda>i. is_live (clk e i) (keyspace_of s) (ks ! i)) [0..<length ks]))"
  using del_loop_keyspace [OF inv] del_loop_count [OF inv] exists_scan_count [of "clk e" ks s]
  by (simp add: Store_Del_def Store_Exists_def Let_def case_prod_beta)

theorem del_exists_count_witness:
  "fst (Store_Exists (still 1) [''h'', ''h'', ''j''] (snd (HSet (still 0) ''h'' [(''f'', ''x'')] new_store))) = 2
   \<and> fst (Store_Del (still 1) [''h'', ''h'', ''j''] (snd (HSet (still 0) ''h'' [(''f'', ''x'')] new_store))) = 1"
proof -
  let ?m = "[''h'' \<mapsto> (PHash [''f'' \<mapsto> ''x''], None)] :: keyspace"
  have l: "is_live 1 ?m k \<longleftrightarrow> k = ''h''" for k
    by (simp add: is_live_def dom_def live_def expired_at_def)
  have c: "{k \<in> set [''h'', ''h'', ''j'']. k = ''h''} = {''h''}" by auto
  show ?thesis
    using del_exists_count [OF new_store_hset(1) [of "still 0" "''h''" "[(''f'', ''x'')]"],
        of "still 1" "[''h'', ''h'', ''j'']"] new_store_hset(2) [of "still 0" "''h''" "[(''f'', ''x'')]"]
      c [THEN arg_cong [where f = card]]
    by (simp add: l upt_rec)
qed

lemma Store_Keys_bounds:
  assumes inv: "store_inv s" and "\<forall>i. t0 \<le> clk e i \<and> clk e i \<le> t1"
  shows "distinct (fst (Store_Keys e s)) \<and> dom (live t1 (keyspace_of s)) \<subseteq> set (fst (Store_Keys e s))
    \<and> set (fst (Store_Keys e s)) \<subseteq> dom (live t0 (keyspace_of s))"
proof -
  note wf = store_invD(1) [OF inv]
  have dom: "dom (live t (keyspace_of s)) = {k. \<exists>v. (k, v) \<in> set (HT_entries (data s)) \<and> \<not> IsExpired t v}" for t
    by (auto simp: dom_def live_keyspace ht.in_entries_iff [OF wf] split: option.splits)
  show ?thesis
    using live_entries_bounds [of t0 "clk e" t1 "HT_entries (data s)"] assms(2)
      live_entries_distinct [OF ht.distinct_entries [OF wf], of "clk e"]
    by (simp add: Store_Keys_def Let_def dom)
qed

text \<open>
  Keys lists no key twice, every key that is live throughout the call, and no key that was
  already expired when it began.
\<close>

theorem keys_lists_live:
  assumes inv: "store_inv s" and "\<forall>i. t0 \<le> clk e i \<and> clk e i \<le> t1"
  shows "distinct (fst (Store_Keys e s)) \<and> dom (live t1 (keyspace_of s)) \<subseteq> set (fst (Store_Keys e s))
    \<and> set (fst (Store_Keys e s)) \<subseteq> dom (live t0 (keyspace_of s))"
  using assms by (rule Store_Keys_bounds)

theorem keys_lists_live_witness:
  "fst (Store_Keys (still 1) (snd (HSet (still 0) ''h'' [(''f'', ''x'')] new_store))) = [''h'']"
proof -
  let ?ks = "fst (Store_Keys (still 1) (snd (HSet (still 0) ''h'' [(''f'', ''x'')] new_store)))"
  have "distinct ?ks \<and> set ?ks = {''h''}"
    using keys_lists_live [OF new_store_hset(1) [of "still 0" "''h''" "[(''f'', ''x'')]"], of 1 "still 1" 1]
      new_store_hset(2) [of "still 0" "''h''" "[(''f'', ''x'')]"]
    by auto
  then show ?thesis by (simp add: distinct_set_singleton)
qed

lemma Expire_refines:
  assumes inv: "store_inv s" and "0 \<le> clk e 1" and "clk e 1 + seconds * ns_per_second < 2 ^ 63"
  shows "case live (clk e 0) (keyspace_of s) k of
      None \<Rightarrow> fst (Expire e k seconds s) = False
        \<and> keyspace_of (snd (Expire e k seconds s)) = (keyspace_of s)(k := None)
    | Some (p, t) \<Rightarrow> fst (Expire e k seconds s) = True
        \<and> keyspace_of (snd (Expire e k seconds s)) =
            (if seconds \<le> 0 then (keyspace_of s)(k := None)
             else (keyspace_of s)(k \<mapsto> (p, Some (clk e 1 + seconds * ns_per_second))))"
proof -
  have "wrap64 (clk e 1 + wrap64 (seconds * ns_per_second)) = clk e 1 + seconds * ns_per_second" if "0 < seconds"
    using assms(2,3) that by (simp add: wrap64_id ns_per_second_def)
  moreover have "abs_value (v\<lparr>expires_at := t\<rparr>) = (payload_of v, t)" for v t
    by (simp add: abs_value_def payload_of_def split: value_type.split)
  ultimately show ?thesis
    using inv
    by (auto simp: Expire_def live_keyspace keyspace_remove keyspace_write abs_value_def keyspace_of_apply
        fun_upd_idem split: option.split)
qed

text \<open>
  Expire on an absent or expired key answers false and leaves it absent; on a live key with
  a period of zero or less it deletes the key; otherwise it sets the deadline to the clock
  reading plus the period, keeping the payload, as long as that instant fits the 64-bit clock.
\<close>

theorem expire_sets_deadline:
  assumes inv: "store_inv s" and "0 \<le> clk e 1" and "clk e 1 + seconds * ns_per_second < 2 ^ 63"
  shows "case live (clk e 0) (keyspace_of s) k of
      None \<Rightarrow> fst (Expire e k seconds s) = False
        \<and> keyspace_of (snd (Expire e k seconds s)) = (keyspace_of s)(k := None)
    | Some (p, t) \<Rightarrow> fst (Expire e k seconds s) = True
        \<and> keyspace_of (snd (Expire e k seconds s)) =
            (if seconds \<le> 0 then (keyspace_of s)(k := None)
             else (keyspace_of s)(k \<mapsto> (p, Some (clk e 1 + seconds * ns_per_second))))"
  using assms by (rule Expire_refines)

theorem expire_sets_deadline_witness:
  "fst (Expire (still 5) ''h'' 2 (snd (RPush (still 0) ''h'' [''x''] new_store)))
   \<and> keyspace_of (snd (Expire (still 5) ''h'' 2 (snd (RPush (still 0) ''h'' [''x''] new_store))))
       = [''h'' \<mapsto> (PList [''x''], Some 2000000005)]"
  using expire_sets_deadline [OF new_store_rpush(1) [of "still 0" "''h''" "[''x'']"], of "still 5" 2 "''h''"]
    new_store_rpush(2) [of "still 0" "''h''" "[''x'']"]
  by (simp add: ns_per_second_def)

lemma sdiv_nonneg: "0 \<le> a \<Longrightarrow> 0 < b \<Longrightarrow> (a::int) sdiv b = a div b"
  by (cases "a = 0") (simp_all add: signed_divide_int_def)

lemma TTL_remaining:
  assumes "live (clk e 0) (keyspace_of s) k = Some (p, Some t)" and "clk e 1 \<le> t" and "t - clk e 1 < 2 ^ 63"
  shows "fst (TTL e k s) = ((t - clk e 1) div ns_per_ms + 500) div 1000"
proof -
  obtain v where "HT_Get (data s) k = Some v" "\<not> IsExpired (clk e 0) v" "expires_at v = Some t"
    using assms(1) by (auto simp: live_keyspace abs_value_def split: option.splits if_splits)
  then show ?thesis
    using assms(2,3) by (simp add: TTL_def Let_def wrap64_id sdiv_nonneg pos_imp_zdiv_nonneg_iff ns_per_ms_def)
qed

lemma TTL_no_deadline:
  "live (clk e 0) (keyspace_of s) k = None \<Longrightarrow> fst (TTL e k s) = - 2"
  "live (clk e 0) (keyspace_of s) k = Some (p, None) \<Longrightarrow> fst (TTL e k s) = - 1"
  by (auto simp: live_keyspace abs_value_def TTL_def split: option.splits if_splits)

text \<open>
  TTL answers -2 for an absent or expired key and -1 for a live key without a deadline. For a
  deadline not yet reached at the second clock reading it answers the remaining time to the
  nearest second (the remainder is cut to milliseconds first), which is never negative.
\<close>

theorem ttl_reports_remaining:
  assumes "store_inv s"
  shows "case live (clk e 0) (keyspace_of s) k of
      None \<Rightarrow> fst (TTL e k s) = - 2
    | Some (p, None) \<Rightarrow> fst (TTL e k s) = - 1
    | Some (p, Some t) \<Rightarrow> clk e 1 \<le> t \<and> t - clk e 1 < 2 ^ 63 \<longrightarrow>
        0 \<le> fst (TTL e k s)
        \<and> fst (TTL e k s) * ns_per_second \<le> (t - clk e 1) + 500 * ns_per_ms
        \<and> (t - clk e 1) < (fst (TTL e k s) * 1000 + 501) * ns_per_ms"
proof -
  have round: "0 \<le> (d div ns_per_ms + 500) div 1000
      \<and> (d div ns_per_ms + 500) div 1000 * ns_per_second \<le> d + 500 * ns_per_ms
      \<and> d < ((d div ns_per_ms + 500) div 1000 * 1000 + 501) * ns_per_ms" if "0 \<le> d" for d
    using that by (auto simp: ns_per_ms_def ns_per_second_def)
  then show ?thesis
    using TTL_remaining [of e s k] TTL_no_deadline [of e s k] by (auto split: option.split)
qed

lemma expired_list_example:
  "store_inv (snd (Expire (still 5) ''h'' 2 (snd (RPush (still 0) ''h'' [''x''] new_store))))"
  "keyspace_of (snd (Expire (still 5) ''h'' 2 (snd (RPush (still 0) ''h'' [''x''] new_store))))
     = [''h'' \<mapsto> (PList [''x''], Some 2000000005)]"
  using Expire_refines [OF new_store_rpush(1) [of "still 0" "''h''" "[''x'']"], of "still 5" 2 "''h''"]
    new_store_rpush [of "still 0" "''h''" "[''x'']"]
  by (simp_all add: ns_per_second_def keyspace_methods_inv)

theorem ttl_reports_remaining_witness:
  "fst (TTL (still 1) ''h'' (snd (RPush (still 0) ''h'' [''x''] new_store))) = - 1
   \<and> fst (TTL (still 5) ''h'' (snd (Expire (still 5) ''h'' 2 (snd (RPush (still 0) ''h'' [''x''] new_store))))) = 2"
  using ttl_reports_remaining [OF new_store_rpush(1) [of "still 0" "''h''" "[''x'']"], of "still 1" "''h''"]
    ttl_reports_remaining [OF expired_list_example(1), of "still 5" "''h''"]
    new_store_rpush(2) [of "still 0" "''h''" "[''x'']"] expired_list_example(2)
  by (simp add: live_def expired_at_def ns_per_ms_def ns_per_second_def)

section \<open>Sweep and eviction\<close>

lemma SweepDelete_keyspace:
  assumes "store_inv s"
  shows "keyspace_of (SweepDelete now ks s) \<subseteq>\<^sub>m keyspace_of s"
    and "k \<notin> set ks \<Longrightarrow> keyspace_of (SweepDelete now ks s) k = keyspace_of s k"
    and "k \<in> set ks \<Longrightarrow> (\<And>i. live (now i) (keyspace_of s) k = None) \<Longrightarrow> keyspace_of (SweepDelete now ks s) k = None"
  using assms
proof (induction now ks s rule: SweepDelete.induct)
  case (2 now key keys s)
  let ?s = "snd (DeleteIfExpired (now 0) key s)"
  note abs = keyspace_delete_expired [of s "now 0" key]
  {
    case 1
    have "keyspace_of ?s \<subseteq>\<^sub>m keyspace_of s" using abs 1 by (auto simp: map_le_def)
    then show ?case using "2.IH"(1) 1 by (auto intro: map_le_trans simp: DeleteIfExpired_inv)
  next
    case 2
    then show ?case using "2.IH"(2) abs by (simp add: DeleteIfExpired_inv)
  next
    case 3
    have gone: "keyspace_of ?s key = None" if "live (now 0) (keyspace_of s) key = None"
      using abs 3 that by simp
    have "keyspace_of (SweepDelete (\<lambda>i. now (Suc i)) keys ?s) k = None" if "keyspace_of ?s k = None"
      using map_le_None [OF "2.IH"(1) that] 3(3) by (simp add: DeleteIfExpired_inv)
    moreover have "live t (keyspace_of ?s) k = None" if "live t (keyspace_of s) k = None" for t
      using abs 3(3) that by (auto simp: live_def)
    ultimately show ?case
      using gone 3 "2.IH"(3) by (cases "k = key") (auto simp: DeleteIfExpired_inv)
  }
qed auto

lemma expired_entries_complete:
  "(k, v) \<in> set es \<Longrightarrow> (\<And>i. IsExpired (now i) v) \<Longrightarrow> k \<in> set (expired_entries now es)"
  by (induction now es rule: expired_entries.induct) auto

lemma live_le: "live t m \<subseteq>\<^sub>m m"
  by (auto simp: map_le_def live_def dom_def split: option.splits if_splits)

text \<open>
  C32: A sweep removes every key that was expired when it began and keeps every key that is still
  live when it ends; what it keeps is unchanged.
\<close>

theorem sweep_removes_expired:
  assumes inv: "store_inv s" and mono: "mono (clk e)" and t1: "\<forall>i. clk e i \<le> t1"
  shows "live t1 (keyspace_of s) \<subseteq>\<^sub>m keyspace_of (SweepExpired e s)
    \<and> keyspace_of (SweepExpired e s) \<subseteq>\<^sub>m live (clk e 0) (keyspace_of s)"
proof -
  define now where "now = (\<lambda>i. clk e (HT_Len (data s) + i))"
  have sweep: "SweepExpired e s = SweepDelete now (SweepScan (clk e) s) s"
    by (simp add: SweepExpired_def Let_def now_def)
  have "live t1 (keyspace_of (SweepExpired e s)) = live t1 (keyspace_of s)"
    unfolding sweep using inv t1 by (intro SweepDelete_unobservable) (simp_all add: now_def)
  then have "live t1 (keyspace_of s) \<subseteq>\<^sub>m keyspace_of (SweepExpired e s)"
    using live_le [of t1 "keyspace_of (SweepExpired e s)"] by simp
  moreover have "keyspace_of (SweepExpired e s) k = live (clk e 0) (keyspace_of s) k"
    if some: "keyspace_of (SweepExpired e s) k \<noteq> None" for k
  proof (cases "live (clk e 0) (keyspace_of s) k")
    case None
    have le: "keyspace_of (SweepExpired e s) \<subseteq>\<^sub>m keyspace_of s"
      unfolding sweep using inv by (rule SweepDelete_keyspace(1))
    then obtain v where v: "HT_Get (data s) k = Some v"
      using map_le_None [OF le, of k] some by (cases "HT_Get (data s) k") (auto simp: keyspace_of_apply)
    have exp: "IsExpired (clk e i) v" for i
      using None v monoD [OF mono, of 0 i] by (auto simp: live_keyspace IsExpired_def split: option.splits if_splits)
    then have "k \<in> set (SweepScan (clk e) s)"
      using v ht.in_entries_iff [OF store_invD(1) [OF inv], of k v]
      unfolding SweepScan_def by (intro expired_entries_complete) auto
    moreover have "live (now i) (keyspace_of s) k = None" for i
      using exp v by (simp add: live_keyspace now_def)
    ultimately have "keyspace_of (SweepExpired e s) k = None"
      unfolding sweep using inv by (intro SweepDelete_keyspace(3))
    then show ?thesis using some by simp
  next
    case (Some pt)
    then have "keyspace_of s k = Some pt"
      using live_le [of "clk e 0" "keyspace_of s"] by (force simp: map_le_def dom_def)
    moreover have "keyspace_of (SweepExpired e s) k = keyspace_of s k"
      using SweepDelete_keyspace(1) [OF inv, of now "SweepScan (clk e) s"] some
      by (auto simp: sweep map_le_def dom_def)
    ultimately show ?thesis using Some by simp
  qed
  ultimately show ?thesis by (auto simp: map_le_def dom_def)
qed

theorem sweep_removes_expired_witness:
  "keyspace_of (SweepExpired (still 3000000000)
     (snd (Expire (still 5) ''h'' 2 (snd (RPush (still 0) ''h'' [''x''] new_store))))) = Map.empty"
proof -
  let ?s = "snd (Expire (still 5) ''h'' 2 (snd (RPush (still 0) ''h'' [''x''] new_store)))"
  have "live 3000000000 (keyspace_of ?s) = Map.empty"
    unfolding expired_list_example(2) by (simp add: fun_eq_iff live_def expired_at_def)
  then have "keyspace_of (SweepExpired (still 3000000000) ?s) \<subseteq>\<^sub>m Map.empty"
    using sweep_removes_expired [OF expired_list_example(1), of "still 3000000000" 3000000000]
    by (simp add: mono_def)
  then show ?thesis
    using map_le_None by fastforce
qed



end
