(* ===== verification/Store_Lifecycle.thy ===== *)
theory Store_Lifecycle
  imports Store_Props
begin

text \<open>
  What happens to entries over the life of a store: eviction by approximate recency, capture
  into a snapshot and restoration after a restart, and the corners of the two clocks.
\<close>

section \<open>Eviction\<close>

lemma concat_nonempty_length: "(\<And>b. b \<in> set bs \<Longrightarrow> b \<noteq> []) \<Longrightarrow> length bs \<le> length (concat bs)"
proof (induction bs)
  case (Cons b bs)
  then have "b \<noteq> []" "length bs \<le> length (concat bs)" by auto
  then show ?case by (cases b) auto
qed simp

text \<open>The load factor keeps some bucket empty in every table.\<close>

lemma empty_bucket_exists:
  assumes "ht_inv ht"
  obtains i where "i < length (buckets ht)" and "buckets ht ! i = []"
proof -
  have "0 < length (buckets ht)" "4 * num_entries ht \<le> 3 * length (buckets ht)"
    "num_entries ht = length (concat (buckets ht))"
    using assms ht_wf_pos [OF ht_inv_wf [OF assms]]
    by (auto simp: ht_inv_def ht_wf_def ht_balanced_def HT_entries_def)
  then have "\<not> length (buckets ht) \<le> length (concat (buckets ht))" by linarith
  then obtain b where "b \<in> set (buckets ht)" "b = []"
    using concat_nonempty_length [of "buckets ht"] by auto
  then show thesis using that by (metis in_set_conv_nth)
qed

lemma unlucky_sample:
  assumes "ht_inv ht"
  shows "\<exists>draw. SampleKeys draw n ht = []"
proof -
  obtain i where "i < length (buckets ht)" "buckets ht ! i = []"
    using empty_bucket_exists [OF assms] .
  then have "SampleKeys (\<lambda>_. i) n ht = []"
    by (simp add: SampleKeys_def sample_loop_all_empty)
  then show ?thesis by blast
qed

section \<open>Snapshots\<close>

lemma snapshot_loop_keys: "map se_key (snapshot_loop now a b es) = live_entries now es"
  by (induction now a b es rule: snapshot_loop.induct) (simp_all add: snapshot_of_def)

lemma snapshot_of_key [simp]: "se_key (snapshot_of a b k v) = k"
  by (simp add: snapshot_of_def)

lemma snapshot_loop_entries:
  "en \<in> set (snapshot_loop now a b es) \<Longrightarrow> \<exists>k v. (k, v) \<in> set es \<and> en = snapshot_of a b k v"
  by (induction now a b es rule: snapshot_loop.induct) (auto split: if_splits)

text \<open>What a snapshot entry becomes in the key space it is loaded into; \<open>None\<close> when it has expired.\<close>

definition restore :: "int \<Rightarrow> int \<Rightarrow> snapshot_entry \<Rightarrow> (payload \<times> int option) option" where
  "restore steady_now wall_now en =
     (let v = abs_value (value_of_snapshot steady_now wall_now en) in
      case se_expires_at_wall en of
        None \<Rightarrow> Some v
      | Some t \<Rightarrow> if t \<le> wall_now then None else Some v)"

lemma load_entry_keyspace:
  assumes inv: "store_inv s" and fresh: "HT_Get (data s) (se_key en) = None"
  shows "keyspace_of (load_entry a b en s) = (keyspace_of s)(se_key en := restore a b en)"
proof -
  let ?v = "value_of_snapshot a b en"
  let ?s = "recount (se_key en) 0 (s\<lparr>data := snd (HT_Set (se_key en) ?v (data s))\<rparr>)"
  have "store_inv ?s"
    using inv by (rule put_recount_inv) (simp_all add: fresh value_of_snapshot_hash)
  then have "keyspace_of (Touch (se_key en) ?s) = (keyspace_of s)(se_key en \<mapsto> abs_value ?v)"
    by (simp add: keyspace_Touch keyspace_put inv)
  then show ?thesis
    using fresh
    by (auto simp: load_entry_def restore_def Let_def fun_upd_idem keyspace_of_apply split: option.split)
qed

lemma load_entries_keyspace:
  assumes "store_inv s" and "distinct (map se_key ens)" and "\<forall>en \<in> set ens. HT_Get (data s) (se_key en) = None"
  shows "(\<forall>en \<in> set ens. keyspace_of (fold (load_entry a b) ens s) (se_key en) = restore a b en)
    \<and> (\<forall>k. k \<notin> se_key ` set ens \<longrightarrow> keyspace_of (fold (load_entry a b) ens s) k = keyspace_of s k)"
  using assms
proof (induction ens arbitrary: s)
  case (Cons en ens)
  let ?s = "load_entry a b en s"
  have inv: "store_inv ?s" and abs: "keyspace_of ?s = (keyspace_of s)(se_key en := restore a b en)"
    using Cons.prems by (simp_all add: load_entry_inv load_entry_keyspace)
  have "\<forall>x \<in> set ens. HT_Get (data ?s) (se_key x) = None"
    using Cons.prems store_invD(1) [OF Cons.prems(1)]
    by (auto simp: load_entry_get image_iff)
  then show ?case
    using Cons.IH [OF inv] Cons.prems(2) by (auto simp: abs)
qed simp

lemma deadlines:
  "expires_at (value_of_snapshot a' b' en) =
     (case se_expires_at_wall en of None \<Rightarrow> None | Some t \<Rightarrow> Some (wrap64 (a' + wrap64 (t - b'))))"
  "expires_at v = None \<Longrightarrow> se_expires_at_wall (snapshot_of a b k v) = None"
  by (simp_all add: value_of_snapshot_def snapshot_of_def)

lemma restored_payload:
  assumes "ht_inv (hash_value v)"
  shows "payload_of (value_of_snapshot a' b' (snapshot_of a b k v)) = payload_of v"
proof -
  have "HT_Get (fold (\<lambda>(f, w) h. snd (HT_Set f w h)) (HT_entries (hash_value v)) HT_new) = HT_Get (hash_value v)"
    using ht.get_put_all [OF HT_new_inv, of "HT_entries (hash_value v)"] ht.map_of_entries [OF assms]
      map_of_mset_eq [of "HT_entries (hash_value v)" "rev (HT_entries (hash_value v))"] ht.distinct_entries [OF assms]
    by (simp add: ht.get_new)
  then show ?thesis
    by (simp add: value_of_snapshot_def snapshot_of_def payload_of_def collect_entries split: value_type.split)
qed

text \<open>
  The deadline a restart gives an entry, when no instant involved exceeds the 64-bit clocks:
  the remaining time, cut to milliseconds, counted on from the wall clock of the capture.
\<close>

definition wall_deadline :: "int \<Rightarrow> int \<Rightarrow> int \<Rightarrow> int" where
  "wall_deadline steady_now wall_now d = wall_now + (d - steady_now) div ns_per_ms * ns_per_ms"

definition carried_over :: "env \<Rightarrow> env \<Rightarrow> payload \<times> int option \<Rightarrow> (payload \<times> int option) option" where
  "carried_over e e' = (\<lambda>(p, t). case t of
       None \<Rightarrow> Some (p, None)
     | Some d \<Rightarrow>
         (let w = wall_deadline (clk e 0) (wall e 0) d in
          if w \<le> wall e' 0 then None else Some (p, Some (clk e' 0 + (w - wall e' 0)))))"

definition clock_fits :: "int \<Rightarrow> bool" where
  "clock_fits t \<longleftrightarrow> 0 \<le> t \<and> t < 2 ^ 61"

lemma snapshot_deadline:
  assumes "clock_fits (clk e 0)" "clock_fits (wall e 0)" "clock_fits d" "clk e 0 < d" "expires_at v = Some d"
  shows "se_expires_at_wall (snapshot_of (clk e 0) (wall e 0) k v) = Some (wall_deadline (clk e 0) (wall e 0) d)"
    and "0 \<le> wall_deadline (clk e 0) (wall e 0) d" and "wall_deadline (clk e 0) (wall e 0) d < 2 ^ 62"
proof -
  have "0 \<le> (d - clk e 0) div ns_per_ms * ns_per_ms" "(d - clk e 0) div ns_per_ms * ns_per_ms \<le> d - clk e 0"
    using assms by (auto simp: ns_per_ms_def pos_imp_zdiv_nonneg_iff)
  then show w: "0 \<le> wall_deadline (clk e 0) (wall e 0) d" "wall_deadline (clk e 0) (wall e 0) d < 2 ^ 62"
    using assms by (auto simp: wall_deadline_def clock_fits_def)
  have "wrap64 (d - clk e 0) = d - clk e 0"
    using assms by (intro wrap64_id) (auto simp: clock_fits_def)
  moreover have "wrap64 (wall_deadline (clk e 0) (wall e 0) d) = wall_deadline (clk e 0) (wall e 0) d"
    using w by (intro wrap64_id) auto
  ultimately show "se_expires_at_wall (snapshot_of (clk e 0) (wall e 0) k v) = Some (wall_deadline (clk e 0) (wall e 0) d)"
    using assms by (simp add: snapshot_of_def wall_deadline_def sdiv_nonneg ns_per_ms_def)
qed

lemma restore_deadline:
  assumes "se_expires_at_wall en = Some w" "0 \<le> w" "w < 2 ^ 62" and "clock_fits (clk e' 0)" "clock_fits (wall e' 0)"
  shows "restore (clk e' 0) (wall e' 0) en =
    (if w \<le> wall e' 0 then None
     else Some (payload_of (value_of_snapshot (clk e' 0) (wall e' 0) en), Some (clk e' 0 + (w - wall e' 0))))"
proof -
  have "wrap64 (w - wall e' 0) = w - wall e' 0" "wrap64 (clk e' 0 + (w - wall e' 0)) = clk e' 0 + (w - wall e' 0)"
    using assms by (auto simp: clock_fits_def intro!: wrap64_id)
  then show ?thesis using assms(1) by (simp add: restore_def abs_value_def deadlines(1) Let_def)
qed

lemma restore_snapshot:
  assumes v: "ht_inv (hash_value v)" and d: "case expires_at v of None \<Rightarrow> True | Some d \<Rightarrow> clock_fits d \<and> clk e 0 < d"
    and fits: "clock_fits (clk e 0)" "clock_fits (wall e 0)" "clock_fits (clk e' 0)" "clock_fits (wall e' 0)"
  shows "restore (clk e' 0) (wall e' 0) (snapshot_of (clk e 0) (wall e 0) k v) = carried_over e e' (abs_value v)"
proof (cases "expires_at v")
  case None
  then show ?thesis
    by (simp add: restore_def carried_over_def abs_value_def restored_payload [OF v] deadlines)
next
  case (Some d)
  note w = snapshot_deadline [OF fits(1,2) _ _ Some]
  show ?thesis
    using d Some restore_deadline [OF w fits(3,4)]
    by (simp add: carried_over_def abs_value_def restored_payload [OF v] Let_def)
qed

lemma snapshot_loop_bounds:
  assumes "distinct (map fst es)" and "(k, v) \<in> set es"
  shows "(\<And>i. \<not> IsExpired (now i) v) \<Longrightarrow> snapshot_of a b k v \<in> set (snapshot_loop now a b es)"
    and "(\<And>i. IsExpired (now i) v) \<Longrightarrow> k \<notin> se_key ` set (snapshot_loop now a b es)"
proof -
  show "snapshot_of a b k v \<in> set (snapshot_loop now a b es)" if "\<And>i. \<not> IsExpired (now i) v"
    using that assms(2) by (induction now a b es rule: snapshot_loop.induct) auto
  have keys: "se_key ` set (snapshot_loop now a b es) \<subseteq> fst ` set es" for now es
    using live_entries_subseq [of now es] snapshot_loop_keys [of now a b es] by (metis list.set_map)
  show "k \<notin> se_key ` set (snapshot_loop now a b es)" if "\<And>i. IsExpired (now i) v"
    using that assms
  proof (induction now a b es rule: snapshot_loop.induct)
    case (2 now a b key w rest)
    have "se_key ` set (snapshot_loop (\<lambda>i. now (Suc i)) a b rest) \<subseteq> fst ` set rest"
      using live_entries_subseq [of "\<lambda>i. now (Suc i)" rest] snapshot_loop_keys [of "\<lambda>i. now (Suc i)" a b rest]
      by (metis list.set_map)
    then show ?case
      using 2 by (cases "key = k") (force split: if_splits)+
  qed simp
qed

lemma LoadSnapshot_keyspace:
  assumes "distinct (map se_key ens)" and "max_memory_bytes s = 0"
  shows "en \<in> set ens \<Longrightarrow> keyspace_of (LoadSnapshot e ens s) (se_key en) = restore (clk e 0) (wall e 0) en"
    and "k \<notin> se_key ` set ens \<Longrightarrow> keyspace_of (LoadSnapshot e ens s) k = None"
proof -
  define s0 where "s0 = s\<lparr>data := HT_Clear (data s), used_memory_bytes := 0\<rparr>"
  have s0: "store_inv s0" "HT_Get (data s0) = Map.empty" "keyspace_of s0 = Map.empty"
    by (simp_all add: s0_def store_inv_def table_simps ht.sum_clear keyspace_of_def fun_eq_iff)
  have "max_memory_bytes (fold (load_entry a b) ens t) = max_memory_bytes t" for a b t
    by (induction ens arbitrary: t) simp_all
  then have "LoadSnapshot e ens s = fold (load_entry (clk e 0) (wall e 0)) ens s0"
    using assms(2) by (simp add: LoadSnapshot_def EvictIfOverBudget_unlimited s0_def)
  moreover have "\<forall>en \<in> set ens. HT_Get (data s0) (se_key en) = None" by (simp add: s0(2))
  note load_entries_keyspace [OF s0(1) assms(1) this, of "clk e 0" "wall e 0"]
  ultimately show "en \<in> set ens \<Longrightarrow> keyspace_of (LoadSnapshot e ens s) (se_key en) = restore (clk e 0) (wall e 0) en"
    and "k \<notin> se_key ` set ens \<Longrightarrow> keyspace_of (LoadSnapshot e ens s) k = None"
    using s0(3) by simp_all
qed

text \<open>Which keys a snapshot has, and what it records of them.\<close>

lemma snapshot_contents:
  assumes inv: "store_inv s"
  shows "distinct (map se_key (Snapshot e s))"
    and "\<forall>i. clk e i \<le> t1 \<Longrightarrow> live t1 (keyspace_of s) k = Some pt \<Longrightarrow>
      \<exists>v. HT_Get (data s) k = Some v \<and> pt = abs_value v \<and> (\<forall>i. \<not> IsExpired (clk e i) v)
        \<and> snapshot_of (clk e 0) (wall e 0) k v \<in> set (Snapshot e s)"
    and "mono (clk e) \<Longrightarrow> live (clk e 0) (keyspace_of s) k = None \<Longrightarrow> k \<notin> se_key ` set (Snapshot e s)"
    and "en \<in> set (Snapshot e s) \<Longrightarrow> \<exists>k v. HT_Get (data s) k = Some v \<and> en = snapshot_of (clk e 0) (wall e 0) k v"
proof -
  define es where "es = HT_entries (data s)"
  note wf = store_invD(1) [OF inv]
  have dist: "distinct (map fst es)" using ht.distinct_entries [OF wf] by (simp add: es_def)
  have entry: "(k, v) \<in> set es \<longleftrightarrow> HT_Get (data s) k = Some v" for k v
    by (simp add: es_def ht.in_entries_iff [OF wf])
  have snap: "Snapshot e s = snapshot_loop (\<lambda>i. clk e (Suc i)) (clk e 0) (wall e 0) es"
    by (simp add: Snapshot_def es_def)
  show "distinct (map se_key (Snapshot e s))"
    unfolding snap snapshot_loop_keys using dist by (rule live_entries_distinct)
  show from_table: "\<exists>k v. HT_Get (data s) k = Some v \<and> en = snapshot_of (clk e 0) (wall e 0) k v"
    if "en \<in> set (Snapshot e s)" for en
    using that snapshot_loop_entries unfolding snap entry [symmetric] by blast
  show "\<exists>v. HT_Get (data s) k = Some v \<and> pt = abs_value v \<and> (\<forall>i. \<not> IsExpired (clk e i) v)
        \<and> snapshot_of (clk e 0) (wall e 0) k v \<in> set (Snapshot e s)"
    if t1: "\<forall>i. clk e i \<le> t1" and live: "live t1 (keyspace_of s) k = Some pt"
  proof -
    obtain v where v: "HT_Get (data s) k = Some v" "\<not> IsExpired t1 v" "pt = abs_value v"
      using live by (auto simp: live_keyspace split: option.splits if_splits)
    moreover have alive: "\<not> IsExpired (clk e i) v" for i
      using v(2) spec [OF t1, of i] by (auto simp: IsExpired_def split: option.splits)
    moreover have "snapshot_of (clk e 0) (wall e 0) k v \<in> set (Snapshot e s)"
      unfolding snap using alive entry v(1) by (intro snapshot_loop_bounds(1) [OF dist]) simp_all
    ultimately show ?thesis by blast
  qed
  show "k \<notin> se_key ` set (Snapshot e s)"
    if mono: "mono (clk e)" and dead: "live (clk e 0) (keyspace_of s) k = None"
  proof (cases "HT_Get (data s) k")
    case None
    then show ?thesis using from_table by force
  next
    case (Some v)
    then have "IsExpired (clk e (Suc i)) v" for i
      using dead monoD [OF mono, of 0 "Suc i"]
      by (auto simp: live_keyspace IsExpired_def split: option.splits if_splits)
    then show ?thesis
      unfolding snap using entry Some by (intro snapshot_loop_bounds(2) [OF dist]) simp_all
  qed
qed

section \<open>Properties\<close>

text \<open>
  C19: Capturing a store and loading the snapshot into a store without a budget restores every
  key that was live throughout the capture: the payload unchanged, no deadline where there was
  none, and otherwise the same wall-clock deadline to the millisecond; a key whose deadline has
  passed by the time of the load is dropped, as is one already expired at the capture.
\<close>

theorem snapshot_roundtrip:
  assumes inv: "store_inv s" and unlimited: "max_memory_bytes s' = 0"
    and mono: "mono (clk e)" and t1: "\<forall>i. clk e i \<le> t1"
    and fits: "clock_fits (clk e 0)" "clock_fits (wall e 0)" "clock_fits (clk e' 0)" "clock_fits (wall e' 0)"
    and deadlines_fit: "\<forall>k p d. keyspace_of s k = Some (p, Some d) \<longrightarrow> clock_fits d"
  shows "(live t1 (keyspace_of s) k = Some pt \<longrightarrow>
        keyspace_of (LoadSnapshot e' (Snapshot e s) s') k = carried_over e e' pt)
    \<and> (live (clk e 0) (keyspace_of s) k = None \<longrightarrow>
        keyspace_of (LoadSnapshot e' (Snapshot e s) s') k = None)"
proof -
  note load = LoadSnapshot_keyspace [OF snapshot_contents(1) [OF inv] unlimited, where e = e']
  have "keyspace_of (LoadSnapshot e' (Snapshot e s) s') k = carried_over e e' pt"
    if live: "live t1 (keyspace_of s) k = Some pt"
  proof -
    obtain v where v: "HT_Get (data s) k = Some v" "pt = abs_value v" "\<forall>i. \<not> IsExpired (clk e i) v"
        "snapshot_of (clk e 0) (wall e 0) k v \<in> set (Snapshot e s)"
      using snapshot_contents(2) [OF inv t1 live] by blast
    then have "keyspace_of (LoadSnapshot e' (Snapshot e s) s') k =
        restore (clk e' 0) (wall e' 0) (snapshot_of (clk e 0) (wall e 0) k v)"
      using load(1) by fastforce
    also have "\<dots> = carried_over e e' (abs_value v)"
      using store_invD(2) [OF inv v(1)] fits spec [OF v(3), of 0] deadlines_fit v(1)
      by (intro restore_snapshot) (auto simp: IsExpired_def keyspace_of_apply abs_value_def split: option.splits)
    finally show ?thesis by (simp add: v)
  qed
  moreover have "keyspace_of (LoadSnapshot e' (Snapshot e s) s') k = None"
    if "live (clk e 0) (keyspace_of s) k = None"
    using load(2) snapshot_contents(3) [OF inv mono that] by blast
  ultimately show ?thesis by blast
qed

theorem snapshot_roundtrip_witness:
  "keyspace_of (LoadSnapshot (still 7) (Snapshot (still 5) (snd (RPush (still 0) ''h'' [''x''] new_store))) new_store) ''h''
     = Some (PList [''x''], None)"
  using snapshot_roundtrip [OF new_store_rpush(1) [of "still 0" "''h''" "[''x'']"], of new_store "still 5" 5 "still 7"
      "''h''" "(PList [''x''], None)"] new_store_rpush(2) [of "still 0" "''h''" "[''x'']"]
  by (simp add: clock_fits_def mono_def carried_over_def split: if_splits)

text \<open>A store with one key, over its budget of one byte.\<close>

definition over_budget_store :: store where
  "over_budget_store = (Store_Set (still 0) ''k'' ''v'' new_store)\<lparr>max_memory_bytes := 1\<rparr>"

lemma over_budget_store_facts:
  "store_inv over_budget_store"
  "keyspace_of over_budget_store = [''k'' \<mapsto> (PString ''v'', None)]"
  "max_memory_bytes over_budget_store = 1"
  using keyspace_unlimited(1) [OF store_inv_new] Store_Set_inv [OF store_inv_new]
  by (simp_all add: over_budget_store_def spec_set_def)

lemma over_budget_store_used: "used_memory_bytes over_budget_store = 50"
  by code_simp

text \<open>
  Each round of an eviction removes one entry of the sample, one whose recency stamp no
  other entry of the sample undercuts, and goes on with the rest of the store.
\<close>

theorem eviction_victim:
  assumes inv: "store_inv s" and over: "used_memory_bytes s > max_memory_bytes s" and "HT_Len (data s) > 0"
    and sample: "SampleKeys (draws 0) kSampleSize (data s) = c # cs"
  shows "\<exists>k v. (k, v) \<in> set (c # cs) \<and> HT_Get (data s) k = Some v
    \<and> (\<forall>(k', v') \<in> set (c # cs). last_accessed_seq v \<le> last_accessed_seq v')
    \<and> evict_loop (Suc fuel) draws s = evict_loop fuel (\<lambda>i. draws (Suc i)) (remove_entry k v s)
    \<and> keyspace_of (remove_entry k v s) = (keyspace_of s)(k := None)"
proof -
  define kv where "kv = pick_victim c cs"
  have "(fst kv, snd kv) \<in> set (c # cs)" using pick_victim_in [of c cs] by (simp add: kv_def)
  moreover have "HT_Get (data s) (fst kv) = Some (snd kv)"
    using evict_victim [OF inv sample] by (simp add: kv_def)
  moreover have "\<forall>(k', v') \<in> set (c # cs). last_accessed_seq (snd kv) \<le> last_accessed_seq v'"
  proof
    fix x assume "x \<in> set (c # cs)"
    then have "last_accessed_seq (snd kv) \<le> last_accessed_seq (snd x)"
      unfolding kv_def by (rule pick_victim_least)
    then show "case x of (k', v') \<Rightarrow> last_accessed_seq (snd kv) \<le> last_accessed_seq v'"
      by (cases x) simp
  qed
  moreover have "evict_loop (Suc fuel) draws s = evict_loop fuel (\<lambda>i. draws (Suc i)) (remove_entry (fst kv) (snd kv) s)"
    using assms by (simp add: Let_def kv_def)
  moreover have "keyspace_of (remove_entry (fst kv) (snd kv) s) = (keyspace_of s)(fst kv := None)"
    using inv by (rule keyspace_remove)
  ultimately show ?thesis by blast
qed

theorem eviction_victim_witness:
  "\<exists>k v. HT_Get (data over_budget_store) k = Some v
    \<and> keyspace_of (remove_entry k v over_budget_store) = [''k'' \<mapsto> (PString ''v'', None)](k := None)"
proof -
  have "SampleKeys (\<lambda>i. i) kSampleSize (data over_budget_store) \<noteq> [] \<and> HT_Len (data over_budget_store) > 0"
    by code_simp
  then obtain c cs where "SampleKeys (\<lambda>i. i) kSampleSize (data over_budget_store) = c # cs"
      and "HT_Len (data over_budget_store) > 0"
    by (meson list.exhaust)
  then show ?thesis
    using eviction_victim [OF over_budget_store_facts(1), of "\<lambda>_ i. i" c cs 0]
    unfolding over_budget_store_facts(2,3) over_budget_store_used by (simp del: evict_loop.simps) blast
qed

text \<open>
  An eviction can also give up at once: the load factor leaves a bucket empty in every
  table, and when all draws of a sample land in empty buckets the loop ends although the store
  is not empty, and stays over its budget.
\<close>

theorem eviction_can_stall:
  assumes "store_inv s" and "max_memory_bytes s \<noteq> 0" and "used_memory_bytes s > max_memory_bytes s"
  shows "\<exists>draws. EvictIfOverBudget draws s = s"
proof -
  obtain draw where "SampleKeys draw kSampleSize (data s) = []"
    using unlucky_sample [OF store_invD(1) [OF assms(1)]] by blast
  then have "EvictIfOverBudget (\<lambda>_. draw) s = s"
    using assms by (simp add: EvictIfOverBudget_def)
  then show ?thesis by blast
qed

theorem eviction_can_stall_witness:
  "store_inv over_budget_store \<and> (\<exists>draws. EvictIfOverBudget draws over_budget_store = over_budget_store)"
  using eviction_can_stall [OF over_budget_store_facts(1)]
  by (simp add: over_budget_store_facts over_budget_store_used)

text \<open>
  A period too long for the 64-bit clock makes Expire delete instead of keep: with ten
  thousand million seconds, at clock zero, it answers true but the deadline wraps into the past
  and the key is gone for every later reader.
\<close>

theorem expire_overflow:
  assumes inv: "store_inv s" and "\<forall>i. clk e i = 0" and "live 0 (keyspace_of s) k \<noteq> None" and "0 \<le> now"
  shows "fst (Expire e k 10000000000 s) \<and> live now (keyspace_of (snd (Expire e k 10000000000 s))) k = None"
proof -
  obtain v where v: "HT_Get (data s) k = Some v" "\<not> IsExpired 0 v"
    using assms(3) by (auto simp: live_keyspace split: option.splits if_splits)
  have "wrap64 (wrap64 (10000000000 * ns_per_second)) = - 8446744073709551616"
    by (simp add: wrap64_def ns_per_second_def)
  moreover have "abs_value (v\<lparr>expires_at := t\<rparr>) = (payload_of v, t)" for t
    by (simp add: abs_value_def payload_of_def split: value_type.split)
  ultimately show ?thesis
    using v assms by (simp add: Expire_def keyspace_write [OF inv v(1)] live_def expired_at_def)
qed

theorem expire_overflow_witness:
  "fst (Expire (still 0) ''k'' 10000000000 over_budget_store)
   \<and> live 5 (keyspace_of (snd (Expire (still 0) ''k'' 10000000000 over_budget_store))) ''k'' = None"
  using expire_overflow [OF over_budget_store_facts(1), of "still 0" "''k''" 5]
  by (simp add: over_budget_store_facts)

text \<open>
  TTL reads the clock twice. When the deadline passes between the two readings by at least
  1.5 and less than 2.5 seconds it answers -1, its answer for a key without a deadline.
\<close>

theorem ttl_late_second_reading:
  assumes "live (clk e 0) (keyspace_of s) k = Some (p, Some t)"
    and "t + 1500 * ns_per_ms \<le> clk e 1" and "clk e 1 < t + 2500 * ns_per_ms"
  shows "fst (TTL e k s) = - 1"
proof -
  obtain v where v: "HT_Get (data s) k = Some v" "\<not> IsExpired (clk e 0) v" "expires_at v = Some t"
    using assms(1) by (auto simp: live_keyspace abs_value_def split: option.splits if_splits)
  have w: "wrap64 (t - clk e 1) = t - clk e 1"
    using assms by (intro wrap64_id) (auto simp: ns_per_ms_def)
  define q where "q = (clk e 1 - t) div ns_per_ms"
  have q: "1500 \<le> q" "q < 2500"
    using assms by (auto simp: q_def ns_per_ms_def)
  have "(t - clk e 1) sdiv ns_per_ms = - q"
    using assms by (simp add: signed_divide_int_def q_def ns_per_ms_def sgn_if abs_if)
  moreover have "(500 - q) sdiv 1000 = - 1"
    using q by (simp add: signed_divide_int_def sgn_if abs_if)
  ultimately show ?thesis using v w by (simp add: TTL_def Let_def)
qed

theorem ttl_late_second_reading_witness:
  "fst (TTL \<lparr>clk = (\<lambda>i. if i = 0 then 5 else 4000000000), wall = (\<lambda>_. 0), rnd = (\<lambda>_ i. i)\<rparr> ''h''
     (snd (Expire (still 5) ''h'' 2 (snd (RPush (still 0) ''h'' [''x''] new_store))))) = - 1"
  by (rule ttl_late_second_reading [where p = "PList [''x'']" and t = 2000000005])
    (simp_all add: expired_list_example live_def expired_at_def ns_per_ms_def)

end
