(* ===== verification/Interleaving.thy ===== *)
theory Interleaving
  imports Store_Lifecycle
begin

text \<open>
  The store under concurrent callers. Client threads and the sweeper share one store; what
  they do between two changes of the lock is one step of the machine below. A writing method
  is one step, taken while nobody holds \<^verbatim>\<open>mu_\<close>. A read holds \<^verbatim>\<open>mu_\<close> shared: it looks the key
  up and draws its recency stamp (the \<^verbatim>\<open>fetch_add\<close> of \<^verbatim>\<open>Touch\<close>), and in a later step stores the
  stamp through the pointer it still holds, so that reads overlap as the shared lock lets them.
  A read that met an expired key, \<^verbatim>\<open>Exists\<close>, \<^verbatim>\<open>Keys\<close> and the sweeper release the shared lock with
  a list of keys, and come back for them under the exclusive lock after anything else may
  have happened.

  The steady clock never goes back: \<open>time\<close> is a lower bound for every later reading.
\<close>

section \<open>The machine\<close>

datatype phase = Idle | Stamping string u64 | Cleaning "string list" | Sweeping "string list"

record machine =
  db :: store
  time :: int
  phases :: "phase list"

datatype write_op = WSet string string | WDel "string list" | WFlushAll | WExpire string int
  | WLPush string "string list" | WRPush string "string list" | WHSet string "(string \<times> string) list"
  | WHDel string "string list" | WSetMaxMemory u64

fun run_write :: "env \<Rightarrow> write_op \<Rightarrow> store \<Rightarrow> store" where
  "run_write e (WSet k val) s = Store_Set e k val s"
| "run_write e (WDel ks) s = snd (Store_Del e ks s)"
| "run_write e WFlushAll s = FlushAll s"
| "run_write e (WExpire k n) s = snd (Expire e k n s)"
| "run_write e (WLPush k vals) s = snd (LPush e k vals s)"
| "run_write e (WRPush k vals) s = snd (RPush e k vals s)"
| "run_write e (WHSet k fvs) s = snd (HSet e k fvs s)"
| "run_write e (WHDel k fs) s = snd (HDel e k fs s)"
| "run_write e (WSetMaxMemory b) s = SetMaxMemory e b s"

fun reading :: "phase \<Rightarrow> bool" where
  "reading (Stamping k q) = True"
| "reading _ = False"

definition no_reader :: "machine \<Rightarrow> bool" where
  "no_reader m \<longleftrightarrow> list_all (\<lambda>p. \<not> reading p) (phases m)"

definition clocked :: "machine \<Rightarrow> env \<Rightarrow> int \<Rightarrow> bool" where
  "clocked m e t \<longleftrightarrow> (\<forall>i. time m \<le> clk e i \<and> clk e i \<le> t)"

definition enter :: "nat \<Rightarrow> phase \<Rightarrow> machine \<Rightarrow> machine" where
  "enter t p m = m\<lparr>phases := (phases m)[t := p]\<rparr>"

definition draw_stamp :: "store \<Rightarrow> store" where
  "draw_stamp s = s\<lparr>access_clock := access_clock s + 1\<rparr>"

definition store_stamp :: "string \<Rightarrow> u64 \<Rightarrow> store \<Rightarrow> store" where
  "store_stamp k q s =
     (case HT_Get (data s) k of
        None \<Rightarrow> s
      | Some v \<Rightarrow> s\<lparr>data := HT_Assign k (v\<lparr>last_accessed_seq := q\<rparr>) (data s)\<rparr>)"

definition in_phase :: "nat \<Rightarrow> phase \<Rightarrow> machine \<Rightarrow> bool" where
  "in_phase t p m \<longleftrightarrow> t < length (phases m) \<and> phases m ! t = p"

text \<open>The steps of reads and sweeps; none of them is a change a client asked for.\<close>

inductive quiet_step :: "machine \<Rightarrow> machine \<Rightarrow> bool" where
  read_plain: "\<lbrakk>in_phase t Idle m; time m \<le> now\<rbrakk> \<Longrightarrow> quiet_step m (m\<lparr>time := now\<rparr>)"
| read_hit: "\<lbrakk>in_phase t Idle m; time m \<le> now; HT_Get (data (db m)) k = Some v; \<not> IsExpired now v\<rbrakk> \<Longrightarrow>
    quiet_step m (enter t (Stamping k (access_clock (db m))) (m\<lparr>db := draw_stamp (db m), time := now\<rparr>))"
| read_stamp: "in_phase t (Stamping k q) m \<Longrightarrow>
    quiet_step m (enter t Idle (m\<lparr>db := store_stamp k q (db m)\<rparr>))"
| read_stale: "\<lbrakk>in_phase t Idle m; time m \<le> now; HT_Get (data (db m)) k = Some v; IsExpired now v\<rbrakk> \<Longrightarrow>
    quiet_step m (enter t (Cleaning [k]) (m\<lparr>time := now\<rparr>))"
| exists_scanned: "\<lbrakk>in_phase t Idle m; clocked m e now\<rbrakk> \<Longrightarrow>
    quiet_step m (enter t (Cleaning (snd (exists_scan (clk e) ks (db m)))) (m\<lparr>time := now\<rparr>))"
| keys_scanned: "\<lbrakk>in_phase t Idle m; clocked m e now\<rbrakk> \<Longrightarrow>
    quiet_step m (enter t (Cleaning (expired_entries (clk e) (HT_entries (data (db m))))) (m\<lparr>time := now\<rparr>))"
| sweep_scanned: "\<lbrakk>in_phase t Idle m; clocked m e now\<rbrakk> \<Longrightarrow>
    quiet_step m (enter t (Sweeping (SweepScan (clk e) (db m))) (m\<lparr>time := now\<rparr>))"
| clean_one: "\<lbrakk>in_phase t (Cleaning (k # ks)) m; no_reader m; time m \<le> now\<rbrakk> \<Longrightarrow>
    quiet_step m (enter t (Cleaning ks) (m\<lparr>db := snd (DeleteIfExpired now k (db m)), time := now\<rparr>))"
| clean_done: "in_phase t (Cleaning []) m \<Longrightarrow> quiet_step m (enter t Idle m)"
| sweep_deleted: "\<lbrakk>in_phase t (Sweeping ks) m; no_reader m; clocked m e now\<rbrakk> \<Longrightarrow>
    quiet_step m (enter t Idle (m\<lparr>db := SweepDelete (clk e) ks (db m), time := now\<rparr>))"

inductive machine_step :: "machine \<Rightarrow> machine \<Rightarrow> bool" where
  quiet: "quiet_step m m' \<Longrightarrow> machine_step m m'"
| writing: "\<lbrakk>in_phase t Idle m; no_reader m; clocked m e now\<rbrakk> \<Longrightarrow>
    machine_step m (m\<lparr>db := run_write e op (db m), time := now\<rparr>)"

definition starts_with :: "store \<Rightarrow> machine \<Rightarrow> bool" where
  "starts_with s m \<longleftrightarrow> db m = s \<and> list_all (\<lambda>p. p = Idle) (phases m)"

section \<open>Invariant\<close>

text \<open>
  Besides the invariant of the store: a reader about to store its stamp still has a valid
  pointer, that is, its key is in the table.
\<close>

definition machine_inv :: "machine \<Rightarrow> bool" where
  "machine_inv m \<longleftrightarrow> store_inv (db m)
     \<and> (\<forall>k q. Stamping k q \<in> set (phases m) \<longrightarrow> k \<in> dom (HT_Get (data (db m))))"

lemma run_write_inv: "store_inv s \<Longrightarrow> store_inv (run_write e op s)"
  by (cases op) (simp_all add: inv_intros)

lemma enter_fields [simp]:
  "db (enter t p m) = db m" "time (enter t p m) = time m" "phases (enter t p m) = (phases m)[t := p]"
  by (simp_all add: enter_def)

lemma no_reader_stamping: "no_reader m \<Longrightarrow> Stamping k q \<notin> set (phases m)"
  by (auto simp: no_reader_def list_all_iff)

lemma draw_stamp_facts [simp]:
  "data (draw_stamp s) = data s" "store_inv (draw_stamp s) = store_inv s" "keyspace_of (draw_stamp s) = keyspace_of s"
  by (simp_all add: draw_stamp_def store_inv_def)

lemma store_stamp_write:
  "HT_Get (data s) k = Some v \<Longrightarrow> store_stamp k q s = write_value k (v\<lparr>last_accessed_seq := q\<rparr>) s"
  by (simp add: store_stamp_def write_value_def)

lemma store_stamp_facts:
  assumes inv: "store_inv s"
  shows "store_inv (store_stamp k q s)" and "dom (HT_Get (data (store_stamp k q s))) = dom (HT_Get (data s))"
    and "keyspace_of (store_stamp k q s) = keyspace_of s"
proof -
  have "store_inv (store_stamp k q s) \<and> dom (HT_Get (data (store_stamp k q s))) = dom (HT_Get (data s))
      \<and> keyspace_of (store_stamp k q s) = keyspace_of s"
  proof (cases "HT_Get (data s) k")
    case None
    then show ?thesis using inv by (simp add: store_stamp_def)
  next
    case (Some v)
    have "(keyspace_of s)(k \<mapsto> abs_value v) = keyspace_of s"
      using Some by (simp add: keyspace_of_apply fun_upd_idem)
    then show ?thesis
      using store_invD(2) [OF inv Some] store_invD(1) [OF inv] Some
      by (auto simp: store_stamp_write write_value_inv inv keyspace_write write_value_get)
  qed
  then show "store_inv (store_stamp k q s)" and "dom (HT_Get (data (store_stamp k q s))) = dom (HT_Get (data s))"
    and "keyspace_of (store_stamp k q s) = keyspace_of s" by blast+
qed

lemma machine_inv_no_reader:
  assumes "store_inv s" and "no_reader m" and "\<not> reading p"
  shows "machine_inv (enter t p (m\<lparr>db := s, time := now\<rparr>))"
  using assms no_reader_stamping [OF assms(2)] set_update_subset_insert [of "phases m" t p]
  by (auto simp: machine_inv_def)

lemma machine_inv_frame:
  assumes "machine_inv m" and "store_inv s" and "dom (HT_Get (data s)) = dom (HT_Get (data (db m)))"
    and "\<And>k q. p = Stamping k q \<Longrightarrow> k \<in> dom (HT_Get (data s))"
  shows "machine_inv (enter t p (m\<lparr>db := s, time := now\<rparr>))"
  using assms set_update_subset_insert [of "phases m" t p]
  unfolding machine_inv_def by fastforce

lemma quiet_step_inv: "quiet_step m m' \<Longrightarrow> machine_inv m \<Longrightarrow> machine_inv m'"
proof (induction rule: quiet_step.induct)
  case (read_hit t m now k v)
  then show ?case by (intro machine_inv_frame) (auto simp: machine_inv_def)
next
  case (read_stamp t k q m)
  have "machine_inv (enter t Idle (m\<lparr>db := store_stamp k q (db m), time := time m\<rparr>))"
    using read_stamp by (intro machine_inv_frame) (simp_all add: machine_inv_def store_stamp_facts)
  then show ?case by simp
next
  case (clean_one t k ks m now)
  then show ?case by (intro machine_inv_no_reader) (simp_all add: machine_inv_def DeleteIfExpired_inv)
next
  case (sweep_deleted t ks m e now)
  then show ?case by (intro machine_inv_no_reader) (simp_all add: machine_inv_def SweepDelete_inv)
next
  case (clean_done t m)
  then show ?case
    using set_update_subset_insert [of "phases m" t Idle] by (auto simp: machine_inv_def)
qed (use set_update_subset_insert in \<open>fastforce simp: machine_inv_def\<close>)+

lemma machine_step_inv: "machine_step m m' \<Longrightarrow> machine_inv m \<Longrightarrow> machine_inv m'"
proof (induction rule: machine_step.induct)
  case (writing t m e now op)
  then show ?case
    using no_reader_stamping by (auto simp: machine_inv_def run_write_inv)
qed (rule quiet_step_inv)

lemma starts_with_inv: "store_inv s \<Longrightarrow> starts_with s m \<Longrightarrow> machine_inv m"
  by (auto simp: starts_with_def machine_inv_def list_all_iff)

lemma reachable_inv: "machine_step\<^sup>*\<^sup>* m m' \<Longrightarrow> machine_inv m \<Longrightarrow> machine_inv m'"
  by (induction rule: rtranclp_induct) (auto intro: machine_step_inv)

lemma quiet_step_live:
  assumes "quiet_step m m'" and "machine_inv m" and "time m' \<le> now"
  shows "live now (keyspace_of (db m')) = live now (keyspace_of (db m))"
  using assms
proof (induction rule: quiet_step.induct)
  case (read_stamp t k q m)
  then show ?case by (simp add: machine_inv_def store_stamp_facts)
next
  case (clean_one t k ks m now')
  then show ?case by (simp add: machine_inv_def live_after_delete_expired)
next
  case (sweep_deleted t ks m e now')
  then have "clk e i \<le> now" for i
    by (simp add: clocked_def) (meson order_trans)
  then show ?case using sweep_deleted by (simp add: machine_inv_def SweepDelete_unobservable)
qed simp_all

lemma quiet_step_time: "quiet_step m m' \<Longrightarrow> time m \<le> time m'"
  by (induction rule: quiet_step.induct) (auto simp: clocked_def intro: order_trans)

section \<open>Properties\<close>

text \<open>
  C3: Whatever the interleaving of clients and the sweeper, the store's invariant holds in every
  reachable state: the table is well-formed and the memory account is exactly the sum of the
  estimates of the stored entries (modulo the word size); and every reader that is about to
  write its recency stamp still points at an entry of the table.
\<close>

theorem interleaving_safe:
  assumes "starts_with s m" and "store_inv s" and "machine_step\<^sup>*\<^sup>* m m'"
  shows "ht_inv (data (db m'))
    \<and> used_memory_bytes (db m') = entry_sum EstimateEntryBytes (HT_entries (data (db m')))
    \<and> (in_phase t (Stamping k q) m' \<longrightarrow> HT_Get (data (db m')) k \<noteq> None)"
proof -
  have "machine_inv m'" using assms reachable_inv starts_with_inv by blast
  then have inv: "store_inv (db m')"
    and stamping: "Stamping k q \<in> set (phases m') \<Longrightarrow> k \<in> dom (HT_Get (data (db m')))"
    by (auto simp: machine_inv_def)
  have "in_phase t (Stamping k q) m' \<Longrightarrow> Stamping k q \<in> set (phases m')"
    by (metis in_phase_def nth_mem)
  then show ?thesis
    using store_invD(1,3) [OF inv] stamping by auto
qed

definition two_clients :: machine where
  "two_clients = \<lparr>db = new_store, time = 0, phases = [Idle, Idle]\<rparr>"

lemma two_clients_write:
  "machine_step\<^sup>*\<^sup>* two_clients (two_clients\<lparr>db := Store_Set (still 0) ''k'' ''v'' new_store, time := 0\<rparr>)"
  using machine_step.writing [of 0 two_clients "still 0" 0 "WSet ''k'' ''v''"]
  by (intro r_into_rtranclp) (simp add: two_clients_def in_phase_def no_reader_def clocked_def)

lemma two_clients_read:
  "quiet_step (two_clients\<lparr>db := Store_Set (still 0) ''k'' ''v'' new_store, time := 0\<rparr>)
     (enter 1 (Stamping ''k'' 1)
       (two_clients\<lparr>db := draw_stamp (Store_Set (still 0) ''k'' ''v'' new_store), time := 0\<rparr>))"
proof -
  let ?s = "Store_Set (still 0) ''k'' ''v'' new_store"
  have clock: "access_clock ?s = 1" by code_simp
  have "map_option abs_value (HT_Get (data ?s) ''k'') = Some (PString ''v'', None)"
    using keyspace_unlimited(1) [OF store_inv_new, of "still 0" "''k''" "''v''"] keyspace_of_apply [of ?s "''k''"]
    by (simp add: spec_set_def)
  then obtain v where "HT_Get (data ?s) ''k'' = Some v" "expires_at v = None"
    by (auto simp: abs_value_def)
  then show ?thesis
    using quiet_step.read_hit [of 1 "two_clients\<lparr>db := ?s, time := 0\<rparr>" 0 "''k''" v] clock
    by (simp add: two_clients_def in_phase_def IsExpired_def)
qed

lemma two_clients_start: "starts_with new_store two_clients"
  by (simp add: starts_with_def two_clients_def)

theorem interleaving_safe_witness:
  "HT_Get (data (draw_stamp (Store_Set (still 0) ''k'' ''v'' new_store))) ''k'' \<noteq> None"
proof -
  let ?m = "enter 1 (Stamping ''k'' 1)
       (two_clients\<lparr>db := draw_stamp (Store_Set (still 0) ''k'' ''v'' new_store), time := 0\<rparr>)"
  have run: "machine_step\<^sup>*\<^sup>* two_clients ?m"
    using two_clients_write machine_step.quiet [OF two_clients_read] by (rule rtranclp.rtrancl_into_rtrancl)
  have "in_phase 1 (Stamping ''k'' 1) ?m"
    by (simp add: in_phase_def two_clients_def)
  then have "HT_Get (data (db ?m)) ''k'' \<noteq> None"
    using interleaving_safe [OF two_clients_start store_inv_new run, of 1 "''k''" 1] by blast
  then show ?thesis by simp
qed

text \<open>
  Reads and sweeps are invisible under every interleaving: a step that is not a write leaves
  the live key space as it is, now and at every later instant, even when it deletes a key that
  was seen expired before other threads changed the store.
\<close>

theorem quiet_steps_invisible:
  assumes "starts_with s m" and "store_inv s" and "machine_step\<^sup>*\<^sup>* m m1" and "quiet_step\<^sup>*\<^sup>* m1 m2"
    and "time m2 \<le> now"
  shows "live now (keyspace_of (db m2)) = live now (keyspace_of (db m1))"
proof -
  have "machine_inv m1" using assms reachable_inv starts_with_inv by blast
  show ?thesis
    using assms(4,5)
  proof (induction rule: rtranclp_induct)
    case (step m2 m3)
    have "machine_step\<^sup>*\<^sup>* m1 m2"
      using step(1) by (rule mono_rtranclp [rule_format, rotated]) (rule machine_step.quiet)
    then have "machine_inv m2" using \<open>machine_inv m1\<close> reachable_inv by blast
    then show ?case
      using step quiet_step_live [of m2 m3 now] quiet_step_time [of m2 m3] by simp
  qed simp
qed

theorem quiet_steps_invisible_witness:
  "live 3 (keyspace_of (draw_stamp (Store_Set (still 0) ''k'' ''v'' new_store)))
     = live 3 (keyspace_of (Store_Set (still 0) ''k'' ''v'' new_store))"
  using quiet_steps_invisible [OF two_clients_start store_inv_new two_clients_write
      r_into_rtranclp [of quiet_step, OF two_clients_read], of 3]
  by simp

end
