(* ===== verification/Sweeper.thy ===== *)
theory Sweeper
  imports Thread_Runs Interleaving
begin

text \<open>
  The life of a \<^verbatim>\<open>Store\<close> object and of its sweeper thread (\<^verbatim>\<open>store.cpp\<close>): the constructor starts the
  thread, \<^verbatim>\<open>SweeperRun\<close> sleeps on the condition variable and sweeps in turn, and the destructor
  raises \<^verbatim>\<open>stop_sweeper_\<close> under \<^verbatim>\<open>sweeper_mu_\<close>, notifies, and joins. One step is what a thread does
  between two operations on the mutex or the condition variable. \<^verbatim>\<open>wait_for\<close> with a predicate is its
  loop: test, sleep with the mutex released, be woken by a notification, spuriously or by the timeout, and
  take the mutex again before going on. What the sweep does to the data is \<open>SweepScan\<close> and \<open>SweepDelete\<close>, each
  under its own lock of \<^verbatim>\<open>mu_\<close>; other threads call the store's methods in between.
\<close>

section \<open>The threads\<close>

datatype sweeper_phase = Starting | LoopTest | WaitTest | Asleep | Waking bool | FlagTest
  | Scanning | Deleting "string list" | Relocking | Returned

datatype dtor_phase = Alive | Locking | Locked | FlagRaised | Unlocked | Notified | Joined

datatype owner = SweeperThread | Destructor

record store_object =
  shared :: store
  stop_sweeper :: bool
  sweeper_mu :: "owner option"
  sweeper_at :: sweeper_phase
  dtor_at :: dtor_phase

definition construct :: store_object where
  "construct = \<lparr>shared = new_store, stop_sweeper = False, sweeper_mu = None, sweeper_at = Starting, dtor_at = Alive\<rparr>"

datatype object_action =
    LockFirst | TestLoop | TestWait | WakeSpurious | WakeTimeout | LockWake | TestFlag
  | Scan env | Delete env | LockAgain
  | Destroy | LockDtor | RaiseFlag | UnlockDtor | NotifyOne | Join
  | Client env write_op

text \<open>
  \<^verbatim>\<open>SweeperRun\<close>. Leaving the loop ends the scope of \<^verbatim>\<open>lock\<close>, which gives the mutex back. A \<open>Waking\<close> thread
  has left the queue of the condition variable; its flag says that it was the timeout.
\<close>

fun sweeper_step :: "object_action \<Rightarrow> store_object \<Rightarrow> store_object option" where
  "sweeper_step LockFirst m =
     (if sweeper_at m = Starting \<and> sweeper_mu m = None
      then Some (m\<lparr>sweeper_at := LoopTest, sweeper_mu := Some SweeperThread\<rparr>) else None)"
| "sweeper_step TestLoop m =
     (if sweeper_at m \<noteq> LoopTest then None
      else if stop_sweeper m then Some (m\<lparr>sweeper_at := Returned, sweeper_mu := None\<rparr>)
      else Some (m\<lparr>sweeper_at := WaitTest\<rparr>))"
| "sweeper_step TestWait m =
     (if sweeper_at m \<noteq> WaitTest then None
      else if stop_sweeper m then Some (m\<lparr>sweeper_at := FlagTest\<rparr>)
      else Some (m\<lparr>sweeper_at := Asleep, sweeper_mu := None\<rparr>))"
| "sweeper_step WakeSpurious m =
     (if sweeper_at m = Asleep then Some (m\<lparr>sweeper_at := Waking False\<rparr>) else None)"
| "sweeper_step WakeTimeout m =
     (if sweeper_at m = Asleep then Some (m\<lparr>sweeper_at := Waking True\<rparr>) else None)"
| "sweeper_step LockWake m =
     (case sweeper_at m of
        Waking timeout \<Rightarrow>
          if sweeper_mu m = None
          then Some (m\<lparr>sweeper_at := if timeout then FlagTest else WaitTest, sweeper_mu := Some SweeperThread\<rparr>)
          else None
      | _ \<Rightarrow> None)"
| "sweeper_step TestFlag m =
     (if sweeper_at m \<noteq> FlagTest then None
      else if stop_sweeper m then Some (m\<lparr>sweeper_at := Returned, sweeper_mu := None\<rparr>)
      else Some (m\<lparr>sweeper_at := Scanning, sweeper_mu := None\<rparr>))"
| "sweeper_step (Scan e) m =
     (if sweeper_at m \<noteq> Scanning then None
      else
        (case SweepScan (clk e) (shared m) of
           [] \<Rightarrow> Some (m\<lparr>sweeper_at := Relocking\<rparr>)
         | keys \<Rightarrow> Some (m\<lparr>sweeper_at := Deleting keys\<rparr>)))"
| "sweeper_step (Delete e) m =
     (case sweeper_at m of
        Deleting keys \<Rightarrow> Some (m\<lparr>sweeper_at := Relocking, shared := SweepDelete (clk e) keys (shared m)\<rparr>)
      | _ \<Rightarrow> None)"
| "sweeper_step LockAgain m =
     (if sweeper_at m = Relocking \<and> sweeper_mu m = None
      then Some (m\<lparr>sweeper_at := LoopTest, sweeper_mu := Some SweeperThread\<rparr>) else None)"
| "sweeper_step _ m = None"

text \<open>The destructor. A notification that finds nobody asleep is lost.\<close>

fun dtor_step :: "object_action \<Rightarrow> store_object \<Rightarrow> store_object option" where
  "dtor_step Destroy m = (if dtor_at m = Alive then Some (m\<lparr>dtor_at := Locking\<rparr>) else None)"
| "dtor_step LockDtor m =
     (if dtor_at m = Locking \<and> sweeper_mu m = None
      then Some (m\<lparr>dtor_at := Locked, sweeper_mu := Some Destructor\<rparr>) else None)"
| "dtor_step RaiseFlag m =
     (if dtor_at m = Locked then Some (m\<lparr>dtor_at := FlagRaised, stop_sweeper := True\<rparr>) else None)"
| "dtor_step UnlockDtor m =
     (if dtor_at m = FlagRaised then Some (m\<lparr>dtor_at := Unlocked, sweeper_mu := None\<rparr>) else None)"
| "dtor_step NotifyOne m =
     (if dtor_at m = Unlocked
      then Some (m\<lparr>dtor_at := Notified, sweeper_at := if sweeper_at m = Asleep then Waking False else sweeper_at m\<rparr>)
      else None)"
| "dtor_step Join m =
     (if dtor_at m = Notified \<and> sweeper_at m = Returned then Some (m\<lparr>dtor_at := Joined\<rparr>) else None)"
| "dtor_step _ m = None"

text \<open>Other threads use the object only while it is alive.\<close>

fun client_step :: "object_action \<Rightarrow> store_object \<Rightarrow> store_object option" where
  "client_step (Client e op) m =
     (if dtor_at m = Alive then Some (m\<lparr>shared := run_write e op (shared m)\<rparr>) else None)"
| "client_step _ m = None"

definition object_step :: "object_action \<Rightarrow> store_object \<Rightarrow> store_object option" where
  "object_step a m =
     (case sweeper_step a m of
        Some m' \<Rightarrow> Some m'
      | None \<Rightarrow> (case dtor_step a m of Some m' \<Rightarrow> Some m' | None \<Rightarrow> client_step a m))"

abbreviation object_run :: "object_action list \<Rightarrow> store_object \<Rightarrow> store_object option" where
  "object_run \<equiv> steps object_step"

section \<open>Invariants\<close>

text \<open>The stretches of code in which each thread holds \<^verbatim>\<open>sweeper_mu_\<close>.\<close>

fun sweeper_holds :: "sweeper_phase \<Rightarrow> bool" where
  "sweeper_holds LoopTest = True"
| "sweeper_holds WaitTest = True"
| "sweeper_holds FlagTest = True"
| "sweeper_holds _ = False"

fun dtor_holds :: "dtor_phase \<Rightarrow> bool" where
  "dtor_holds Locked = True"
| "dtor_holds FlagRaised = True"
| "dtor_holds _ = False"

fun flag_raised :: "dtor_phase \<Rightarrow> bool" where
  "flag_raised FlagRaised = True"
| "flag_raised Unlocked = True"
| "flag_raised Notified = True"
| "flag_raised Joined = True"
| "flag_raised _ = False"

text \<open>
  The mutex has the owner the phases say; the flag is up from the moment the destructor has
  raised it; after the notification the sweeper is never asleep, and after the join it is gone.
\<close>

definition object_inv :: "store_object \<Rightarrow> bool" where
  "object_inv m \<longleftrightarrow> store_inv (shared m)
     \<and> (sweeper_mu m = Some SweeperThread \<longleftrightarrow> sweeper_holds (sweeper_at m))
     \<and> (sweeper_mu m = Some Destructor \<longleftrightarrow> dtor_holds (dtor_at m))
     \<and> (stop_sweeper m \<longleftrightarrow> flag_raised (dtor_at m))
     \<and> (dtor_at m = Notified \<longrightarrow> sweeper_at m \<noteq> Asleep) \<and> (dtor_at m = Joined \<longrightarrow> sweeper_at m = Returned)"

lemmas object_phase_splits = option.splits sweeper_phase.splits dtor_phase.splits list.splits if_splits

lemma object_inv_step:
  assumes "object_inv m" and "object_step a m = Some m'"
  shows "object_inv m'"
  using assms unfolding object_inv_def
  by (cases a)
    (simp_all add: object_step_def split: object_phase_splits, auto simp: SweepDelete_inv run_write_inv)

interpretation lifetime: safe_steps object_step object_inv
  by unfold_locales (rule object_inv_step)

lemma construct_inv: "object_inv construct"
  by (simp add: object_inv_def construct_def store_inv_new)

section \<open>The end of the object\<close>

text \<open>What is left to do once the flag is up, in steps.\<close>

fun sweeper_rank :: "sweeper_phase \<Rightarrow> nat" where
  "sweeper_rank Starting = 2"
| "sweeper_rank LoopTest = 1"
| "sweeper_rank WaitTest = 2"
| "sweeper_rank Asleep = 4"
| "sweeper_rank (Waking timeout) = (if timeout then 2 else 3)"
| "sweeper_rank FlagTest = 1"
| "sweeper_rank Scanning = 4"
| "sweeper_rank (Deleting keys) = 3"
| "sweeper_rank Relocking = 2"
| "sweeper_rank Returned = 0"

fun dtor_rank :: "dtor_phase \<Rightarrow> nat" where
  "dtor_rank FlagRaised = 3"
| "dtor_rank Unlocked = 2"
| "dtor_rank Notified = 1"
| "dtor_rank _ = 0"

definition object_todo :: "store_object \<Rightarrow> nat" where
  "object_todo m = sweeper_rank (sweeper_at m) + dtor_rank (dtor_at m)"

text \<open>The steps that do not wait for time to pass, nor happen by chance.\<close>

fun object_prompt :: "object_action \<Rightarrow> store_object \<Rightarrow> bool" where
  "object_prompt WakeTimeout m = False"
| "object_prompt WakeSpurious m = False"
| "object_prompt (Client e op) m = False"
| "object_prompt _ m = True"

abbreviation prompt_run :: "object_action list \<Rightarrow> store_object \<Rightarrow> store_object option" where
  "prompt_run \<equiv> steps (\<lambda>a m. if object_prompt a m then object_step a m else None)"

lemma object_todo_step:
  "object_inv m \<and> stop_sweeper m \<Longrightarrow> object_step a m = Some m' \<Longrightarrow> object_todo m' < object_todo m"
  unfolding object_todo_def object_inv_def
  by (cases a) (auto simp: object_step_def split: object_phase_splits)

lemma stop_sweeper_step: "stop_sweeper m \<Longrightarrow> object_step a m = Some m' \<Longrightarrow> stop_sweeper m'"
  by (cases a) (auto simp: object_step_def split: object_phase_splits)

text \<open>What the sweeper does next, unless it is asleep or gone.\<close>

fun sweeper_next :: "sweeper_phase \<Rightarrow> object_action" where
  "sweeper_next Starting = LockFirst"
| "sweeper_next LoopTest = TestLoop"
| "sweeper_next WaitTest = TestWait"
| "sweeper_next (Waking timeout) = LockWake"
| "sweeper_next FlagTest = TestFlag"
| "sweeper_next Scanning = Scan (still 0)"
| "sweeper_next (Deleting keys) = Delete (still 0)"
| "sweeper_next _ = LockAgain"

lemma sweeper_enabled:
  assumes "object_inv m" and "\<not> dtor_holds (dtor_at m)" and "sweeper_at m \<noteq> Asleep" "sweeper_at m \<noteq> Returned"
  shows "object_prompt (sweeper_next (sweeper_at m)) m \<and> (\<exists>m'. object_step (sweeper_next (sweeper_at m)) m = Some m')"
proof -
  have "sweeper_mu m \<noteq> Some Destructor" "sweeper_mu m = Some SweeperThread \<longleftrightarrow> sweeper_holds (sweeper_at m)"
    using assms(1,2) by (simp_all add: object_inv_def)
  then have "sweeper_mu m = None \<or> sweeper_holds (sweeper_at m)" by (metis not_None_eq owner.exhaust)
  then show ?thesis
    using assms(3,4) by (cases "sweeper_at m") (auto simp: object_step_def split: list.split)
qed

lemma object_never_stuck:
  assumes "object_inv m \<and> stop_sweeper m" and "0 < object_todo m"
  shows "\<exists>a m'. object_prompt a m \<and> object_step a m = Some m'"
proof -
  consider "dtor_at m = FlagRaised" | "dtor_at m = Unlocked" | "dtor_at m = Notified" "sweeper_at m = Returned"
    | "dtor_at m = Notified" "sweeper_at m \<noteq> Asleep" "sweeper_at m \<noteq> Returned"
    using assms by (cases "dtor_at m") (auto simp: object_inv_def object_todo_def)
  then show ?thesis
  proof cases
    case 1
    then show ?thesis by (intro exI [of _ UnlockDtor]) (simp add: object_step_def)
  next
    case 2
    then show ?thesis by (intro exI [of _ NotifyOne]) (simp add: object_step_def)
  next
    case 3
    then show ?thesis by (intro exI [of _ Join]) (simp add: object_step_def)
  next
    case 4
    then show ?thesis using sweeper_enabled [of m] assms(1) by auto
  qed
qed

interpretation demise: progress object_step "\<lambda>m. object_inv m \<and> stop_sweeper m" "\<lambda>_. True" object_prompt object_todo
  by unfold_locales
    (use object_inv_step stop_sweeper_step object_todo_step object_never_stuck in \<open>auto simp: less_imp_le\<close>)

lemma demise_joined: "object_inv m \<and> stop_sweeper m \<Longrightarrow> object_todo m = 0 \<Longrightarrow> dtor_at m = Joined"
  by (cases "dtor_at m") (auto simp: object_inv_def object_todo_def)

text \<open>The sweeper gives the mutex back within two steps, so that the destructor can take it.\<close>

lemma mutex_given_back:
  assumes "object_inv m" and "dtor_at m = Locking"
  shows "\<exists>cs m'. prompt_run cs m = Some m' \<and> length cs \<le> 2 \<and> dtor_at m' = Locking \<and> sweeper_mu m' = None"
proof (cases "sweeper_mu m")
  case None
  then show ?thesis using assms by (intro exI [of _ "[]"]) simp
next
  case (Some q)
  have "stop_sweeper m = False" using assms by (simp add: object_inv_def)
  moreover have "sweeper_at m \<in> {LoopTest, WaitTest, FlagTest}"
    using Some assms by (cases q; cases "sweeper_at m") (simp_all add: object_inv_def)
  ultimately have "\<exists>cs \<in> {[TestLoop, TestWait], [TestWait], [TestFlag]}.
      \<exists>m'. prompt_run cs m = Some m' \<and> dtor_at m' = Locking \<and> sweeper_mu m' = None"
    using assms(2) by (auto simp: object_step_def)
  then show ?thesis by fastforce
qed

lemma flag_can_be_raised:
  assumes "object_inv m" and "dtor_at m \<noteq> Alive"
  shows "\<exists>cs m'. prompt_run cs m = Some m' \<and> length cs \<le> 4 \<and> stop_sweeper m'"
proof -
  consider "stop_sweeper m" | "dtor_at m = Locking" | "dtor_at m = Locked"
    using assms by (cases "dtor_at m") (simp_all add: object_inv_def)
  then show ?thesis
  proof cases
    case 1
    then show ?thesis by (intro exI [of _ "[]"]) simp
  next
    case 2
    then obtain cs m' where "prompt_run cs m = Some m'" "length cs \<le> 2" "dtor_at m' = Locking" "sweeper_mu m' = None"
      using mutex_given_back [OF assms(1)] by blast
    then show ?thesis by (intro exI [of _ "cs @ [LockDtor, RaiseFlag]"]) (simp add: steps_append object_step_def)
  next
    case 3
    then show ?thesis by (intro exI [of _ "[RaiseFlag]"]) (simp add: object_step_def)
  qed
qed

section \<open>Properties\<close>


text \<open>A store on which a key is set and which is destroyed while the sweeper sleeps.\<close>

definition destroyed_asleep :: "object_action list" where
  "destroyed_asleep = [LockFirst, TestLoop, TestWait, Client (still 0) (WSet ''k'' ''v''), Destroy, LockDtor, RaiseFlag]"

lemma destroyed_asleep_runs:
  "\<exists>m. object_run destroyed_asleep construct = Some m \<and> dtor_at m = FlagRaised \<and> stop_sweeper m \<and> sweeper_at m = Asleep"
  by (simp add: destroyed_asleep_def object_step_def construct_def)


text \<open>
  C15: Destroying a store always comes to an end. Wherever the sweeper is when the destructor is
  entered, the two can run to the join without waiting for the sweep interval to pass; and from the
  moment the flag is up every run does: it has at most seven more steps, and unless the sweeper has
  been joined one of them is possible that waits for nothing.
\<close>

theorem sweeper_stops:
  assumes "object_run as construct = Some m" and "dtor_at m \<noteq> Alive"
  shows "(\<exists>cs m'. prompt_run cs m = Some m' \<and> dtor_at m' = Joined \<and> sweeper_at m' = Returned)
    \<and> (stop_sweeper m \<longrightarrow> object_run bs m = Some m' \<longrightarrow>
         length bs \<le> 7 \<and> (dtor_at m' = Joined \<or> (\<exists>a m''. object_prompt a m' \<and> object_step a m' = Some m'')))"
proof (intro conjI impI)
  have inv: "object_inv m" using lifetime.inv_steps [OF assms(1) construct_inv] .
  obtain cs m1 where m1: "prompt_run cs m = Some m1" "stop_sweeper m1"
    using flag_can_be_raised [OF inv assms(2)] by blast
  then have inv1: "object_inv m1 \<and> stop_sweeper m1" using lifetime.inv_steps [OF steps_restrict inv] by blast
  obtain ds m2 where m2: "prompt_run ds m1 = Some m2" "object_inv m2 \<and> stop_sweeper m2" "object_todo m2 = 0"
    using demise.can_end [OF inv1] unfolding simp_thms by blast
  have "dtor_at m2 = Joined" using demise_joined [OF m2(2,3)] .
  moreover have "sweeper_at m2 = Returned" using m2(2) calculation by (simp add: object_inv_def)
  moreover have "prompt_run (cs @ ds) m = Some m2" using m1(1) m2(1) by (simp add: steps_append)
  ultimately have "prompt_run (cs @ ds) m = Some m2 \<and> dtor_at m2 = Joined \<and> sweeper_at m2 = Returned" by blast
  then show "\<exists>cs m'. prompt_run cs m = Some m' \<and> dtor_at m' = Joined \<and> sweeper_at m' = Returned" by blast
  assume up: "stop_sweeper m" and bs: "object_run bs m = Some m'"
  have "sweeper_rank p \<le> 4" "dtor_rank q \<le> 3" for p q by (cases p; simp) (cases q; simp)
  then have "object_todo m \<le> 4 + 3" unfolding object_todo_def by (intro add_mono)
  then show "length bs \<le> 7" using demise.own_steps_bounded [OF bs] inv up by simp
  have "object_inv m' \<and> stop_sweeper m'" using demise.inv_steps [OF bs] inv up by blast
  then show "dtor_at m' = Joined \<or> (\<exists>a m''. object_prompt a m' \<and> object_step a m' = Some m'')"
    using object_never_stuck demise_joined by blast
qed

theorem sweeper_stops_witness:
  "\<exists>m cs m'. object_run destroyed_asleep construct = Some m \<and> sweeper_at m = Asleep
     \<and> prompt_run cs m = Some m' \<and> dtor_at m' = Joined"
proof -
  obtain m where "object_run destroyed_asleep construct = Some m" "dtor_at m \<noteq> Alive" "sweeper_at m = Asleep"
    using destroyed_asleep_runs by force
  with sweeper_stops [of destroyed_asleep m "[]"] show ?thesis by blast
qed

end
