(* ===== verification/RespValue.thy ===== *)
theory RespValue
  imports Prelude
begin

text \<open>
  RESP values and their wire form: \<^verbatim>\<open>src/src/resp/resp_value.h\<close> and
  \<^verbatim>\<open>src/src/resp/resp_value.cpp\<close>, and what the sources use of the standard library to turn
  integers into text and back (\<^verbatim>\<open>std::to_string\<close>, \<^verbatim>\<open>std::from_chars\<close>).

  A client of the server has to find the end of every reply. \<open>decode\<close> is the reader such a
  client is; the property of this theory is that it reads back what \<open>Encode\<close> wrote.
\<close>

section \<open>Decimal text\<close>

definition CR :: char where
  "CR = CHR 0x0D"

definition LF :: char where
  "LF = CHR 0x0A"

definition CRLF :: string where
  "CRLF = [CR, LF]"

definition digit :: "nat \<Rightarrow> char" where
  "digit d = char_of (48 + d)"

definition is_digit :: "char \<Rightarrow> bool" where
  "is_digit c \<longleftrightarrow> 48 \<le> (of_char c :: nat) \<and> (of_char c :: nat) \<le> 57"

definition digit_value :: "char \<Rightarrow> nat" where
  "digit_value c = of_char c - 48"

fun nat_digits :: "nat \<Rightarrow> string" where
  "nat_digits n = (if n < 10 then [digit n] else nat_digits (n div 10) @ [digit (n mod 10)])"

declare nat_digits.simps [simp del]

definition to_string :: "int \<Rightarrow> string" where
  "to_string i = (if i < 0 then CHR ''-'' # nat_digits (nat (- i)) else nat_digits (nat i))"

definition digits_value :: "string \<Rightarrow> nat" where
  "digits_value s = fold (\<lambda>c n. n * 10 + digit_value c) s 0"

text \<open>
  \<^verbatim>\<open>from_chars\<close> for a signed 64-bit integer: an optional minus sign and the longest run of
  digits; it fails on an empty run and on a value out of range. The result is the value and
  what follows the run.
\<close>

definition from_chars :: "string \<Rightarrow> (int \<times> string) option" where
  "from_chars s =
     (let (neg, body) = (case s of [] \<Rightarrow> (False, s) | c # cs \<Rightarrow> if c = CHR ''-'' then (True, cs) else (False, s));
          ds = takeWhile is_digit body;
          value = (if neg then - int (digits_value ds) else int (digits_value ds))
      in if ds = [] \<or> value < - (2 ^ 63) \<or> value \<ge> 2 ^ 63 then None
         else Some (value, dropWhile is_digit body))"

definition ParseInt64 :: "string \<Rightarrow> int option" where
  "ParseInt64 s =
     (if s = [] then None
      else case from_chars s of
             None \<Rightarrow> None
           | Some (n, rest) \<Rightarrow> if rest = [] then Some n else None)"

section \<open>Values\<close>

datatype resp_type = TSimpleString | TError | TInteger | TBulkString | TArray

datatype resp_value =
  RespValue (resp_type: resp_type) (str: string) (integer: int) (array: "resp_value list") (is_null: bool)

definition SimpleString :: "string \<Rightarrow> resp_value" where
  "SimpleString s = RespValue TSimpleString s 0 [] False"

definition Error :: "string \<Rightarrow> resp_value" where
  "Error message = RespValue TError message 0 [] False"

definition Integer :: "int \<Rightarrow> resp_value" where
  "Integer n = RespValue TInteger [] n [] False"

definition BulkString :: "string \<Rightarrow> resp_value" where
  "BulkString s = RespValue TBulkString s 0 [] False"

definition NilBulkString :: resp_value where
  "NilBulkString = RespValue TBulkString [] 0 [] True"

definition Array :: "resp_value list \<Rightarrow> resp_value" where
  "Array items = RespValue TArray [] 0 items False"

definition NilArray :: resp_value where
  "NilArray = RespValue TArray [] 0 [] True"

lemmas resp_constructors = SimpleString_def Error_def Integer_def BulkString_def NilBulkString_def
  Array_def NilArray_def

primrec Encode :: "resp_value \<Rightarrow> string" where
  "Encode (RespValue ty s n items null) =
     (case ty of
        TSimpleString \<Rightarrow> ''+'' @ s @ CRLF
      | TError \<Rightarrow> ''-'' @ s @ CRLF
      | TInteger \<Rightarrow> '':'' @ to_string n @ CRLF
      | TBulkString \<Rightarrow>
          if null then ''$-1'' @ CRLF else ''$'' @ to_string (int (length s)) @ CRLF @ s @ CRLF
      | TArray \<Rightarrow>
          if null then ''*-1'' @ CRLF
          else ''*'' @ to_string (int (length items)) @ CRLF @ concat (map Encode items))"

section \<open>Lines\<close>

text \<open>The text before the first CRLF and what follows it, as \<^verbatim>\<open>find("\r\n")\<close> splits a buffer.\<close>

fun split_crlf :: "string \<Rightarrow> (string \<times> string) option" where
  "split_crlf [] = None"
| "split_crlf [c] = None"
| "split_crlf (c # d # cs) =
     (if c = CR \<and> d = LF then Some ([], cs)
      else case split_crlf (d # cs) of None \<Rightarrow> None | Some (line, rest) \<Rightarrow> Some (c # line, rest))"

section \<open>Reading a reply\<close>

text \<open>
  A client's reader of one reply; the first argument bounds the nesting of arrays. It is the
  reference that \<open>Encode\<close> is compared with.
\<close>

fun read_many :: "(string \<Rightarrow> ('a \<times> string) option) \<Rightarrow> nat \<Rightarrow> string \<Rightarrow> ('a list \<times> string) option" where
  "read_many rd 0 s = Some ([], s)"
| "read_many rd (Suc n) s =
     (case rd s of
        None \<Rightarrow> None
      | Some (x, s') \<Rightarrow> (case read_many rd n s' of None \<Rightarrow> None | Some (xs, s'') \<Rightarrow> Some (x # xs, s'')))"

fun decode :: "nat \<Rightarrow> string \<Rightarrow> (resp_value \<times> string) option" where
  "decode 0 s = None"
| "decode (Suc depth) [] = None"
| "decode (Suc depth) (c # s) =
     (case split_crlf s of
        None \<Rightarrow> None
      | Some (line, rest) \<Rightarrow>
          if c = CHR ''+'' then Some (SimpleString line, rest)
          else if c = CHR ''-'' then Some (Error line, rest)
          else if c = CHR '':'' then map_option (\<lambda>n. (Integer n, rest)) (ParseInt64 line)
          else if c = CHR ''$'' then
            (case ParseInt64 line of
               None \<Rightarrow> None
             | Some n \<Rightarrow>
                 if n = - 1 then Some (NilBulkString, rest)
                 else if n < 0 \<or> length rest < nat n + 2 \<or> take 2 (drop (nat n) rest) \<noteq> CRLF then None
                 else Some (BulkString (take (nat n) rest), drop (nat n + 2) rest))
          else if c = CHR ''*'' then
            (case ParseInt64 line of
               None \<Rightarrow> None
             | Some n \<Rightarrow>
                 if n = - 1 then Some (NilArray, rest)
                 else if n < 0 then None
                 else map_option (\<lambda>(xs, rest'). (Array xs, rest')) (read_many (decode depth) (nat n) rest))
          else None)"

section \<open>Lemmas on decimal text\<close>

lemma of_char_digit [simp]: "d < 10 \<Longrightarrow> (of_char (digit d) :: nat) = 48 + d"
  by (simp add: digit_def)

lemma is_digit_digit [simp]: "d < 10 \<Longrightarrow> is_digit (digit d)"
  by (simp add: is_digit_def)

lemma digit_value_digit [simp]: "d < 10 \<Longrightarrow> digit_value (digit d) = d"
  by (simp add: digit_value_def)

lemma nat_digits_nonempty [simp]: "nat_digits n \<noteq> []"
  by (induction n rule: nat_digits.induct) (subst nat_digits.simps, simp)

lemma nat_digits_digits: "list_all is_digit (nat_digits n)"
  by (induction n rule: nat_digits.induct) (subst nat_digits.simps, simp)

lemma digits_value_append: "digits_value (s @ [c]) = digits_value s * 10 + digit_value c"
  by (simp add: digits_value_def)

lemma digits_value_nat_digits [simp]: "digits_value (nat_digits n) = n"
proof (induction n rule: nat_digits.induct)
  case (1 n)
  show ?case
  proof (cases "n < 10")
    case True
    then show ?thesis by (subst nat_digits.simps) (simp add: digits_value_def)
  next
    case False
    then show ?thesis
      using 1 by (subst nat_digits.simps) (simp add: digits_value_append)
  qed
qed

lemma not_digit: "\<not> is_digit CR" "\<not> is_digit LF" "\<not> is_digit (CHR ''-'')"
  by (simp_all add: is_digit_def CR_def LF_def)

lemma digits_run [simp]:
  "takeWhile is_digit (nat_digits n) = nat_digits n" "dropWhile is_digit (nat_digits n) = []"
  using nat_digits_digits [of n] by (simp_all add: list_all_iff)

lemma nat_digits_hd: "hd (nat_digits n) \<noteq> CHR ''-''"
  using nat_digits_digits [of n] not_digit(3) by (cases "nat_digits n") auto

lemma ParseInt64_to_string [wire_simps]:
  assumes "- (2 ^ 63) \<le> n" and "n < 2 ^ 63"
  shows "ParseInt64 (to_string n) = Some n"
proof (cases "n < 0")
  case True
  then show ?thesis
    using assms by (simp add: to_string_def ParseInt64_def from_chars_def Let_def)
next
  case False
  obtain c cs where ds: "nat_digits (nat n) = c # cs" by (meson nat_digits_nonempty list.exhaust)
  then have "c \<noteq> CHR ''-''" using nat_digits_hd [of "nat n"] by simp
  then have "(case nat_digits (nat n) of [] \<Rightarrow> (False, nat_digits (nat n))
      | c # cs \<Rightarrow> if c = CHR ''-'' then (True, cs) else (False, nat_digits (nat n))) = (False, nat_digits (nat n))"
    by (simp add: ds)
  then show ?thesis
    using False assms by (simp add: to_string_def ParseInt64_def from_chars_def Let_def)
qed

lemma ParseInt64_range: "ParseInt64 s = Some n \<Longrightarrow> - (2 ^ 63) \<le> n \<and> n < 2 ^ 63"
  by (auto simp: ParseInt64_def from_chars_def Let_def split: if_splits option.splits prod.splits list.splits)

section \<open>Lemmas on lines\<close>

definition one_line :: "string \<Rightarrow> bool" where
  "one_line s \<longleftrightarrow> CR \<notin> set s"

lemma split_crlf_line [wire_simps]: "one_line line \<Longrightarrow> split_crlf (line @ CRLF @ rest) = Some (line, rest)"
proof (induction line)
  case (Cons c line)
  then have "c \<noteq> CR" "split_crlf (line @ CRLF @ rest) = Some (line, rest)"
    by (auto simp: one_line_def)
  then show ?case by (cases "line @ CRLF @ rest") (auto simp: CRLF_def)
qed (simp add: CRLF_def)

lemma crlf_simps [simp]:
  "length CRLF = 2" "take 2 (CRLF @ rest) = CRLF" "drop (length s + 2) (s @ CRLF @ rest) = rest"
  by (simp_all add: CRLF_def)

lemma split_crlf_shape: "split_crlf s = Some (line, rest) \<Longrightarrow> s = line @ CRLF @ rest"
  by (induction s arbitrary: line rule: split_crlf.induct)
    (auto simp: CRLF_def split: if_splits option.splits)

lemma split_crlf_append:
  "split_crlf s = Some (line, rest) \<Longrightarrow> split_crlf (s @ more) = Some (line, rest @ more)"
proof (induction s arbitrary: line rule: split_crlf.induct)
  case (3 c d cs)
  then show ?case by (cases cs) (auto split: if_splits option.splits)
qed simp_all

lemma one_line_to_string [simp]: "one_line (to_string n)"
proof -
  have "CR \<notin> set (nat_digits k)" for k
    using nat_digits_digits [of k] not_digit(1) by (auto simp: list_all_iff)
  then show ?thesis by (auto simp: one_line_def to_string_def CR_def)
qed

section \<open>Reading back\<close>

text \<open>
  The values the server builds: only the constructors above, integers and sizes within 64 bits,
  and no line break inside a simple string or an error.
\<close>

fun wellformed :: "resp_value \<Rightarrow> bool" where
  "wellformed (RespValue ty s n items null) \<longleftrightarrow>
     (case ty of
        TSimpleString \<Rightarrow> one_line s \<and> n = 0 \<and> items = [] \<and> \<not> null
      | TError \<Rightarrow> one_line s \<and> n = 0 \<and> items = [] \<and> \<not> null
      | TInteger \<Rightarrow> s = [] \<and> - (2 ^ 63) \<le> n \<and> n < 2 ^ 63 \<and> items = [] \<and> \<not> null
      | TBulkString \<Rightarrow> length s < 2 ^ 63 \<and> n = 0 \<and> items = [] \<and> (null \<longrightarrow> s = [])
      | TArray \<Rightarrow> s = [] \<and> n = 0 \<and> length items < 2 ^ 63 \<and> (null \<longrightarrow> items = []) \<and> list_all wellformed items)"

primrec depth :: "resp_value \<Rightarrow> nat" where
  "depth (RespValue ty s n items null) = Suc (fold max (map depth items) 0)"

lemma fold_max_ge: "x \<in> set xs \<Longrightarrow> x \<le> fold max xs a" "a \<le> fold max xs (a :: nat)"
proof (induction xs arbitrary: a)
  case (Cons y xs)
  {
    case 1
    then show ?case using Cons.IH(1) Cons.IH(2) [of "max y a"] by (auto intro: order_trans [of _ "max y a"])
  next
    case 2
    then show ?case using Cons.IH(2) [of "max y a"] by simp
  }
qed simp_all

lemma read_many_concat:
  assumes "\<And>x rest. x \<in> set xs \<Longrightarrow> rd (enc x @ rest) = Some (x, rest)"
  shows "read_many rd (length xs) (concat (map enc xs) @ rest) = Some (xs, rest)"
  using assms by (induction xs) auto

lemma decode_Encode:
  "wellformed v \<Longrightarrow> depth v \<le> d \<Longrightarrow> decode d (Encode v @ rest) = Some (v, rest)"
proof (induction v arbitrary: d rest)
  case (RespValue ty s n items null)
  obtain d' where d: "d = Suc d'" using RespValue.prems(2) by (cases d) auto
  have items: "decode d' (Encode x @ rest') = Some (x, rest')"
    if "x \<in> set items" "list_all wellformed items" for x rest'
    using RespValue.IH [OF that(1)] RespValue.prems(2) that fold_max_ge(1) [of "depth x" "map depth items" 0]
    by (auto simp: d list_all_iff)
  show ?case
  proof (cases ty)
    case TSimpleString
    then show ?thesis using RespValue.prems by (simp add: d wire_simps SimpleString_def)
  next
    case TError
    then show ?thesis using RespValue.prems by (simp add: d wire_simps Error_def)
  next
    case TInteger
    then show ?thesis using RespValue.prems by (simp add: d wire_simps Integer_def)
  next
    case TBulkString
    have "split_crlf (''-1'' @ CRLF @ rest) = Some (''-1'', rest)"
      by (rule split_crlf_line) (simp add: one_line_def CR_def)
    moreover have "ParseInt64 ''-1'' = Some (- 1)" by code_simp
    ultimately show ?thesis
      using TBulkString RespValue.prems
      by (cases null) (simp_all add: d wire_simps NilBulkString_def BulkString_def)
  next
    case TArray
    have "split_crlf (''-1'' @ CRLF @ rest) = Some (''-1'', rest)"
      by (rule split_crlf_line) (simp add: one_line_def CR_def)
    moreover have "ParseInt64 ''-1'' = Some (- 1)" by code_simp
    moreover have "list_all wellformed items" using TArray RespValue.prems by simp
    ultimately show ?thesis
      using TArray RespValue.prems read_many_concat [of items "decode d'" Encode rest] items
      by (cases null) (simp_all add: d wire_simps NilArray_def Array_def)
  qed
qed

section \<open>Properties\<close>

text \<open>
  C35: The wire form of every reply is self-delimiting: a client that reads from the start of a
  stream recovers exactly the encoded value, nested arrays, null values and binary payloads
  included, and is left at the first byte after it. (Simple strings and errors must not
  contain a carriage return; bulk strings may contain any byte.)
\<close>

theorem resp_roundtrip:
  assumes "wellformed v"
  shows "decode (depth v) (Encode v @ rest) = Some (v, rest)"
  using assms by (rule decode_Encode) simp

theorem resp_roundtrip_witness:
  "decode 2 (Encode (Array [BulkString [CR, LF], Integer (- 7), NilBulkString]) @ ''+OK'')
     = Some (Array [BulkString [CR, LF], Integer (- 7), NilBulkString], ''+OK'')"
proof -
  let ?v = "Array [BulkString [CR, LF], Integer (- 7), NilBulkString]"
  have "wellformed ?v" and d: "depth ?v = 2"
    by (simp_all add: resp_constructors)
  then show ?thesis using resp_roundtrip [of ?v "''+OK''"] unfolding d by blast
qed

end
