(* ===== verification/Glob.thy ===== *)
theory Glob
  imports Prelude
begin

text \<open>
  The pattern matching of the \<^verbatim>\<open>KEYS\<close> command: \<^verbatim>\<open>GlobMatch\<close> of
  \<^verbatim>\<open>src/src/server/dispatcher.cpp\<close>, a loop with one backtracking point, compared with the
  meaning its comment gives the patterns: an asterisk stands for any run of characters, a
  question mark for one character, anything else for itself.

  The two indices of the loop are the rests of the pattern and of the text from there on;
  the backtracking point is the rest of the pattern after the last asterisk and the rest of
  the text where that asterisk was met.
\<close>

section \<open>The loop\<close>

type_synonym backtrack = "(string \<times> string) option"

fun glob_settled :: "string \<Rightarrow> string \<Rightarrow> backtrack \<Rightarrow> bool" where
  "glob_settled ps ts None = True"
| "glob_settled ps ts (Some (sp, st)) = (length ps \<le> length sp \<and> length ts \<le> length st)"

fun star_pattern_size :: "string \<Rightarrow> backtrack \<Rightarrow> nat" where
  "star_pattern_size ps None = length ps"
| "star_pattern_size ps (Some (sp, st)) = length sp"

fun star_text_size :: "backtrack \<Rightarrow> nat" where
  "star_text_size None = 0"
| "star_text_size (Some (sp, st)) = length st"

function glob_loop :: "string \<Rightarrow> string \<Rightarrow> backtrack \<Rightarrow> bool" where
  "glob_loop ps [] star = list_all (\<lambda>c. c = CHR ''*'') ps"
| "glob_loop ps (t # ts) star =
     (if ps \<noteq> [] \<and> (hd ps = CHR ''?'' \<or> hd ps = t) then glob_loop (tl ps) ts star
      else if ps \<noteq> [] \<and> hd ps = CHR ''*'' then glob_loop (tl ps) (t # ts) (Some (tl ps, t # ts))
      else case star of
             None \<Rightarrow> False
           | Some (sp, st) \<Rightarrow> glob_loop sp (tl st) (Some (sp, tl st)))"
  by pat_completeness auto
termination
proof (relation "measures [\<lambda>(ps, ts, star). if glob_settled ps ts star then 0 else 1,
    \<lambda>(ps, ts, star). star_pattern_size ps star, \<lambda>(ps, ts, star). star_text_size star,
    \<lambda>(ps, ts, star). length ts]", goal_cases)
  case (2 ps t ts star)
  then show ?case by (cases star) auto
next
  case (3 ps t ts star)
  then show ?case by (cases star; cases ps) auto
next
  case (4 ps t ts star sp st)
  then show ?case by (cases st) auto
qed simp

lemma glob_loop_backtrack:
  assumes "\<not> (ps \<noteq> [] \<and> (hd ps = CHR ''?'' \<or> hd ps = t))" and "\<not> (ps \<noteq> [] \<and> hd ps = CHR ''*'')"
  shows "glob_loop ps (t # ts) (Some (sp, st)) = glob_loop sp (tl st) (Some (sp, tl st))"
  by (subst glob_loop.simps(2)) (simp only: assms if_False option.case prod.case)

definition GlobMatch :: "string \<Rightarrow> string \<Rightarrow> bool" where
  "GlobMatch pattern key = glob_loop pattern key None"

section \<open>Meaning of patterns\<close>

fun matches :: "string \<Rightarrow> string \<Rightarrow> bool" where
  "matches [] ts = (ts = [])"
| "matches (c # ps) [] = (c = CHR ''*'' \<and> matches ps [])"
| "matches (c # ps) (t # ts) =
     (if c = CHR ''*'' then matches ps (t # ts) \<or> matches (c # ps) ts
      else (c = CHR ''?'' \<or> c = t) \<and> matches ps ts)"

lemma matches_stars: "list_all (\<lambda>c. c = CHR ''*'') ps \<Longrightarrow> matches ps []"
  by (induction ps) auto

lemma matches_Nil_stars: "matches ps [] = list_all (\<lambda>c. c = CHR ''*'') ps"
  by (induction ps) auto

lemma star_empty: "matches ps ts \<Longrightarrow> matches (CHR ''*'' # ps) ts"
  by (cases ts) auto

lemma star_more: "matches (CHR ''*'' # ps) ts \<Longrightarrow> matches (CHR ''*'' # ps) (us @ ts)"
  by (induction us) auto

lemma star_unfold: "matches (CHR ''*'' # ps) (t # ts) \<longleftrightarrow> matches ps (t # ts) \<or> matches (CHR ''*'' # ps) ts"
  by simp

lemma star_suffix: "matches (CHR ''*'' # ps) ts \<longleftrightarrow> (\<exists>us vs. ts = us @ vs \<and> matches ps vs)"
proof
  show "matches (CHR ''*'' # ps) ts \<Longrightarrow> \<exists>us vs. ts = us @ vs \<and> matches ps vs"
  proof (induction ts)
    case Nil
    then show ?case by simp
  next
    case (Cons t ts)
    then show ?case by (metis append_Cons append_Nil star_unfold)
  qed
qed (auto intro: star_more star_empty)

text \<open>The part of a pattern without asterisks fixes how much text it takes.\<close>

lemma matches_fixed:
  assumes "CHR ''*'' \<notin> set cs" and "matches (cs @ ps) ts"
  shows "length cs \<le> length ts \<and> matches ps (drop (length cs) ts)"
  using assms
proof (induction cs arbitrary: ts)
  case (Cons c cs)
  then show ?case by (cases ts) (auto split: if_splits)
qed simp

section \<open>Soundness\<close>

lemma glob_backtrack_sound:
  "matches sp (tl st) \<or> matches (CHR ''*'' # sp) (tl (tl st)) \<Longrightarrow> matches (CHR ''*'' # sp) (tl st)"
  by (cases "tl st") (auto intro: star_empty)

lemma glob_loop_sound:
  "glob_loop ps ts star \<Longrightarrow> matches ps ts \<or>
     (case star of None \<Rightarrow> False | Some (sp, st) \<Rightarrow> matches (CHR ''*'' # sp) (tl st))"
proof (induction ps ts star rule: glob_loop.induct)
  case (1 ps star)
  then show ?case by (simp add: matches_stars)
next
  case (2 ps t ts star)
  let ?other = "case star of None \<Rightarrow> False | Some (sp, st) \<Rightarrow> matches (CHR ''*'' # sp) (tl st)"
  show ?case
  proof (cases "ps \<noteq> [] \<and> (hd ps = CHR ''?'' \<or> hd ps = t)")
    case True
    then have "matches (tl ps) ts \<or> ?other" using "2.IH"(1) "2.prems" by simp
    moreover have "matches (tl ps) ts \<Longrightarrow> matches ps (t # ts)"
      using True star_empty [of "tl ps" ts] by (cases ps) auto
    ultimately show ?thesis by blast
  next
    case no_char: False
    show ?thesis
    proof (cases "ps \<noteq> [] \<and> hd ps = CHR ''*''")
      case True
      then have "matches (tl ps) (t # ts) \<or> matches (CHR ''*'' # tl ps) ts"
        using "2.IH"(2) [OF no_char] "2.prems" no_char by simp
      then show ?thesis using True by (cases ps) auto
    next
      case False
      then obtain sp st where star: "star = Some (sp, st)" "glob_loop sp (tl st) (Some (sp, tl st))"
        using "2.prems" no_char by (auto split: option.splits if_splits)
      then have "matches sp (tl st) \<or> matches (CHR ''*'' # sp) (tl (tl st))"
        using "2.IH"(3) [OF no_char False star(1) refl] by simp
      then show ?thesis using star glob_backtrack_sound by simp
    qed
  qed
qed

section \<open>Completeness\<close>

text \<open>
  Since the last asterisk the loop has matched characters one to one: the pattern consumed since
  then has no asterisk and is as long as the text consumed.
\<close>

definition tracked :: "string \<Rightarrow> string \<Rightarrow> backtrack \<Rightarrow> bool" where
  "tracked ps ts star \<longleftrightarrow> (case star of
      None \<Rightarrow> True
    | Some (sp, st) \<Rightarrow> CHR ''*'' \<notin> set st
        \<and> (\<exists>cs us. sp = cs @ ps \<and> CHR ''*'' \<notin> set cs \<and> st = us @ ts \<and> length us = length cs))"

lemma tracked_step:
  assumes "tracked (c # ps) (t # ts) star" and "c \<noteq> CHR ''*''"
  shows "tracked ps ts star"
proof (cases star)
  case (Some b)
  obtain sp st where b: "b = (sp, st)" by (cases b)
  obtain cs us where "sp = cs @ c # ps" "CHR ''*'' \<notin> set cs" "st = us @ t # ts" "length us = length cs"
    "CHR ''*'' \<notin> set st"
    using assms(1) by (auto simp: tracked_def Some b)
  then show ?thesis
    using assms(2) unfolding tracked_def Some b
    by (auto intro!: exI [of _ "cs @ [c]"] exI [of _ "us @ [t]"])
qed (simp add: tracked_def)

text \<open>
  A match in which the last asterisk takes more text is also one in which the text at hand
  begins with a longer run before the pattern at hand.
\<close>

lemma later_match:
  assumes "tracked ps ts (Some (sp, st))" and "st \<noteq> []" and "matches (CHR ''*'' # sp) (tl st)"
  shows "ts \<noteq> [] \<and> matches (CHR ''*'' # ps) (tl ts)"
proof -
  obtain cs us where sp: "sp = cs @ ps" "CHR ''*'' \<notin> set cs" and st: "st = us @ ts" "length us = length cs"
    using assms(1) by (auto simp: tracked_def)
  obtain xs ys where xy: "tl st = xs @ ys" "matches (cs @ ps) ys"
    using assms(3) sp(1) by (auto simp: star_suffix)
  then have m: "length cs \<le> length ys" "matches ps (drop (length cs) ys)"
    using matches_fixed [OF sp(2)] by auto
  have len: "length ts = Suc (length xs + length ys) - length cs"
  proof -
    have "0 < length cs + length ts" using assms(2) st by (metis length_append length_greater_0_conv)
    moreover have "length cs + length ts - 1 = length xs + length ys"
      using arg_cong [OF xy(1), of length] st by simp
    ultimately show ?thesis by linarith
  qed
  have "drop (length cs) ys = drop (length xs + length cs) (tl st)" using xy by simp
  also have "\<dots> = drop (Suc (length xs + length cs)) (us @ ts)" by (simp only: drop_Suc st(1))
  also have "\<dots> = drop (length xs) (tl ts)" using st(2) by (simp add: drop_Suc)
  finally have "tl ts = take (length xs) (tl ts) @ drop (length cs) ys" by simp
  then have "matches (CHR ''*'' # ps) (tl ts)" using m(2) star_suffix by metis
  then show ?thesis using len m(1) by auto
qed

lemma star_star: "matches (CHR ''*'' # CHR ''*'' # ps) ts \<Longrightarrow> matches (CHR ''*'' # ps) ts"
  using star_suffix star_more by metis

lemma tracked_start: "CHR ''*'' \<notin> set ts \<Longrightarrow> tracked ps ts (Some (ps, ts))"
  by (simp add: tracked_def)

text \<open>What is left to hope for: a match of the rests, or one from the backtracking point.\<close>

definition hopeful :: "string \<Rightarrow> string \<Rightarrow> backtrack \<Rightarrow> bool" where
  "hopeful ps ts star \<longleftrightarrow> matches ps ts \<or>
     (case star of None \<Rightarrow> False | Some (sp, st) \<Rightarrow> st \<noteq> [] \<and> matches (CHR ''*'' # sp) (tl st))"

lemma hopeful_start: "matches (CHR ''*'' # sp) ts \<Longrightarrow> hopeful sp ts (Some (sp, ts))"
  by (cases ts) (auto simp: hopeful_def)

lemma hopeful_here:
  assumes "hopeful ps ts star" and "tracked ps ts star" and "\<not> matches ps ts"
  shows "ts \<noteq> [] \<and> matches (CHR ''*'' # ps) (tl ts)"
  using assms later_match by (auto simp: hopeful_def split: option.splits)

lemma glob_loop_complete:
  "\<lbrakk>tracked ps ts star; CHR ''*'' \<notin> set ts; hopeful ps ts star\<rbrakk> \<Longrightarrow> glob_loop ps ts star"
proof (induction ps ts star rule: glob_loop.induct)
  case (1 ps star)
  then have "matches ps []" using hopeful_here by blast
  then show ?case by (simp add: matches_Nil_stars)
next
  case (2 ps t ts star)
  have t: "t \<noteq> CHR ''*''" "CHR ''*'' \<notin> set ts" using "2.prems"(2) by auto
  show ?case
  proof (cases "ps \<noteq> [] \<and> (hd ps = CHR ''?'' \<or> hd ps = t)")
    case True
    then have "hd ps \<noteq> CHR ''*''" using t by auto
    then have "tracked (tl ps) ts star" "hopeful (tl ps) ts star"
      using True "2.prems" tracked_step [of "hd ps" "tl ps" t ts star] by (cases ps; auto simp: hopeful_def)+
    then show ?thesis using "2.IH"(1) True t by simp
  next
    case no_char: False
    show ?thesis
    proof (cases "ps \<noteq> [] \<and> hd ps = CHR ''*''")
      case True
      then obtain ps' where ps: "ps = CHR ''*'' # ps'" by (cases ps) auto
      have "matches (CHR ''*'' # ps') (t # ts)"
      proof (cases "matches ps (t # ts)")
        case False
        then have "matches (CHR ''*'' # CHR ''*'' # ps') ts" using hopeful_here "2.prems" ps by fastforce
        then have "matches (CHR ''*'' # ps') ts" by (rule star_star)
        then show ?thesis by simp
      qed (simp add: ps)
      then show ?thesis
        using "2.IH"(2) [OF no_char True] "2.prems"(2) hopeful_start tracked_start no_char True by (simp add: ps)
    next
      case False
      then have "\<not> matches ps (t # ts)" using no_char by (cases ps) auto
      then obtain sp st where star: "star = Some (sp, st)" "st \<noteq> []" "matches (CHR ''*'' # sp) (tl st)"
        using "2.prems"(3) by (auto simp: hopeful_def split: option.splits)
      have "CHR ''*'' \<notin> set (tl st)"
        using "2.prems"(1) star by (cases st) (auto simp: tracked_def)
      then have "glob_loop sp (tl st) (Some (sp, tl st))"
        using "2.IH"(3) [OF no_char False star(1) refl] hopeful_start [OF star(3)] tracked_start by blast
      then show ?thesis
        using glob_loop_backtrack [OF no_char False] by (simp only: star(1))
    qed
  qed
qed

section \<open>Properties\<close>

text \<open>
  C34: GlobMatch never accepts a text that the pattern does not describe, and it accepts every
  text that the pattern describes as long as the text contains no asterisk itself: the loop
  with its single backtracking point decides the same relation as the recursive definition
  of the patterns.
\<close>

theorem glob_match_spec:
  "(GlobMatch pattern key \<longrightarrow> matches pattern key)
    \<and> (CHR ''*'' \<notin> set key \<longrightarrow> matches pattern key \<longrightarrow> GlobMatch pattern key)"
  using glob_loop_sound [of pattern key None] glob_loop_complete [of pattern key None]
  by (auto simp: GlobMatch_def tracked_def hopeful_def)

theorem glob_match_spec_witness:
  "GlobMatch ''a*b?'' ''axxbybz'' \<and> matches ''a*b?'' ''axxbybz''"
proof -
  have "matches ''a*b?'' ''axxbybz''" by code_simp
  then show ?thesis using glob_match_spec [of "''a*b?''" "''axxbybz''"] by simp
qed

text \<open>
  On a text with an asterisk it can miss: the loop compares the characters before it looks
  for a wildcard, so a wildcard that meets an asterisk in the text stands for that one
  character only. The pattern of a lone asterisk rejects the text \<open>*a\<close>.
\<close>

theorem glob_star_meets_star:
  "\<not> GlobMatch ''*'' ''*a'' \<and> matches ''*'' ''*a''"
  by code_simp

end
