(* ===== verification/Dispatcher.thy ===== *)
theory Dispatcher
  imports Store_Lifecycle RespValue Glob
begin

text \<open>
  The command dispatcher: \<^verbatim>\<open>src/src/server/dispatcher.cpp\<close>. One definition per command, each the
  whole branch of \<^verbatim>\<open>Dispatch\<close>: arity check, argument parsing, the call of the store, the call of
  \<^verbatim>\<open>aof->Append\<close> and the reply.

  An \<open>outcome\<close> is the reply, the command handed to \<^verbatim>\<open>aof->Append\<close> if that call is reached (it is
  made only when a writer is configured, which is the business of the caller's side of the
  model), and the store afterwards. The surroundings of the \<open>i\<close>-th store call of a command are
  \<open>es i\<close>; only \<^verbatim>\<open>SET ... EX\<close> makes two.

  \<^verbatim>\<open>Dispatch\<close> is never called with an empty command (theorem on the limits of the parser), so
  \<open>args ! 0\<close> is the name.
\<close>

section \<open>Helpers\<close>

text \<open>\<^verbatim>\<open>std::toupper\<close> and \<^verbatim>\<open>std::tolower\<close> in the C locale.\<close>

definition toupper :: "char \<Rightarrow> char" where
  "toupper c = (let n = of_char c :: nat in if 97 \<le> n \<and> n \<le> 122 then char_of (n - 32) else c)"

definition tolower :: "char \<Rightarrow> char" where
  "tolower c = (let n = of_char c :: nat in if 65 \<le> n \<and> n \<le> 90 then char_of (n + 32) else c)"

definition ToUpper :: "string \<Rightarrow> string" where
  "ToUpper s = map toupper s"

definition ToLower :: "string \<Rightarrow> string" where
  "ToLower s = map tolower s"

definition quote_mark :: string where
  "quote_mark = [CHR 0x27]"

definition WrongArgsError :: "string \<Rightarrow> resp_value" where
  "WrongArgsError cmd_original =
     Error (''ERR wrong number of arguments for '' @ quote_mark @ ToLower cmd_original @ quote_mark @ '' command'')"

definition WrongTypeError :: resp_value where
  "WrongTypeError = Error ''WRONGTYPE Operation against a key holding the wrong kind of value''"

definition NotIntegerError :: resp_value where
  "NotIntegerError = Error ''ERR value is not an integer or out of range''"

definition ParseInt64Arg :: "string \<Rightarrow> int option" where
  "ParseInt64Arg s =
     (if s = [] then None
      else case from_chars s of
             None \<Rightarrow> None
           | Some (n, rest) \<Rightarrow> if rest = [] then Some n else None)"

definition ClampToInt :: "int \<Rightarrow> int" where
  "ClampToInt v = (if v > 2147483647 then 2147483647 else if v < - 2147483648 then - 2147483648 else v)"

definition StringsToBulkArray :: "string list \<Rightarrow> resp_value" where
  "StringsToBulkArray items = Array (map BulkString items)"

section \<open>Commands\<close>

record outcome =
  reply :: resp_value
  logged :: "string list option"
  new_state :: store

abbreviation answered :: "resp_value \<Rightarrow> store \<Rightarrow> outcome" where
  "answered r s \<equiv> \<lparr>reply = r, logged = None, new_state = s\<rparr>"

definition cmd_PING :: "string list \<Rightarrow> store \<Rightarrow> outcome" where
  "cmd_PING args s =
     (if length args = 1 then answered (SimpleString ''PONG'') s
      else if length args = 2 then answered (BulkString (args ! 1)) s
      else answered (WrongArgsError (args ! 0)) s)"

definition cmd_ECHO :: "string list \<Rightarrow> store \<Rightarrow> outcome" where
  "cmd_ECHO args s =
     (if length args \<noteq> 2 then answered (WrongArgsError (args ! 0)) s
      else answered (BulkString (args ! 1)) s)"

definition cmd_SET :: "(nat \<Rightarrow> env) \<Rightarrow> string list \<Rightarrow> store \<Rightarrow> outcome" where
  "cmd_SET es args s =
     (if length args \<noteq> 3 \<and> length args \<noteq> 5 then answered (WrongArgsError (args ! 0)) s
      else if length args = 5 then
        (if ToUpper (args ! 3) \<noteq> ''EX'' then answered (Error ''ERR syntax error'') s
         else case ParseInt64Arg (args ! 4) of
           None \<Rightarrow> answered NotIntegerError s
         | Some seconds \<Rightarrow>
             (let s1 = Store_Set (es 0) (args ! 1) (args ! 2) s;
                  s2 = snd (Expire (es 1) (args ! 1) seconds s1)
              in \<lparr>reply = SimpleString ''OK'', logged = Some args, new_state = s2\<rparr>))
      else \<lparr>reply = SimpleString ''OK'', logged = Some args,
            new_state = Store_Set (es 0) (args ! 1) (args ! 2) s\<rparr>)"

text \<open>The reply of a read that yields an optional string.\<close>

definition string_reply :: "string result \<Rightarrow> resp_value" where
  "string_reply r =
     (if \<not> Ok r then WrongTypeError
      else case res_value r of None \<Rightarrow> NilBulkString | Some x \<Rightarrow> BulkString x)"

definition cmd_GET :: "(nat \<Rightarrow> env) \<Rightarrow> string list \<Rightarrow> store \<Rightarrow> outcome" where
  "cmd_GET es args s =
     (if length args \<noteq> 2 then answered (WrongArgsError (args ! 0)) s
      else let (r, s1) = Store_Get (es 0) (args ! 1) s in answered (string_reply r) s1)"

definition cmd_DEL :: "(nat \<Rightarrow> env) \<Rightarrow> string list \<Rightarrow> store \<Rightarrow> outcome" where
  "cmd_DEL es args s =
     (if length args < 2 then answered (WrongArgsError (args ! 0)) s
      else let (removed, s1) = Store_Del (es 0) (drop 1 args) s
           in \<lparr>reply = Integer removed, logged = Some args, new_state = s1\<rparr>)"

definition cmd_EXISTS :: "(nat \<Rightarrow> env) \<Rightarrow> string list \<Rightarrow> store \<Rightarrow> outcome" where
  "cmd_EXISTS es args s =
     (if length args < 2 then answered (WrongArgsError (args ! 0)) s
      else let (n, s1) = Store_Exists (es 0) (drop 1 args) s in answered (Integer n) s1)"

definition cmd_KEYS :: "(nat \<Rightarrow> env) \<Rightarrow> string list \<Rightarrow> store \<Rightarrow> outcome" where
  "cmd_KEYS es args s =
     (if length args \<noteq> 2 then answered (WrongArgsError (args ! 0)) s
      else let (keys, s1) = Store_Keys (es 0) s
           in answered (StringsToBulkArray (filter (GlobMatch (args ! 1)) keys)) s1)"

definition cmd_FLUSHALL :: "string list \<Rightarrow> store \<Rightarrow> outcome" where
  "cmd_FLUSHALL args s =
     (if length args \<noteq> 1 then answered (WrongArgsError (args ! 0)) s
      else \<lparr>reply = SimpleString ''OK'', logged = Some args, new_state = FlushAll s\<rparr>)"

definition cmd_EXPIRE :: "(nat \<Rightarrow> env) \<Rightarrow> string list \<Rightarrow> store \<Rightarrow> outcome" where
  "cmd_EXPIRE es args s =
     (if length args \<noteq> 3 then answered (WrongArgsError (args ! 0)) s
      else case ParseInt64Arg (args ! 2) of
        None \<Rightarrow> answered NotIntegerError s
      | Some seconds \<Rightarrow>
          (let (existed, s1) = Expire (es 0) (args ! 1) seconds s
           in \<lparr>reply = Integer (if existed then 1 else 0), logged = Some args, new_state = s1\<rparr>))"

definition cmd_TTL :: "(nat \<Rightarrow> env) \<Rightarrow> string list \<Rightarrow> store \<Rightarrow> outcome" where
  "cmd_TTL es args s =
     (if length args \<noteq> 2 then answered (WrongArgsError (args ! 0)) s
      else let (n, s1) = TTL (es 0) (args ! 1) s in answered (Integer n) s1)"

text \<open>The end of a write that may meet a key of the wrong type.\<close>

definition write_outcome :: "string list \<Rightarrow> int result \<times> store \<Rightarrow> outcome" where
  "write_outcome args res =
     (let (r, s1) = res in
      if \<not> Ok r then answered WrongTypeError s1
      else \<lparr>reply = Integer (the (res_value r)), logged = Some args, new_state = s1\<rparr>)"

definition cmd_PUSH :: "(nat \<Rightarrow> env) \<Rightarrow> string list \<Rightarrow> store \<Rightarrow> outcome" where
  "cmd_PUSH es args s =
     (if length args < 3 then answered (WrongArgsError (args ! 0)) s
      else write_outcome args
        (if ToUpper (args ! 0) = ''LPUSH'' then LPush (es 0) (args ! 1) (drop 2 args) s
         else RPush (es 0) (args ! 1) (drop 2 args) s))"

text \<open>The end of a read that yields a number or a list of strings.\<close>

definition int_outcome :: "int result \<times> store \<Rightarrow> outcome" where
  "int_outcome res =
     (let (r, s1) = res in
      answered (if \<not> Ok r then WrongTypeError else Integer (the (res_value r))) s1)"

definition strings_outcome :: "string list result \<times> store \<Rightarrow> outcome" where
  "strings_outcome res =
     (let (r, s1) = res in
      answered (if \<not> Ok r then WrongTypeError else StringsToBulkArray (the (res_value r))) s1)"

definition cmd_LLEN :: "(nat \<Rightarrow> env) \<Rightarrow> string list \<Rightarrow> store \<Rightarrow> outcome" where
  "cmd_LLEN es args s =
     (if length args \<noteq> 2 then answered (WrongArgsError (args ! 0)) s
      else int_outcome (LLen (es 0) (args ! 1) s))"

definition cmd_LRANGE :: "(nat \<Rightarrow> env) \<Rightarrow> string list \<Rightarrow> store \<Rightarrow> outcome" where
  "cmd_LRANGE es args s =
     (if length args \<noteq> 4 then answered (WrongArgsError (args ! 0)) s
      else case (ParseInt64Arg (args ! 2), ParseInt64Arg (args ! 3)) of
        (Some start, Some stop) \<Rightarrow>
          strings_outcome (LRange (es 0) (args ! 1) (ClampToInt start) (ClampToInt stop) s)
      | _ \<Rightarrow> answered NotIntegerError s)"

fun field_pairs :: "string list \<Rightarrow> (string \<times> string) list" where
  "field_pairs (field # val # rest) = (field, val) # field_pairs rest"
| "field_pairs _ = []"

definition cmd_HSET :: "(nat \<Rightarrow> env) \<Rightarrow> string list \<Rightarrow> store \<Rightarrow> outcome" where
  "cmd_HSET es args s =
     (if length args < 4 \<or> length args mod 2 \<noteq> 0 then answered (WrongArgsError (args ! 0)) s
      else write_outcome args (HSet (es 0) (args ! 1) (field_pairs (drop 2 args)) s))"

definition cmd_HGET :: "(nat \<Rightarrow> env) \<Rightarrow> string list \<Rightarrow> store \<Rightarrow> outcome" where
  "cmd_HGET es args s =
     (if length args \<noteq> 3 then answered (WrongArgsError (args ! 0)) s
      else let (r, s1) = HGet (es 0) (args ! 1) (args ! 2) s in answered (string_reply r) s1)"

definition cmd_HDEL :: "(nat \<Rightarrow> env) \<Rightarrow> string list \<Rightarrow> store \<Rightarrow> outcome" where
  "cmd_HDEL es args s =
     (if length args < 3 then answered (WrongArgsError (args ! 0)) s
      else write_outcome args (HDel (es 0) (args ! 1) (drop 2 args) s))"

definition cmd_HGETALL :: "(nat \<Rightarrow> env) \<Rightarrow> string list \<Rightarrow> store \<Rightarrow> outcome" where
  "cmd_HGETALL es args s =
     (if length args \<noteq> 2 then answered (WrongArgsError (args ! 0)) s
      else let (r, s1) = HGetAll (es 0) (args ! 1) s in
        if \<not> Ok r then answered WrongTypeError s1
        else answered (Array (concat (map (\<lambda>(field, val). [BulkString field, BulkString val])
               (the (res_value r))))) s1)"

definition cmd_HLEN :: "(nat \<Rightarrow> env) \<Rightarrow> string list \<Rightarrow> store \<Rightarrow> outcome" where
  "cmd_HLEN es args s =
     (if length args \<noteq> 2 then answered (WrongArgsError (args ! 0)) s
      else int_outcome (HLen (es 0) (args ! 1) s))"

definition cmd_HEXISTS :: "(nat \<Rightarrow> env) \<Rightarrow> string list \<Rightarrow> store \<Rightarrow> outcome" where
  "cmd_HEXISTS es args s =
     (if length args \<noteq> 3 then answered (WrongArgsError (args ! 0)) s
      else int_outcome (HExists (es 0) (args ! 1) (args ! 2) s))"

definition cmd_HKEYS_HVALS :: "(nat \<Rightarrow> env) \<Rightarrow> string list \<Rightarrow> store \<Rightarrow> outcome" where
  "cmd_HKEYS_HVALS es args s =
     (if length args \<noteq> 2 then answered (WrongArgsError (args ! 0)) s
      else strings_outcome
        (if ToUpper (args ! 0) = ''HKEYS'' then HKeys (es 0) (args ! 1) s else HVals (es 0) (args ! 1) s))"

definition Dispatch :: "(nat \<Rightarrow> env) \<Rightarrow> string list \<Rightarrow> store \<Rightarrow> outcome" where
  "Dispatch es args s =
     (let cmd = ToUpper (args ! 0) in
      if cmd = ''PING'' then cmd_PING args s
      else if cmd = ''ECHO'' then cmd_ECHO args s
      else if cmd = ''SET'' then cmd_SET es args s
      else if cmd = ''GET'' then cmd_GET es args s
      else if cmd = ''DEL'' then cmd_DEL es args s
      else if cmd = ''EXISTS'' then cmd_EXISTS es args s
      else if cmd = ''KEYS'' then cmd_KEYS es args s
      else if cmd = ''FLUSHALL'' then cmd_FLUSHALL args s
      else if cmd = ''EXPIRE'' then cmd_EXPIRE es args s
      else if cmd = ''TTL'' then cmd_TTL es args s
      else if cmd = ''LPUSH'' \<or> cmd = ''RPUSH'' then cmd_PUSH es args s
      else if cmd = ''LLEN'' then cmd_LLEN es args s
      else if cmd = ''LRANGE'' then cmd_LRANGE es args s
      else if cmd = ''HSET'' then cmd_HSET es args s
      else if cmd = ''HGET'' then cmd_HGET es args s
      else if cmd = ''HDEL'' then cmd_HDEL es args s
      else if cmd = ''HGETALL'' then cmd_HGETALL es args s
      else if cmd = ''HLEN'' then cmd_HLEN es args s
      else if cmd = ''HEXISTS'' then cmd_HEXISTS es args s
      else if cmd = ''HKEYS'' \<or> cmd = ''HVALS'' then cmd_HKEYS_HVALS es args s
      else answered (Error (''ERR unknown command '' @ quote_mark @ args ! 0 @ quote_mark)) s)"

lemmas command_defs = cmd_PING_def cmd_ECHO_def cmd_SET_def cmd_GET_def cmd_DEL_def cmd_EXISTS_def
  cmd_KEYS_def cmd_FLUSHALL_def cmd_EXPIRE_def cmd_TTL_def cmd_PUSH_def cmd_LLEN_def cmd_LRANGE_def
  cmd_HSET_def cmd_HGET_def cmd_HDEL_def cmd_HGETALL_def cmd_HLEN_def cmd_HEXISTS_def cmd_HKEYS_HVALS_def

lemmas outcome_defs = string_reply_def write_outcome_def int_outcome_def strings_outcome_def

text \<open>A property of outcomes holds of \<open>Dispatch\<close> if it holds of every command.\<close>

lemma Dispatch_cases:
  assumes "P (cmd_PING args s)" "P (cmd_ECHO args s)" "P (cmd_SET es args s)" "P (cmd_GET es args s)"
    "P (cmd_DEL es args s)" "P (cmd_EXISTS es args s)" "P (cmd_KEYS es args s)" "P (cmd_FLUSHALL args s)"
    "P (cmd_EXPIRE es args s)" "P (cmd_TTL es args s)" "P (cmd_PUSH es args s)" "P (cmd_LLEN es args s)"
    "P (cmd_LRANGE es args s)" "P (cmd_HSET es args s)" "P (cmd_HGET es args s)" "P (cmd_HDEL es args s)"
    "P (cmd_HGETALL es args s)" "P (cmd_HLEN es args s)" "P (cmd_HEXISTS es args s)"
    "P (cmd_HKEYS_HVALS es args s)"
    "P (answered (Error (''ERR unknown command '' @ quote_mark @ args ! 0 @ quote_mark)) s)"
  shows "P (Dispatch es args s)"
  unfolding Dispatch_def Let_def using assms by simp

section \<open>The invariant of the store\<close>

lemma write_outcome_state [simp]: "new_state (write_outcome args res) = snd res"
  by (simp add: write_outcome_def case_prod_beta)

lemma int_outcome_fields [simp]: "new_state (int_outcome res) = snd res" "logged (int_outcome res) = None"
  by (simp_all add: int_outcome_def case_prod_beta)

lemma strings_outcome_fields [simp]:
  "new_state (strings_outcome res) = snd res" "logged (strings_outcome res) = None"
  by (simp_all add: strings_outcome_def case_prod_beta)

lemma Dispatch_inv [inv_intros]: "store_inv s \<Longrightarrow> store_inv (new_state (Dispatch es args s))"
  by (rule Dispatch_cases)
    (simp_all add: command_defs case_prod_beta Let_def inv_intros split: option.split)

section \<open>Replies\<close>

text \<open>Sizes and integers of a reply are within what the wire format can count.\<close>

fun sized :: "resp_value \<Rightarrow> bool" where
  "sized (RespValue ty s n items null) \<longleftrightarrow>
     length s < 2 ^ 63 \<and> - (2 ^ 63) \<le> n \<and> n < 2 ^ 63 \<and> length items < 2 ^ 63 \<and> list_all sized items"

text \<open>A value built by the constructors, with no line break in a simple string or an error.\<close>

fun framed :: "resp_value \<Rightarrow> bool" where
  "framed (RespValue ty s n items null) \<longleftrightarrow>
     (case ty of
        TSimpleString \<Rightarrow> one_line s \<and> n = 0 \<and> items = [] \<and> \<not> null
      | TError \<Rightarrow> one_line s \<and> n = 0 \<and> items = [] \<and> \<not> null
      | TInteger \<Rightarrow> s = [] \<and> items = [] \<and> \<not> null
      | TBulkString \<Rightarrow> n = 0 \<and> items = [] \<and> (null \<longrightarrow> s = [])
      | TArray \<Rightarrow> s = [] \<and> n = 0 \<and> (null \<longrightarrow> items = []) \<and> list_all framed items)"

lemma framed_sized: "framed v \<Longrightarrow> sized v \<Longrightarrow> wellformed v"
proof (induction v)
  case (RespValue ty s n items null)
  then show ?case by (cases ty) (auto simp: list_all_iff)
qed

lemma framed_simps [simp]:
  "framed (SimpleString x) = one_line x" "framed (Error x) = one_line x" "framed (Integer n)"
  "framed (BulkString x)" "framed NilBulkString" "framed (Array vs) = list_all framed vs"
  by (simp_all add: resp_constructors)

lemma framed_StringsToBulkArray [simp]: "framed (StringsToBulkArray xs)"
  by (simp add: StringsToBulkArray_def list_all_iff)

lemma of_char_CR: "(of_char CR :: nat) = 13"
  by (simp add: CR_def)

lemma tolower_CR: "tolower c = CR \<longleftrightarrow> c = CR"
proof -
  have "char_of (of_char c + 32 :: nat) \<noteq> CR" if "(of_char c :: nat) \<le> 90" "65 \<le> (of_char c :: nat)"
  proof
    assume "char_of (of_char c + 32 :: nat) = CR"
    then have "of_char (char_of (of_char c + 32 :: nat)) = (13 :: nat)" by (simp only: of_char_CR)
    then show False using that by simp
  qed
  then show ?thesis using of_char_CR by (auto simp: tolower_def Let_def)
qed

lemma one_line_simps [simp]:
  "one_line []" "one_line (c # s) \<longleftrightarrow> c \<noteq> CR \<and> one_line s" "one_line (s @ t) \<longleftrightarrow> one_line s \<and> one_line t"
  by (auto simp: one_line_def)

lemma one_line_ToLower [simp]: "one_line (ToLower s) = one_line s"
  using tolower_CR by (simp add: one_line_def ToLower_def image_iff) metis

lemma framed_errors [simp]:
  "framed (WrongArgsError c) = one_line c" "framed WrongTypeError" "framed NotIntegerError"
  by (simp_all add: WrongArgsError_def WrongTypeError_def NotIntegerError_def CR_def quote_mark_def)

lemma Dispatch_framed: "one_line (args ! 0) \<Longrightarrow> framed (reply (Dispatch es args s))"
  by (rule Dispatch_cases)
    (auto simp: command_defs outcome_defs case_prod_beta Let_def list_all_iff CR_def quote_mark_def split: option.split)

section \<open>What is logged\<close>

text \<open>The surroundings of all store calls of a command read clocks no later than \<open>now\<close>.\<close>

definition settled_by :: "int \<Rightarrow> (nat \<Rightarrow> env) \<Rightarrow> bool" where
  "settled_by now es \<longleftrightarrow> (\<forall>j i. clk (es j) i \<le> now)"

lemma reads_live:
  assumes "store_inv s" and "settled_by now es"
  shows "live now (keyspace_of (snd (Store_Get (es j) k s))) = live now (keyspace_of s)"
    "live now (keyspace_of (snd (LLen (es j) k s))) = live now (keyspace_of s)"
    "live now (keyspace_of (snd (LRange (es j) k a b s))) = live now (keyspace_of s)"
    "live now (keyspace_of (snd (HGet (es j) k f s))) = live now (keyspace_of s)"
    "live now (keyspace_of (snd (HGetAll (es j) k s))) = live now (keyspace_of s)"
    "live now (keyspace_of (snd (HLen (es j) k s))) = live now (keyspace_of s)"
    "live now (keyspace_of (snd (HExists (es j) k f s))) = live now (keyspace_of s)"
    "live now (keyspace_of (snd (HKeys (es j) k s))) = live now (keyspace_of s)"
    "live now (keyspace_of (snd (HVals (es j) k s))) = live now (keyspace_of s)"
    "live now (keyspace_of (snd (TTL (es j) k s))) = live now (keyspace_of s)"
    "live now (keyspace_of (snd (Store_Exists (es j) ks s))) = live now (keyspace_of s)"
    "live now (keyspace_of (snd (Store_Keys (es j) s))) = live now (keyspace_of s)"
  unfolding Store_Get_def LLen_def LRange_def HGet_def HGetAll_def HLen_def HExists_def HKeys_def HVals_def
    TTL_def Store_Exists_def Store_Keys_def
  using assms
  by (simp_all add: settled_by_def read_typed_unobservable SweepDelete_unobservable live_after_delete_expired Let_def
      case_prod_beta split: option.split)

text \<open>
  A write with a type check either meets the wrong type and leaves the store as it is, or
  answers a number; it never leaves the caller with an empty optional.
\<close>

lemma checked_write:
  assumes "case spec of None \<Rightarrow> res = (wrong_type, s) | Some (n, m) \<Rightarrow> fst res = found n \<and> Q n m"
  shows "\<not> Ok (fst res) \<Longrightarrow> snd res = s" and "Ok (fst res) \<Longrightarrow> res_value (fst res) \<noteq> None"
  using assms by (auto simp: Ok_def split: option.splits)

lemma checked_writes:
  assumes inv: "store_inv s"
  shows "\<not> Ok (fst (LPush e k vals s)) \<Longrightarrow> snd (LPush e k vals s) = s"
    and "\<not> Ok (fst (RPush e k vals s)) \<Longrightarrow> snd (RPush e k vals s) = s"
    and "\<not> Ok (fst (HSet e k fvs s)) \<Longrightarrow> snd (HSet e k fvs s) = s"
    and "\<not> Ok (fst (HDel e k fs s)) \<Longrightarrow> snd (HDel e k fs s) = s"
    and "Ok (fst (LPush e k vals s)) \<Longrightarrow> res_value (fst (LPush e k vals s)) \<noteq> None"
    and "Ok (fst (RPush e k vals s)) \<Longrightarrow> res_value (fst (RPush e k vals s)) \<noteq> None"
    and "Ok (fst (HSet e k fvs s)) \<Longrightarrow> res_value (fst (HSet e k fvs s)) \<noteq> None"
    and "Ok (fst (HDel e k fs s)) \<Longrightarrow> res_value (fst (HDel e k fs s)) \<noteq> None"
  unfolding pushes_push_with
  using checked_write [OF push_with_refines [OF inv]] checked_write [OF HSet_refines [OF inv]]
    checked_write [OF HDel_refines [OF inv]] by blast+

lemma write_outcome_unlogged:
  "logged (write_outcome args res) = None \<longleftrightarrow> \<not> Ok (fst res)"
  by (simp add: write_outcome_def case_prod_beta)

lemma Dispatch_unlogged_live:
  assumes "store_inv s" and "settled_by now es"
  shows "logged (Dispatch es args s) = None \<longrightarrow>
    live now (keyspace_of (new_state (Dispatch es args s))) = live now (keyspace_of s)"
  by (rule Dispatch_cases)
    (use assms in \<open>auto simp: command_defs case_prod_beta Let_def reads_live write_outcome_unlogged checked_writes
      split: option.splits\<close>)

section \<open>Properties\<close>

text \<open>
  Every reply keeps to its frame: when the command name contains no carriage return, the
  reply to any command, with any arguments and in any state of the store, is one a client
  reads back as exactly that value (with sizes below \<open>2\<^sup>6\<^sup>3\<close>).
\<close>

theorem dispatch_reply_decodable:
  assumes "one_line (args ! 0)" and "sized (reply (Dispatch es args s))"
  shows "decode (depth (reply (Dispatch es args s))) (Encode (reply (Dispatch es args s)) @ rest)
    = Some (reply (Dispatch es args s), rest)"
  using framed_sized [OF Dispatch_framed [OF assms(1)] assms(2)] decode_Encode by blast

theorem dispatch_reply_decodable_witness:
  "decode 1 (Encode (reply (Dispatch (\<lambda>_. still 0) [''ping'', [CR, LF]] new_store)) @ ''+OK'')
     = Some (BulkString [CR, LF], ''+OK'')"
proof -
  have r: "reply (Dispatch (\<lambda>_. still 0) [''ping'', [CR, LF]] new_store) = BulkString [CR, LF]"
    by code_simp
  then show ?thesis
    using dispatch_reply_decodable [of "[''ping'', [CR, LF]]" "\<lambda>_. still 0" new_store "''+OK''"]
    by (simp add: resp_constructors CR_def)
qed

text \<open>
  The condition on the name is needed: the name of an unknown command is echoed raw in the
  error, so one with a line break in it makes the server answer one command with two replies.
\<close>

theorem unknown_command_injects_reply:
  "decode 1 (Encode (reply (Dispatch es [''x'' @ CRLF @ ''+OK''] s)))
     = Some (Error (''ERR unknown command '' @ quote_mark @ ''x''), ''+OK'' @ quote_mark @ CRLF)"
proof -
  have "reply (Dispatch es [''x'' @ CRLF @ ''+OK''] s)
      = Error (''ERR unknown command '' @ quote_mark @ (''x'' @ CRLF @ ''+OK'') @ quote_mark)"
    by (simp add: Dispatch_def Let_def ToUpper_def toupper_def CRLF_def)
  moreover have "decode 1 (Encode (Error (''ERR unknown command '' @ quote_mark @ (''x'' @ CRLF @ ''+OK'') @ quote_mark)))
     = Some (Error (''ERR unknown command '' @ quote_mark @ ''x''), ''+OK'' @ quote_mark @ CRLF)"
    by code_simp
  ultimately show ?thesis by simp
qed

text \<open>
  C30: Nothing that changes what clients can observe goes unlogged: a command that is not handed
  to the append-only file, whether it is a read, fails its checks or meets a key of the wrong
  type, leaves the live key space as it was.
\<close>

theorem dispatch_unlogged_invisible:
  assumes "store_inv s" and "settled_by now es" and "logged (Dispatch es args s) = None"
  shows "live now (keyspace_of (new_state (Dispatch es args s))) = live now (keyspace_of s)"
  using Dispatch_unlogged_live [OF assms(1,2)] assms(3) by blast

theorem dispatch_unlogged_invisible_witness:
  "live 0 (keyspace_of (new_state (Dispatch (\<lambda>_. still 0) [''LPUSH'', ''k'', ''x''] over_budget_store)))
     = [''k'' \<mapsto> (PString ''v'', None)]"
proof -
  have "logged (Dispatch (\<lambda>_. still 0) [''LPUSH'', ''k'', ''x''] over_budget_store) = None"
    by code_simp
  then show ?thesis
    using dispatch_unlogged_invisible [OF over_budget_store_facts(1), of 0 "\<lambda>_. still 0"]
    by (simp add: settled_by_def over_budget_store_facts)
qed

end
