(* ===== verification/Dispatch_Spec.thy ===== *)
theory Dispatch_Spec
  imports Dispatcher
begin

text \<open>
  The command layer against an abstract specification. \<open>parse_command\<close> says which argument
  lists are commands and which error the others get; \<open>serves\<close> says, for each command, what the
  reply is and what it does to the live key space, a plain map from keys to payloads and
  deadlines with nothing expired in it. The refinement: \<open>Dispatch\<close> on a store does what these
  say on the live key space of the store, when the clock stands still during the command and
  no memory budget is set.
\<close>

section \<open>Commands\<close>

datatype command =
    CPing | CEcho string | CSet string string | CSetEx string string int | CGet string
  | CDel "string list" | CExists "string list" | CKeys string | CFlushAll
  | CExpire string int | CTtl string
  | CLPush string "string list" | CRPush string "string list" | CLLen string | CLRange string int int
  | CHSet string "(string \<times> string) list" | CHGet string string | CHDel string "string list"
  | CHGetAll string | CHLen string | CHExists string string | CHKeys string | CHVals string

text \<open>A decimal argument, an exact number of arguments, or a minimal number of them.\<close>

definition with_int :: "string \<Rightarrow> (int \<Rightarrow> resp_value + command) \<Rightarrow> resp_value + command" where
  "with_int s f = (case ParseInt64 s of None \<Rightarrow> Inl NotIntegerError | Some n \<Rightarrow> f n)"

definition one_arg :: "string \<Rightarrow> string list \<Rightarrow> (string \<Rightarrow> resp_value + command) \<Rightarrow> resp_value + command" where
  "one_arg name rest f = (case rest of [a] \<Rightarrow> f a | _ \<Rightarrow> Inl (WrongArgsError name))"

definition two_args :: "string \<Rightarrow> string list \<Rightarrow> (string \<Rightarrow> string \<Rightarrow> resp_value + command) \<Rightarrow> resp_value + command" where
  "two_args name rest f = (case rest of [a, b] \<Rightarrow> f a b | _ \<Rightarrow> Inl (WrongArgsError name))"

definition key_and_args :: "string \<Rightarrow> string list \<Rightarrow> (string \<Rightarrow> string list \<Rightarrow> resp_value + command) \<Rightarrow> resp_value + command" where
  "key_and_args name rest f = (case rest of k # x # xs \<Rightarrow> f k (x # xs) | _ \<Rightarrow> Inl (WrongArgsError name))"

definition parse_PING :: "string \<Rightarrow> string list \<Rightarrow> resp_value + command" where
  "parse_PING name rest = (case rest of [] \<Rightarrow> Inr CPing | [x] \<Rightarrow> Inr (CEcho x) | _ \<Rightarrow> Inl (WrongArgsError name))"

definition parse_SET :: "string \<Rightarrow> string list \<Rightarrow> resp_value + command" where
  "parse_SET name rest =
     (case rest of
        [k, v] \<Rightarrow> Inr (CSet k v)
      | [k, v, opt, n] \<Rightarrow>
          if ToUpper opt = ''EX'' then with_int n (\<lambda>seconds. Inr (CSetEx k v seconds))
          else Inl (Error ''ERR syntax error'')
      | _ \<Rightarrow> Inl (WrongArgsError name))"

definition parse_LRANGE :: "string \<Rightarrow> string list \<Rightarrow> resp_value + command" where
  "parse_LRANGE name rest =
     (case rest of
        [k, a, b] \<Rightarrow> with_int a (\<lambda>start. with_int b (\<lambda>stop. Inr (CLRange k start stop)))
      | _ \<Rightarrow> Inl (WrongArgsError name))"

definition parse_HSET :: "string \<Rightarrow> string list \<Rightarrow> resp_value + command" where
  "parse_HSET name rest =
     (case rest of
        k # f # v # fvs \<Rightarrow>
          if even (length fvs) then Inr (CHSet k (field_pairs (f # v # fvs))) else Inl (WrongArgsError name)
      | _ \<Rightarrow> Inl (WrongArgsError name))"

definition parse_command :: "string list \<Rightarrow> resp_value + command" where
  "parse_command args =
     (let name = hd args; rest = tl args; cmd = ToUpper name in
      if cmd = ''PING'' then parse_PING name rest
      else if cmd = ''ECHO'' then one_arg name rest (\<lambda>x. Inr (CEcho x))
      else if cmd = ''SET'' then parse_SET name rest
      else if cmd = ''GET'' then one_arg name rest (\<lambda>k. Inr (CGet k))
      else if cmd = ''DEL'' then (if rest = [] then Inl (WrongArgsError name) else Inr (CDel rest))
      else if cmd = ''EXISTS'' then (if rest = [] then Inl (WrongArgsError name) else Inr (CExists rest))
      else if cmd = ''KEYS'' then one_arg name rest (\<lambda>k. Inr (CKeys k))
      else if cmd = ''FLUSHALL'' then (if rest = [] then Inr CFlushAll else Inl (WrongArgsError name))
      else if cmd = ''EXPIRE'' then two_args name rest (\<lambda>k n. with_int n (\<lambda>seconds. Inr (CExpire k seconds)))
      else if cmd = ''TTL'' then one_arg name rest (\<lambda>k. Inr (CTtl k))
      else if cmd = ''LPUSH'' then key_and_args name rest (\<lambda>k vs. Inr (CLPush k vs))
      else if cmd = ''RPUSH'' then key_and_args name rest (\<lambda>k vs. Inr (CRPush k vs))
      else if cmd = ''LLEN'' then one_arg name rest (\<lambda>k. Inr (CLLen k))
      else if cmd = ''LRANGE'' then parse_LRANGE name rest
      else if cmd = ''HSET'' then parse_HSET name rest
      else if cmd = ''HGET'' then two_args name rest (\<lambda>k f. Inr (CHGet k f))
      else if cmd = ''HDEL'' then key_and_args name rest (\<lambda>k fs. Inr (CHDel k fs))
      else if cmd = ''HGETALL'' then one_arg name rest (\<lambda>k. Inr (CHGetAll k))
      else if cmd = ''HLEN'' then one_arg name rest (\<lambda>k. Inr (CHLen k))
      else if cmd = ''HEXISTS'' then two_args name rest (\<lambda>k f. Inr (CHExists k f))
      else if cmd = ''HKEYS'' then one_arg name rest (\<lambda>k. Inr (CHKeys k))
      else if cmd = ''HVALS'' then one_arg name rest (\<lambda>k. Inr (CHVals k))
      else Inl (Error (''ERR unknown command '' @ quote_mark @ name @ quote_mark)))"

section \<open>What the commands do\<close>

text \<open>
  \<open>look\<close> is the shape of a read on the live key space: one answer for an absent key, the
  wrong-type error for a payload that \<open>view\<close> rejects.
\<close>

definition look :: "resp_value \<Rightarrow> (payload \<Rightarrow> 'p option) \<Rightarrow> ('p \<Rightarrow> resp_value) \<Rightarrow> string \<Rightarrow> keyspace \<Rightarrow> resp_value" where
  "look missing view answer k m =
     (case m k of
        None \<Rightarrow> missing
      | Some (p, d) \<Rightarrow> (case view p of None \<Rightarrow> WrongTypeError | Some x \<Rightarrow> answer x))"

text \<open>A write in the same shape: it replaces the payload and keeps the deadline.\<close>

definition change :: "'p \<Rightarrow> (payload \<Rightarrow> 'p option) \<Rightarrow> ('p \<Rightarrow> int) \<Rightarrow> ('p \<Rightarrow> payload) \<Rightarrow> string \<Rightarrow> keyspace \<Rightarrow>
    resp_value \<Rightarrow> keyspace \<Rightarrow> bool" where
  "change start view answer f k m r m' \<longleftrightarrow>
     (case m k of
        None \<Rightarrow> r = Integer (answer start) \<and> m' = m(k \<mapsto> (f start, None))
      | Some (p, d) \<Rightarrow>
          (case view p of
             None \<Rightarrow> r = WrongTypeError \<and> m' = m
           | Some x \<Rightarrow> r = Integer (answer x) \<and> m' = m(k \<mapsto> (f x, d))))"

definition ok_reply :: resp_value where
  "ok_reply = SimpleString ''OK''"

fun serves :: "int \<Rightarrow> command \<Rightarrow> keyspace \<Rightarrow> resp_value \<Rightarrow> keyspace \<Rightarrow> bool" where
  "serves t CPing m r m' \<longleftrightarrow> r = SimpleString ''PONG'' \<and> m' = m"
| "serves t (CEcho x) m r m' \<longleftrightarrow> r = BulkString x \<and> m' = m"
| "serves t (CSet k v) m r m' \<longleftrightarrow> r = ok_reply \<and> m' = m(k \<mapsto> (PString v, None))"
| "serves t (CSetEx k v n) m r m' \<longleftrightarrow> r = ok_reply
     \<and> m' = m(k := if n \<le> 0 then None else Some (PString v, Some (t + n * ns_per_second)))"
| "serves t (CGet k) m r m' \<longleftrightarrow> r = look NilBulkString as_string BulkString k m \<and> m' = m"
| "serves t (CDel ks) m r m' \<longleftrightarrow> r = Integer (int (card (set ks \<inter> dom m))) \<and> m' = m |` (- set ks)"
| "serves t (CExists ks) m r m' \<longleftrightarrow> r = Integer (int (length (filter (\<lambda>k. k \<in> dom m) ks))) \<and> m' = m"
| "serves t (CKeys pat) m r m' \<longleftrightarrow>
     (\<exists>ks. distinct ks \<and> set ks = {k \<in> dom m. GlobMatch pat k} \<and> r = StringsToBulkArray ks) \<and> m' = m"
| "serves t CFlushAll m r m' \<longleftrightarrow> r = ok_reply \<and> m' = Map.empty"
| "serves t (CExpire k n) m r m' \<longleftrightarrow>
     (case m k of
        None \<Rightarrow> r = Integer 0 \<and> m' = m
      | Some (p, d) \<Rightarrow> r = Integer 1
          \<and> m' = m(k := if n \<le> 0 then None else Some (p, Some (t + n * ns_per_second))))"
| "serves t (CTtl k) m r m' \<longleftrightarrow>
     r = Integer (case m k of
        None \<Rightarrow> - 2
      | Some (p, None) \<Rightarrow> - 1
      | Some (p, Some d) \<Rightarrow> ((d - t) div ns_per_ms + 500) div 1000) \<and> m' = m"
| "serves t (CLPush k vs) m r m' \<longleftrightarrow>
     change [] as_list (\<lambda>xs. int_of_size (length (rev vs @ xs))) (\<lambda>xs. PList (rev vs @ xs)) k m r m'"
| "serves t (CRPush k vs) m r m' \<longleftrightarrow>
     change [] as_list (\<lambda>xs. int_of_size (length (xs @ vs))) (\<lambda>xs. PList (xs @ vs)) k m r m'"
| "serves t (CLLen k) m r m' \<longleftrightarrow>
     r = look (Integer 0) as_list (\<lambda>xs. Integer (int_of_size (length xs))) k m \<and> m' = m"
| "serves t (CLRange k a b) m r m' \<longleftrightarrow>
     r = look (Array []) as_list (\<lambda>xs. StringsToBulkArray (redis_range a b xs)) k m \<and> m' = m"
| "serves t (CHSet k fvs) m r m' \<longleftrightarrow>
     change Map.empty as_hash (\<lambda>h. new_fields h fvs) (\<lambda>h. PHash (h ++ map_of (rev fvs))) k m r m'"
| "serves t (CHGet k f) m r m' \<longleftrightarrow>
     r = look NilBulkString as_hash (\<lambda>h. case h f of None \<Rightarrow> NilBulkString | Some x \<Rightarrow> BulkString x) k m \<and> m' = m"
| "serves t (CHDel k fs) m r m' \<longleftrightarrow>
     (case m k of
        None \<Rightarrow> r = Integer 0 \<and> m' = m
      | Some (PHash h, d) \<Rightarrow> r = Integer (int (card (dom h \<inter> set fs)))
          \<and> m' = (let h' = h |` (- set fs) in if h' = Map.empty then m(k := None) else m(k \<mapsto> (PHash h', d)))
      | Some _ \<Rightarrow> r = WrongTypeError \<and> m' = m)"
| "serves t (CHGetAll k) m r m' \<longleftrightarrow>
     (\<exists>es. (\<forall>h d. m k = Some (PHash h, d) \<longrightarrow> enumerates es h)
        \<and> r = look (Array []) as_hash (\<lambda>_. Array (concat (map (\<lambda>(f, x). [BulkString f, BulkString x]) es))) k m)
     \<and> m' = m"
| "serves t (CHLen k) m r m' \<longleftrightarrow>
     r = look (Integer 0) as_hash (\<lambda>h. Integer (int_of_size (card (dom h)))) k m \<and> m' = m"
| "serves t (CHExists k f) m r m' \<longleftrightarrow>
     r = look (Integer 0) as_hash (\<lambda>h. Integer (if f \<in> dom h then 1 else 0)) k m \<and> m' = m"
| "serves t (CHKeys k) m r m' \<longleftrightarrow>
     (\<exists>es. (\<forall>h d. m k = Some (PHash h, d) \<longrightarrow> enumerates es h)
        \<and> r = look (Array []) as_hash (\<lambda>_. StringsToBulkArray (map fst es)) k m) \<and> m' = m"
| "serves t (CHVals k) m r m' \<longleftrightarrow>
     (\<exists>es. (\<forall>h d. m k = Some (PHash h, d) \<longrightarrow> enumerates es h)
        \<and> r = look (Array []) as_hash (\<lambda>_. StringsToBulkArray (map snd es)) k m) \<and> m' = m"

text \<open>No instant exceeds the 64-bit clock, and a list that is sliced is shorter than \<open>2\<^sup>3\<^sup>1\<close>.\<close>

fun in_range :: "int \<Rightarrow> command \<Rightarrow> keyspace \<Rightarrow> bool" where
  "in_range t (CSetEx k v n) m \<longleftrightarrow> 0 \<le> t \<and> t + n * ns_per_second < 2 ^ 63"
| "in_range t (CExpire k n) m \<longleftrightarrow> 0 \<le> t \<and> t + n * ns_per_second < 2 ^ 63"
| "in_range t (CTtl k) m \<longleftrightarrow> (\<forall>p d. m k = Some (p, Some d) \<longrightarrow> d - t < 2 ^ 63)"
| "in_range t (CLRange k a b) m \<longleftrightarrow> (\<forall>xs d. m k = Some (PList xs, d) \<longrightarrow> length xs < 2 ^ 31)"
| "in_range t c m \<longleftrightarrow> True"

section \<open>Lemmas\<close>

definition frozen :: "int \<Rightarrow> (nat \<Rightarrow> env) \<Rightarrow> bool" where
  "frozen t es \<longleftrightarrow> (\<forall>j i. clk (es j) i = t)"

lemma frozen_clk: "frozen t es \<Longrightarrow> clk (es j) i = t"
  by (simp add: frozen_def)

lemma frozen_settled: "frozen t es \<Longrightarrow> settled_by t es"
  by (simp add: frozen_def settled_by_def)

lemma ParseInt64Arg_ParseInt64: "ParseInt64Arg s = ParseInt64 s"
  by (simp add: ParseInt64Arg_def ParseInt64_def)

text \<open>The live part of a changed key space.\<close>

lemma live_changes:
  "live t (m(k \<mapsto> (p, None))) = (live t m)(k \<mapsto> (p, None))"
  "live t (m(k := None)) = (live t m)(k := None)"
  "t < d \<Longrightarrow> live t (m(k \<mapsto> (p, Some d))) = (live t m)(k \<mapsto> (p, Some d))"
  "live t (m |` A) = live t m |` A"
  by (auto simp: fun_eq_iff live_def expired_at_def restrict_map_def)

lemma live_change_kept: "live t m k = Some (p, d) \<Longrightarrow> live t (m(k \<mapsto> (p', d))) = (live t m)(k \<mapsto> (p', d))"
  by (auto simp: fun_eq_iff live_def split: option.splits if_splits)

lemma live_remove_dead: "live t m k = None \<Longrightarrow> live t (m(k := None)) = live t m"
  by (auto simp: fun_eq_iff live_def split: option.splits if_splits)

lemma live_Some: "live t m k = Some pd \<Longrightarrow> m k = Some pd"
  by (auto simp: live_def split: option.splits if_splits)

text \<open>Saturating the bounds of a range to 32 bits does not change what it selects.\<close>

lemma redis_range_clamp:
  assumes "length xs < 2 ^ 31"
  shows "redis_range (ClampToInt a) (ClampToInt b) xs = redis_range a b xs"
proof -
  have "(redis_index (ClampToInt a) (length xs) \<le> int i) = (redis_index a (length xs) \<le> int i)"
    "(int i \<le> redis_index (ClampToInt b) (length xs)) = (int i \<le> redis_index b (length xs))"
    if "i < length xs" for i
    using that assms by (auto simp: redis_index_def ClampToInt_def)
  then show ?thesis
    unfolding redis_range_def by (intro arg_cong [where f = "map (nth xs)"] filter_cong) auto
qed

lemma ClampToInt_range: "- (2 ^ 31) \<le> ClampToInt v" "ClampToInt v < 2 ^ 31"
  by (auto simp: ClampToInt_def)

section \<open>Refinement\<close>

text \<open>An outcome is right for what the arguments parse to.\<close>

definition implements :: "int \<Rightarrow> store \<Rightarrow> resp_value + command \<Rightarrow> outcome \<Rightarrow> bool" where
  "implements t s parsed out \<longleftrightarrow>
     (case parsed of
        Inl err \<Rightarrow> out = answered err s
      | Inr c \<Rightarrow> in_range t c (live t (keyspace_of s)) \<longrightarrow>
          serves t c (live t (keyspace_of s)) (reply out) (live t (keyspace_of (new_state out))))"

lemma implements_simps [simp]:
  "implements t s (Inl err) out \<longleftrightarrow> out = answered err s"
  "implements t s (Inr c) out \<longleftrightarrow> (in_range t c (live t (keyspace_of s)) \<longrightarrow>
     serves t c (live t (keyspace_of s)) (reply out) (live t (keyspace_of (new_state out))))"
  by (simp_all add: implements_def)

text \<open>The shapes of the argument lists.\<close>

lemma one_arg_cases:
  assumes "\<And>a. rest = [a] \<Longrightarrow> implements t s (f a) out"
    and "length rest \<noteq> 1 \<Longrightarrow> out = answered (WrongArgsError name) s"
  shows "implements t s (one_arg name rest f) out"
  using assms by (auto simp: one_arg_def split: list.split)

lemma two_args_cases:
  assumes "\<And>a b. rest = [a, b] \<Longrightarrow> implements t s (f a b) out"
    and "length rest \<noteq> 2 \<Longrightarrow> out = answered (WrongArgsError name) s"
  shows "implements t s (two_args name rest f) out"
  using assms by (auto simp: two_args_def split: list.split)

lemma key_and_args_cases:
  assumes "\<And>k vs. rest = k # vs \<Longrightarrow> vs \<noteq> [] \<Longrightarrow> implements t s (f k vs) out"
    and "length rest < 2 \<Longrightarrow> out = answered (WrongArgsError name) s"
  shows "implements t s (key_and_args name rest f) out"
  using assms by (auto simp: key_and_args_def split: list.split)

text \<open>Replies of reads: the store's answer from the live key space, put into RESP form.\<close>

lemma string_reply_look:
  "string_reply (spec_read not_found as_string found t k m) = look NilBulkString as_string BulkString k (live t m)"
  "string_reply (spec_read not_found as_hash (\<lambda>h. \<lparr>res_value = h f, res_error = KNone\<rparr>) t k m) =
     look NilBulkString as_hash (\<lambda>h. case h f of None \<Rightarrow> NilBulkString | Some x \<Rightarrow> BulkString x) k (live t m)"
  by (auto simp: string_reply_def spec_read_def look_def Ok_def split: option.split)

lemma int_outcome_look:
  "fst res = spec_read (found n) view (\<lambda>x. found (g x)) t k m \<Longrightarrow>
     reply (int_outcome res) = look (Integer n) view (\<lambda>x. Integer (g x)) k (live t m)"
  by (auto simp: int_outcome_def spec_read_def look_def Ok_def case_prod_beta split: option.split)

lemma strings_outcome_look:
  "fst res = spec_read (found []) view (\<lambda>x. found (g x)) t k m \<Longrightarrow>
     reply (strings_outcome res) = look (Array []) view (\<lambda>x. StringsToBulkArray (g x)) k (live t m)"
  by (auto simp: strings_outcome_def spec_read_def look_def Ok_def case_prod_beta StringsToBulkArray_def
      split: option.split)

lemma look_cong:
  "(\<And>p d x. m k = Some (p, d) \<Longrightarrow> view p = Some x \<Longrightarrow> f x = g x) \<Longrightarrow> look miss view f k m = look miss view g k m"
  by (auto simp: look_def split: option.split)

text \<open>Writes with a type check.\<close>

lemma write_outcome_change:
  assumes res: "case spec of None \<Rightarrow> res = (wrong_type, s)
      | Some (n, m) \<Rightarrow> fst res = found n \<and> evicted_from m (snd res)"
    and "max_memory_bytes (snd res) = 0"
    and "spec = (case live t (keyspace_of s) k of
        None \<Rightarrow> Some (answer start, (keyspace_of s)(k \<mapsto> (f start, None)))
      | Some (p, d) \<Rightarrow> (case view p of None \<Rightarrow> None | Some x \<Rightarrow> Some (answer x, (keyspace_of s)(k \<mapsto> (f x, d)))))"
  shows "change start view answer f k (live t (keyspace_of s)) (reply (write_outcome args res))
    (live t (keyspace_of (new_state (write_outcome args res))))"
  using assms
  by (auto simp: change_def write_outcome_def Ok_def evicted_from_def case_prod_beta live_changes live_change_kept
      split: option.splits)

lemma spec_push_change:
  "spec_push f t k m = (case live t m k of
      None \<Rightarrow> Some (int_of_size (length (f [])), m(k \<mapsto> (PList (f []), None)))
    | Some (p, d) \<Rightarrow> (case as_list p of None \<Rightarrow> None | Some xs \<Rightarrow> Some (int_of_size (length (f xs)), m(k \<mapsto> (PList (f xs), d)))))"
  by (auto simp: spec_push_def split: option.split payload.split)

lemma spec_hset_change:
  "spec_hset t k fvs m = (case live t m k of
      None \<Rightarrow> Some (new_fields Map.empty fvs, m(k \<mapsto> (PHash (Map.empty ++ map_of (rev fvs)), None)))
    | Some (p, d) \<Rightarrow> (case as_hash p of None \<Rightarrow> None
        | Some h \<Rightarrow> Some (new_fields h fvs, m(k \<mapsto> (PHash (h ++ map_of (rev fvs)), d)))))"
  by (auto simp: spec_hset_def split: option.split payload.split)

text \<open>The conditions of the refinement: invariant, clock standing at \<open>t\<close>, no budget.\<close>

definition calm :: "int \<Rightarrow> (nat \<Rightarrow> env) \<Rightarrow> store \<Rightarrow> bool" where
  "calm t es s \<longleftrightarrow> store_inv s \<and> frozen t es \<and> max_memory_bytes s = 0"

lemma calmD:
  assumes "calm t es s"
  shows "store_inv s" "clk (es j) i = t" "max_memory_bytes s = 0" "settled_by t es"
  using assms by (auto simp: calm_def frozen_def settled_by_def)

lemma SET_implements:
  assumes c: "calm t es s"
  shows "implements t s (parse_SET name rest) (cmd_SET es (name # rest) s)"
proof -
  note inv = calmD(1) [OF c]
  have set: "keyspace_of (Store_Set (es 0) k v s) = (keyspace_of s)(k \<mapsto> (PString v, None))" for k v
    using keyspace_unlimited(1) [OF inv calmD(3) [OF c]] by (simp add: spec_set_def)
  have "live t (keyspace_of (snd (Expire (es 1) k n (Store_Set (es 0) k v s))))
      = (live t (keyspace_of s))(k := if n \<le> 0 then None else Some (PString v, Some (t + n * ns_per_second)))"
    if fits: "0 \<le> t" "t + n * ns_per_second < 2 ^ 63" for k v n
  proof -
    have "live t (keyspace_of (Store_Set (es 0) k v s)) k = Some (PString v, None)"
      by (simp add: set live_changes)
    then have abs: "keyspace_of (snd (Expire (es 1) k n (Store_Set (es 0) k v s))) =
        (keyspace_of s)(k := if n \<le> 0 then None else Some (PString v, Some (t + n * ns_per_second)))"
      using Expire_refines [OF Store_Set_inv [OF inv], of "es 1" n k "es 0" k v] calmD(2) [OF c] fits
      by (simp add: set)
    show ?thesis
      unfolding abs by (cases "n \<le> 0") (simp_all add: live_changes ns_per_second_def)
  qed
  then show ?thesis
    by (auto simp: parse_SET_def cmd_SET_def with_int_def ParseInt64Arg_ParseInt64 ok_reply_def Let_def set live_changes
        split: list.split option.split)
qed

lemma multikey_implement:
  assumes c: "calm t es s"
  shows "rest \<noteq> [] \<Longrightarrow> implements t s (Inr (CDel rest)) (cmd_DEL es (name # rest) s)"
    and "rest \<noteq> [] \<Longrightarrow> implements t s (Inr (CExists rest)) (cmd_EXISTS es (name # rest) s)"
proof -
  note inv = calmD(1) [OF c]
  let ?m = "live t (keyspace_of s)"
  have live: "is_live (clk (es 0) i) (keyspace_of s) k \<longleftrightarrow> k \<in> dom ?m" for i k
    by (simp add: is_live_def calmD(2) [OF c])
  have "{k \<in> set rest. k \<in> dom ?m} = set rest \<inter> dom ?m" by auto
  then show "rest \<noteq> [] \<Longrightarrow> implements t s (Inr (CDel rest)) (cmd_DEL es (name # rest) s)"
    using del_loop_count [OF inv, of "clk (es 0)" rest 0] del_loop_keyspace [OF inv, of "clk (es 0)" rest 0]
    by (simp add: cmd_DEL_def Store_Del_def live case_prod_beta live_changes)
  have "length (filter (\<lambda>i. rest ! i \<in> dom ?m) [0..<length rest]) = length (filter (\<lambda>k. k \<in> dom ?m) rest)"
    using filter_map [of "\<lambda>k. k \<in> dom ?m" "nth rest" "[0..<length rest]"]
    by (metis (mono_tags, lifting) comp_apply filter_cong length_map map_nth)
  then show "rest \<noteq> [] \<Longrightarrow> implements t s (Inr (CExists rest)) (cmd_EXISTS es (name # rest) s)"
    using exists_scan_count [of "clk (es 0)" rest s] reads_live(11) [OF inv calmD(4) [OF c], of 0 rest]
    by (simp add: cmd_EXISTS_def Store_Exists_def live case_prod_beta Let_def)
qed

lemma KEYS_implements:
  assumes c: "calm t es s"
  shows "implements t s (Inr (CKeys pat)) (cmd_KEYS es [name, pat] s)"
proof -
  note inv = calmD(1) [OF c]
  let ?ks = "fst (Store_Keys (es 0) s)"
  have "distinct ?ks \<and> set ?ks = dom (live t (keyspace_of s))"
    using Store_Keys_bounds [OF inv, of t "es 0" t] calmD(2) [OF c] by auto
  then have "distinct (filter (GlobMatch pat) ?ks) \<and>
      set (filter (GlobMatch pat) ?ks) = {k \<in> dom (live t (keyspace_of s)). GlobMatch pat k}" by auto
  then show ?thesis
    using reads_live(12) [OF inv calmD(4) [OF c], of 0]
    by (simp add: cmd_KEYS_def case_prod_beta) (intro exI [of _ "filter (GlobMatch pat) ?ks"], simp)
qed

lemma Expire_serves:
  assumes c: "calm t es s" and fits: "0 \<le> t" "t + seconds * ns_per_second < 2 ^ 63"
  shows "serves t (CExpire k seconds) (live t (keyspace_of s)) (Integer (if fst (Expire (es 0) k seconds s) then 1 else 0))
      (live t (keyspace_of (snd (Expire (es 0) k seconds s))))"
proof (cases "live t (keyspace_of s) k")
  case None
  then show ?thesis
    using Expire_refines [OF calmD(1) [OF c], of "es 0" seconds k] calmD(2) [OF c] fits
    by (simp add: live_remove_dead)
next
  case (Some pd)
  obtain p d where "pd = (p, d)" by (cases pd)
  then have abs: "fst (Expire (es 0) k seconds s)"
    "keyspace_of (snd (Expire (es 0) k seconds s)) =
       (keyspace_of s)(k := if seconds \<le> 0 then None else Some (p, Some (t + seconds * ns_per_second)))"
    using Expire_refines [OF calmD(1) [OF c], of "es 0" seconds k] calmD(2) [OF c] fits Some by simp_all
  show ?thesis
    unfolding abs(2) using Some \<open>pd = (p, d)\<close> abs(1)
    by (cases "seconds \<le> 0") (simp_all add: live_changes ns_per_second_def)
qed

lemma EXPIRE_implements:
  assumes c: "calm t es s"
  shows "implements t s (with_int n (\<lambda>seconds. Inr (CExpire k seconds))) (cmd_EXPIRE es [name, k, n] s)"
  using Expire_serves [OF c, of _ k]
  by (simp add: with_int_def cmd_EXPIRE_def ParseInt64Arg_ParseInt64 case_prod_beta del: serves.simps split: option.split)

lemma TTL_implements:
  assumes c: "calm t es s"
  shows "implements t s (Inr (CTtl k)) (cmd_TTL es [name, k] s)"
proof -
  have "d > t" if "live t (keyspace_of s) k = Some (p, Some d)" for p d
    using that by (auto simp: live_def expired_at_def split: option.splits if_splits)
  then show ?thesis
    using reads_live(10) [OF calmD(1) [OF c] calmD(4) [OF c], of 0 k] calmD(2) [OF c]
      TTL_remaining [of "es 0" s k] TTL_no_deadline [of "es 0" s k]
    by (auto simp: cmd_TTL_def case_prod_beta split: option.split)
qed

lemma FLUSHALL_implements:
  "implements t s (Inr CFlushAll) (cmd_FLUSHALL [name] s)"
  by (auto simp: cmd_FLUSHALL_def ok_reply_def FlushAll_def keyspace_of_def live_def ht.get_clear fun_eq_iff)

lemma string_reads_implement:
  assumes c: "calm t es s"
  shows "implements t s (Inr (CGet k)) (cmd_GET es [name, k] s)"
    and "implements t s (Inr (CHGet k f)) (cmd_HGET es [name, k, f] s)"
  using reads_live(1,4) [OF calmD(1) [OF c] calmD(4) [OF c]] read_results(1,4) [OF calmD(1) [OF c], of "es 0"]
    calmD(2) [OF c]
  by (simp_all add: cmd_GET_def cmd_HGET_def case_prod_beta string_reply_look)

lemma int_reads_implement:
  assumes c: "calm t es s"
  shows "implements t s (Inr (CLLen k)) (cmd_LLEN es [name, k] s)"
    and "implements t s (Inr (CHLen k)) (cmd_HLEN es [name, k] s)"
    and "implements t s (Inr (CHExists k f)) (cmd_HEXISTS es [name, k, f] s)"
  using reads_live(2,6,7) [OF calmD(1) [OF c] calmD(4) [OF c]]
    int_outcome_look [OF read_results(2) [OF calmD(1) [OF c]], of "es 0" k]
    int_outcome_look [OF read_results(5) [OF calmD(1) [OF c]], of "es 0" k]
    int_outcome_look [OF read_results(6) [OF calmD(1) [OF c]], of "es 0" k f] calmD(2) [OF c]
  by (simp_all add: cmd_LLEN_def cmd_HLEN_def cmd_HEXISTS_def)

lemma LRANGE_implements:
  assumes c: "calm t es s"
  shows "implements t s (parse_LRANGE name rest) (cmd_LRANGE es (name # rest) s)"
proof -
  have "serves t (CLRange k a b) (live t (keyspace_of s))
      (reply (strings_outcome (LRange (es 0) k (ClampToInt a) (ClampToInt b) s)))
      (live t (keyspace_of (snd (LRange (es 0) k (ClampToInt a) (ClampToInt b) s))))"
    if short: "\<forall>xs d. live t (keyspace_of s) k = Some (PList xs, d) \<longrightarrow> length xs < 2 ^ 31" for k a b
  proof -
    have "lrange_slice (ClampToInt a) (ClampToInt b) xs = redis_range a b xs"
      if "live t (keyspace_of s) k = Some (p, d)" "as_list p = Some xs" for p d xs
    proof -
      have "length xs < 2 ^ 31" using short that by (cases p) auto
      then show ?thesis
        using lrange_slice_redis_range [of xs "ClampToInt a" "ClampToInt b"] ClampToInt_range [of a] ClampToInt_range [of b]
          redis_range_clamp [of xs a b] by simp
    qed
    then have "look (Array []) as_list (\<lambda>xs. StringsToBulkArray (lrange_slice (ClampToInt a) (ClampToInt b) xs)) k (live t (keyspace_of s))
        = look (Array []) as_list (\<lambda>xs. StringsToBulkArray (redis_range a b xs)) k (live t (keyspace_of s))"
      by (intro look_cong) simp
    then show ?thesis
      using strings_outcome_look [OF read_results(3) [OF calmD(1) [OF c]], of "es 0" k "ClampToInt a" "ClampToInt b"]
        reads_live(3) [OF calmD(1) [OF c] calmD(4) [OF c], of 0 k] calmD(2) [OF c] by simp
  qed
  then show ?thesis
    by (auto simp: parse_LRANGE_def cmd_LRANGE_def with_int_def ParseInt64Arg_ParseInt64 split: list.split option.split)
qed

lemma pushes_implement:
  assumes c: "calm t es s" and "vs \<noteq> []"
  shows "ToUpper name = ''LPUSH'' \<Longrightarrow> implements t s (Inr (CLPush k vs)) (cmd_PUSH es (name # k # vs) s)"
    and "ToUpper name = ''RPUSH'' \<Longrightarrow> implements t s (Inr (CRPush k vs)) (cmd_PUSH es (name # k # vs) s)"
proof -
  note inv = calmD(1) [OF c]
  have push: "change [] as_list (\<lambda>xs. int_of_size (length (f xs))) (\<lambda>xs. PList (f xs)) k (live t (keyspace_of s))
      (reply (write_outcome args (push_with f (es 0) k s)))
      (live t (keyspace_of (new_state (write_outcome args (push_with f (es 0) k s)))))" for f args
    using push_with_refines [OF inv, of f "es 0" k] calmD(2,3) [OF c] spec_push_change [of f t k "keyspace_of s"]
    by (intro write_outcome_change) simp_all
  have args: "\<not> length (name # k # vs) < 3" using assms(2) by (cases vs) auto
  show "ToUpper name = ''LPUSH'' \<Longrightarrow> implements t s (Inr (CLPush k vs)) (cmd_PUSH es (name # k # vs) s)"
    using push [of "\<lambda>xs. rev vs @ xs" "name # k # vs"] args by (simp add: cmd_PUSH_def pushes_push_with)
  show "ToUpper name = ''RPUSH'' \<Longrightarrow> implements t s (Inr (CRPush k vs)) (cmd_PUSH es (name # k # vs) s)"
    using push [of "\<lambda>xs. xs @ vs" "name # k # vs"] args by (simp add: cmd_PUSH_def pushes_push_with)
qed

lemma HSET_implements:
  assumes c: "calm t es s"
  shows "implements t s (parse_HSET name rest) (cmd_HSET es (name # rest) s)"
proof (cases "\<exists>k f v fvs. rest = k # f # v # fvs \<and> even (length fvs)")
  case True
  then obtain k f v fvs where rest: "rest = k # f # v # fvs" "even (length fvs)" by blast
  define pairs where "pairs = field_pairs (f # v # fvs)"
  have "change Map.empty as_hash (\<lambda>h. new_fields h pairs) (\<lambda>h. PHash (h ++ map_of (rev pairs))) k (live t (keyspace_of s))
      (reply (write_outcome (name # rest) (HSet (es 0) k pairs s)))
      (live t (keyspace_of (new_state (write_outcome (name # rest) (HSet (es 0) k pairs s)))))"
    using HSet_refines [OF calmD(1) [OF c], of "es 0" k pairs] calmD(2,3) [OF c] spec_hset_change [of t k pairs "keyspace_of s"]
    by (intro write_outcome_change) simp_all
  moreover have "parse_HSET name rest = Inr (CHSet k pairs)"
    by (simp add: parse_HSET_def rest pairs_def)
  moreover have "cmd_HSET es (name # rest) s = write_outcome (name # rest) (HSet (es 0) k pairs s)"
    using rest by (simp add: cmd_HSET_def pairs_def mod_2_eq_odd)
  ultimately show ?thesis by simp
next
  case False
  then show ?thesis
    by (auto simp: parse_HSET_def cmd_HSET_def mod_2_eq_odd split: list.split)
qed

lemma HDEL_implements:
  assumes c: "calm t es s" and "fs \<noteq> []"
  shows "implements t s (Inr (CHDel k fs)) (cmd_HDEL es (name # k # fs) s)"
proof -
  note inv = calmD(1) [OF c]
  have cmd: "cmd_HDEL es (name # k # fs) s = write_outcome (name # k # fs) (HDel (es 0) k fs s)"
    using assms(2) by (cases fs) (simp_all add: cmd_HDEL_def)
  have del: "case spec_hdel t k fs (keyspace_of s) of
           None \<Rightarrow> HDel (es 0) k fs s = (wrong_type, s)
         | Some (n, m) \<Rightarrow> fst (HDel (es 0) k fs s) = found n \<and> keyspace_of (snd (HDel (es 0) k fs s)) = m"
    using HDel_refines [OF inv, of "es 0" k fs] calmD(2) [OF c] by simp
  show ?thesis
    unfolding cmd using del
    by (auto simp: spec_hdel_def write_outcome_def Ok_def case_prod_beta live_remove_dead live_changes live_change_kept
        Let_def split: option.splits payload.splits)
qed

lemma no_hash_result:
  assumes "\<nexists>h d. live (clk e 0) (keyspace_of s) k = Some (PHash h, d)"
  shows "fst (read_typed e KHash missing ans k s) =
    (case live (clk e 0) (keyspace_of s) k of None \<Rightarrow> missing | Some _ \<Rightarrow> wrong_type)"
  using assms by (auto simp: read_typed_result live_keyspace abs_value_def payload_of_def
      split: option.splits if_splits value_type.splits)

lemma enumerations_implement:
  assumes c: "calm t es s"
  shows "implements t s (Inr (CHGetAll k)) (cmd_HGETALL es [name, k] s)"
    and "ToUpper name = ''HKEYS'' \<Longrightarrow> implements t s (Inr (CHKeys k)) (cmd_HKEYS_HVALS es [name, k] s)"
    and "ToUpper name = ''HVALS'' \<Longrightarrow> implements t s (Inr (CHVals k)) (cmd_HKEYS_HVALS es [name, k] s)"
proof -
  note inv = calmD(1) [OF c] and clock = calmD(2) [OF c]
  let ?m = "live t (keyspace_of s)"
  have "\<exists>es'. (\<forall>h d. ?m k = Some (PHash h, d) \<longrightarrow> enumerates es' h)
      \<and> reply (cmd_HGETALL es [name, k] s) = look (Array []) as_hash (\<lambda>_. Array (concat (map (\<lambda>(f, x). [BulkString f, BulkString x]) es'))) k ?m
      \<and> reply (strings_outcome (HKeys (es 0) k s)) = look (Array []) as_hash (\<lambda>_. StringsToBulkArray (map fst es')) k ?m
      \<and> reply (strings_outcome (HVals (es 0) k s)) = look (Array []) as_hash (\<lambda>_. StringsToBulkArray (map snd es')) k ?m"
  proof (cases "\<exists>h d. ?m k = Some (PHash h, d)")
    case True
    then obtain h d where h: "?m k = Some (PHash h, d)" by blast
    obtain es' where "enumerates es' h" "fst (HGetAll (es 0) k s) = found es'"
        "fst (HKeys (es 0) k s) = found (map fst es')" "fst (HVals (es 0) k s) = found (map snd es')"
      using hash_listing [OF inv, of "es 0" k h d] h clock by auto
    then show ?thesis
      using h by (intro exI [of _ es']) (simp add: cmd_HGETALL_def strings_outcome_def look_def Ok_def case_prod_beta)
  next
    case False
    have "as_hash p = None" if "?m k = Some (p, d)" for p d using that False by (cases p) auto
    moreover have "\<nexists>h d. live (clk (es 0) 0) (keyspace_of s) k = Some (PHash h, d)"
      using False clock by simp
    note other = no_hash_result [OF this]
    ultimately show ?thesis
      using False clock
      by (intro exI [of _ "[]"])
        (auto simp: other cmd_HGETALL_def strings_outcome_def look_def Ok_def case_prod_beta HGetAll_def HKeys_def HVals_def
          StringsToBulkArray_def split: option.split)
  qed
  then obtain es' where es': "\<forall>h d. ?m k = Some (PHash h, d) \<longrightarrow> enumerates es' h"
      "reply (cmd_HGETALL es [name, k] s) = look (Array []) as_hash (\<lambda>_. Array (concat (map (\<lambda>(f, x). [BulkString f, BulkString x]) es'))) k ?m"
      "reply (strings_outcome (HKeys (es 0) k s)) = look (Array []) as_hash (\<lambda>_. StringsToBulkArray (map fst es')) k ?m"
      "reply (strings_outcome (HVals (es 0) k s)) = look (Array []) as_hash (\<lambda>_. StringsToBulkArray (map snd es')) k ?m"
    by blast
  note live = reads_live(5,8,9) [OF inv calmD(4) [OF c], of 0 k]
  have "new_state (cmd_HGETALL es [name, k] s) = snd (HGetAll (es 0) k s)"
    by (simp add: cmd_HGETALL_def case_prod_beta)
  then show "implements t s (Inr (CHGetAll k)) (cmd_HGETALL es [name, k] s)"
    using es'(1,2) live(1) by auto
  show "ToUpper name = ''HKEYS'' \<Longrightarrow> implements t s (Inr (CHKeys k)) (cmd_HKEYS_HVALS es [name, k] s)"
    using es'(1,3) live(2) by (auto simp: cmd_HKEYS_HVALS_def)
  show "ToUpper name = ''HVALS'' \<Longrightarrow> implements t s (Inr (CHVals k)) (cmd_HKEYS_HVALS es [name, k] s)"
    using es'(1,4) live(3) by (auto simp: cmd_HKEYS_HVALS_def)
qed

text \<open>
  The parser of the specification and \<open>Dispatch\<close> take the same branch: what relates them on every
  branch relates them.
\<close>

lemma Dispatch_related:
  assumes "R (parse_PING name rest) (cmd_PING (name # rest) s)"
    "R (one_arg name rest (\<lambda>x. Inr (CEcho x))) (cmd_ECHO (name # rest) s)"
    "R (parse_SET name rest) (cmd_SET es (name # rest) s)"
    "R (one_arg name rest (\<lambda>k. Inr (CGet k))) (cmd_GET es (name # rest) s)"
    "R (if rest = [] then Inl (WrongArgsError name) else Inr (CDel rest)) (cmd_DEL es (name # rest) s)"
    "R (if rest = [] then Inl (WrongArgsError name) else Inr (CExists rest)) (cmd_EXISTS es (name # rest) s)"
    "R (one_arg name rest (\<lambda>k. Inr (CKeys k))) (cmd_KEYS es (name # rest) s)"
    "R (if rest = [] then Inr CFlushAll else Inl (WrongArgsError name)) (cmd_FLUSHALL (name # rest) s)"
    "R (two_args name rest (\<lambda>k n. with_int n (\<lambda>seconds. Inr (CExpire k seconds)))) (cmd_EXPIRE es (name # rest) s)"
    "R (one_arg name rest (\<lambda>k. Inr (CTtl k))) (cmd_TTL es (name # rest) s)"
    "ToUpper name = ''LPUSH'' \<Longrightarrow> R (key_and_args name rest (\<lambda>k vs. Inr (CLPush k vs))) (cmd_PUSH es (name # rest) s)"
    "ToUpper name = ''RPUSH'' \<Longrightarrow> R (key_and_args name rest (\<lambda>k vs. Inr (CRPush k vs))) (cmd_PUSH es (name # rest) s)"
    "R (one_arg name rest (\<lambda>k. Inr (CLLen k))) (cmd_LLEN es (name # rest) s)"
    "R (parse_LRANGE name rest) (cmd_LRANGE es (name # rest) s)"
    "R (parse_HSET name rest) (cmd_HSET es (name # rest) s)"
    "R (two_args name rest (\<lambda>k f. Inr (CHGet k f))) (cmd_HGET es (name # rest) s)"
    "R (key_and_args name rest (\<lambda>k fs. Inr (CHDel k fs))) (cmd_HDEL es (name # rest) s)"
    "R (one_arg name rest (\<lambda>k. Inr (CHGetAll k))) (cmd_HGETALL es (name # rest) s)"
    "R (one_arg name rest (\<lambda>k. Inr (CHLen k))) (cmd_HLEN es (name # rest) s)"
    "R (two_args name rest (\<lambda>k f. Inr (CHExists k f))) (cmd_HEXISTS es (name # rest) s)"
    "ToUpper name = ''HKEYS'' \<Longrightarrow> R (one_arg name rest (\<lambda>k. Inr (CHKeys k))) (cmd_HKEYS_HVALS es (name # rest) s)"
    "ToUpper name = ''HVALS'' \<Longrightarrow> R (one_arg name rest (\<lambda>k. Inr (CHVals k))) (cmd_HKEYS_HVALS es (name # rest) s)"
    "R (Inl (Error (''ERR unknown command '' @ quote_mark @ name @ quote_mark)))
       (answered (Error (''ERR unknown command '' @ quote_mark @ name @ quote_mark)) s)"
  shows "R (parse_command (name # rest)) (Dispatch es (name # rest) s)"
proof -
  have alt: "R (if c then a else a') (if c then b else b')" if "c \<Longrightarrow> R a b" "\<not> c \<Longrightarrow> R a' b'" for c a b a' b'
    using that by simp
  have alt_or: "R (if c1 then a1 else if c2 then a2 else a') (if c1 \<or> c2 then b else b')"
    if "c1 \<Longrightarrow> R a1 b" "c2 \<Longrightarrow> R a2 b" "\<not> c1 \<Longrightarrow> \<not> c2 \<Longrightarrow> R a' b'" for c1 c2 a1 a2 b a' b'
    using that by simp
  show ?thesis
    unfolding parse_command_def Dispatch_def Let_def list.sel nth_Cons_0 by (intro alt alt_or assms)
qed

lemma simple_commands_implement:
  "implements t s (parse_PING name rest) (cmd_PING (name # rest) s)"
  "implements t s (one_arg name rest (\<lambda>x. Inr (CEcho x))) (cmd_ECHO (name # rest) s)"
  "implements t s (if rest = [] then Inr CFlushAll else Inl (WrongArgsError name)) (cmd_FLUSHALL (name # rest) s)"
  using FLUSHALL_implements [of t s name]
  by (auto simp: parse_PING_def one_arg_def cmd_PING_def cmd_ECHO_def cmd_FLUSHALL_def split: list.split)

lemma implements_unless_empty:
  assumes "rest \<noteq> [] \<Longrightarrow> implements t s a out" and "rest = [] \<Longrightarrow> out = answered err s"
  shows "implements t s (if rest = [] then Inl err else a) out"
  using assms by simp

lemma Dispatch_implements:
  assumes c: "calm t es s"
  shows "implements t s (parse_command (name # rest)) (Dispatch es (name # rest) s)"
  by (rule Dispatch_related;
      (intro simple_commands_implement SET_implements [OF c] LRANGE_implements [OF c]
      HSET_implements [OF c] one_arg_cases two_args_cases key_and_args_cases implements_unless_empty)?;
      (simp only: string_reads_implement [OF c] int_reads_implement [OF c] multikey_implement [OF c] KEYS_implements [OF c]
      EXPIRE_implements [OF c] TTL_implements [OF c] pushes_implement [OF c] HDEL_implements [OF c]
      enumerations_implement [OF c] not_False_eq_True)?;
      (simp add: command_defs)?)

text \<open>The refinement as a relation between the key spaces before and after.\<close>

definition answers :: "int \<Rightarrow> string list \<Rightarrow> keyspace \<Rightarrow> resp_value \<Rightarrow> keyspace \<Rightarrow> bool" where
  "answers t args m r m' \<longleftrightarrow>
     (case parse_command args of
        Inl err \<Rightarrow> r = err \<and> m' = m
      | Inr c \<Rightarrow> in_range t c m \<longrightarrow> serves t c m r m')"

lemma Dispatch_answers:
  assumes "store_inv s" and "max_memory_bytes s = 0" and "frozen t es" and "args \<noteq> []"
  shows "answers t args (live t (keyspace_of s)) (reply (Dispatch es args s)) (live t (keyspace_of (new_state (Dispatch es args s))))"
  using assms Dispatch_implements [of t es s "hd args" "tl args"]
  by (auto simp: answers_def calm_def implements_def split: sum.splits)

section \<open>Properties\<close>


lemma parse_lrange_example:
  "parse_command [''lrange'', ''l'', ''-2'', ''9''] = Inr (CLRange ''l'' (- 2) 9)"
  by code_simp


end
