(* ===== verification/Store_Types.thy ===== *)
theory Store_Types
  imports Dispatch_Spec
begin

text \<open>
  The types of stored values. A \<^verbatim>\<open>Value\<close> has a field for each type and a tag; the code reads the field
  the tag names and never looks at the others. \<open>well_typed\<close> says that the others are indeed empty, and
  that a list or a hash is not: an empty one would be a key that exists with nothing in it. Every
  operation a server performs on its store keeps this.
\<close>

definition well_typed :: "stored_value \<Rightarrow> bool" where
  "well_typed v \<longleftrightarrow>
     (case vtype v of
        KString \<Rightarrow> list_value v = [] \<and> HT_Get (hash_value v) = Map.empty
      | KList \<Rightarrow> str_value v = [] \<and> list_value v \<noteq> [] \<and> HT_Get (hash_value v) = Map.empty
      | KHash \<Rightarrow> str_value v = [] \<and> list_value v = [] \<and> HT_Get (hash_value v) \<noteq> Map.empty)"

definition typed_store :: "store \<Rightarrow> bool" where
  "typed_store s \<longleftrightarrow> store_inv s \<and> (\<forall>k v. HT_Get (data s) k = Some v \<longrightarrow> well_typed v)"

named_theorems typing

lemma typed_storeD: "typed_store s \<Longrightarrow> store_inv s" "typed_store s \<Longrightarrow> HT_Get (data s) k = Some v \<Longrightarrow> well_typed v"
  by (auto simp: typed_store_def)

lemma well_typed_frame [simp]:
  "well_typed (v\<lparr>last_accessed_seq := q\<rparr>) = well_typed v" "well_typed (v\<lparr>expires_at := t\<rparr>) = well_typed v"
  by (simp_all add: well_typed_def split: value_type.split)

text \<open>What an operation may do to the table: lose entries, or store a well-typed value.\<close>

lemma typed_less:
  "typed_store s \<Longrightarrow> store_inv s' \<Longrightarrow> HT_Get (data s') \<subseteq>\<^sub>m HT_Get (data s) \<Longrightarrow> typed_store s'"
  unfolding typed_store_def map_le_def by (metis domI)

lemma typed_put:
  "typed_store s \<Longrightarrow> store_inv s' \<Longrightarrow> HT_Get (data s') = (HT_Get (data s))(k \<mapsto> v) \<Longrightarrow> well_typed v \<Longrightarrow> typed_store s'"
  by (auto simp: typed_store_def)

lemma typed_remove [typing]: "typed_store s \<Longrightarrow> HT_Get (data s) k = Some v \<Longrightarrow> typed_store (remove_entry k v s)"
  by (rule typed_less) (auto simp: typed_storeD inv_intros remove_entry_get store_invD map_le_def)

lemma typed_Touch [typing]: "typed_store s \<Longrightarrow> typed_store (Touch k s)"
  by (auto simp: typed_store_def Touch_inv Touch_get store_invD split: option.splits if_splits)

lemma typed_evict [typing]: "typed_store s \<Longrightarrow> typed_store (EvictIfOverBudget draws s)"
  using EvictIfOverBudget_facts(1,2) [of s draws] typed_less typed_storeD(1) by blast

lemma typed_update:
  assumes "typed_store s" and "HT_Get (data s) k = Some v" and "well_typed v'" and "ht_inv (hash_value v')"
  shows "typed_store (update_entry k v v' s)"
  using assms
  by (intro typed_put [OF assms(1), of _ k "v'\<lparr>last_accessed_seq := access_clock s\<rparr>"]) (simp_all add: typed_storeD update_entry_inv update_entry_get store_invD)

lemma typed_DeleteIfExpired [typing]: "typed_store s \<Longrightarrow> typed_store (snd (DeleteIfExpired now k s))"
  by (simp add: DeleteIfExpired_def typing split: option.split)

lemma typed_SweepDelete [typing]: "typed_store s \<Longrightarrow> typed_store (SweepDelete now keys s)"
  by (induction now keys s rule: SweepDelete.induct) (simp_all add: typing)

lemma typed_sweep [typing]: "typed_store s \<Longrightarrow> typed_store (SweepExpired e s)"
  by (simp add: SweepExpired_def Let_def typing)

lemma typed_new: "typed_store new_store"
  by (simp add: typed_store_def store_inv_new) (simp add: new_store_def table_simps)

lemma typed_budget [simp]: "typed_store (s\<lparr>max_memory_bytes := b\<rparr>) = typed_store s"
  by (simp add: typed_store_def)

lemma typed_SetMaxMemory [typing]: "typed_store s \<Longrightarrow> typed_store (SetMaxMemory e b s)"
  by (simp add: SetMaxMemory_def typing)

lemma typed_read: "typed_store s \<Longrightarrow> typed_store (snd (read_typed e ty m f k s))"
  by (simp add: read_typed_def typing split: option.split)

lemma typed_del_loop: "typed_store s \<Longrightarrow> typed_store (snd (del_loop now ks n s))"
  by (induction now ks n s rule: del_loop.induct) (simp_all add: typing split: option.split)

lemma typed_queries [typing]:
  assumes "typed_store s"
  shows "typed_store (snd (Store_Get e k s))" "typed_store (snd (LLen e k s))" "typed_store (snd (LRange e k a b s))"
    "typed_store (snd (HGet e k f s))" "typed_store (snd (HGetAll e k s))" "typed_store (snd (HLen e k s))"
    "typed_store (snd (HExists e k f s))" "typed_store (snd (HKeys e k s))" "typed_store (snd (HVals e k s))"
    "typed_store (snd (Store_Del e ks s))" "typed_store (snd (Store_Exists e ks s))" "typed_store (snd (Store_Keys e s))"
    "typed_store (snd (TTL e k s))"
  using assms
  by (simp_all add: Store_Get_def LLen_def LRange_def HGet_def HGetAll_def HLen_def HExists_def HKeys_def HVals_def
      Store_Del_def Store_Exists_def Store_Keys_def TTL_def Let_def case_prod_beta typed_read typed_del_loop typing
      split: option.split)

lemma typed_FlushAll [typing]: "typed_store s \<Longrightarrow> typed_store (FlushAll s)"
  by (rule typed_less) (simp_all add: typed_storeD inv_intros, simp add: FlushAll_def table_simps)

lemma typed_Expire [typing]: "typed_store s \<Longrightarrow> typed_store (snd (Expire e k n s))"
proof (cases "HT_Get (data s) k")
  case (Some v)
  assume s: "typed_store s"
  have "typed_store (write_value k (v\<lparr>expires_at := t\<rparr>) s)" for t
    using s Some typed_storeD [OF s]
    by (intro typed_put [OF s, of _ k "v\<lparr>expires_at := t\<rparr>"] write_value_inv) (auto simp: write_value_get store_invD)
  then show ?thesis using s Some by (simp add: Expire_def typing)
qed (simp add: Expire_def)

lemma well_typed_string [simp]: "well_typed (new_value\<lparr>str_value := val\<rparr>)"
  by (simp add: well_typed_def new_value_def table_simps)

lemma typed_Set [typing]:
  assumes "typed_store s"
  shows "typed_store (Store_Set e k val s)"
proof -
  let ?b = "case HT_Get (data s) k of None \<Rightarrow> 0 | Some v \<Rightarrow> EstimateEntryBytes k v"
  let ?s1 = "recount k ?b (s\<lparr>data := snd (HT_Set k (new_value\<lparr>str_value := val\<rparr>) (data s))\<rparr>)"
  note inv = typed_storeD(1) [OF assms]
  have "typed_store ?s1"
    by (rule typed_put [OF assms, of _ k "new_value\<lparr>str_value := val\<rparr>"]) (simp_all add: put_recount_inv inv table_simps store_invD(1) [OF inv])
  then show ?thesis
    using new_value_vtype typed_evict [OF typed_Touch, of ?s1 "rnd e" k] by (simp add: Store_Set_def Let_def)
qed

text \<open>The entry that \<open>get_or_create\<close> finds or makes, and the table around it.\<close>

lemma get_or_create_typed:
  assumes s: "typed_store s" and r: "get_or_create ty now k s = (KNone, s1)"
  shows "\<exists>v. store_inv s1 \<and> HT_Get (data s1) = (HT_Get (data s))(k \<mapsto> v) \<and> ht_inv (hash_value v)
    \<and> (vtype v = ty \<and> (well_typed v \<or> (\<exists>q. v = new_value\<lparr>vtype := ty, last_accessed_seq := q\<rparr>)))"
proof -
  define s0 where "s0 = (case HT_Get (data s) k of None \<Rightarrow> s
      | Some v \<Rightarrow> if IsExpired now v then remove_entry k v s else s)"
  note inv = typed_storeD(1) [OF s]
  have inv0: "store_inv s0" and get0: "HT_Get (data s0) = HT_Get (data s) \<or> HT_Get (data s0) = (HT_Get (data s))(k := None)"
    using inv by (auto simp: s0_def remove_entry_inv remove_entry_get store_invD split: option.split)
  have inv1: "store_inv s1" using get_or_create_facts(1) [OF inv r] .
  show ?thesis
  proof (cases "HT_Get (data s0) k")
    case None
    let ?s1 = "recount k 0 (s0\<lparr>data := snd (HT_Set k (new_value\<lparr>vtype := ty\<rparr>) (data s0))\<rparr>)"
    have "s1 = Touch k ?s1" using r None unfolding get_or_create_def Let_def s0_def [symmetric] by simp
    moreover have "store_inv ?s1" using inv0 by (rule put_recount_inv) (simp_all add: None)
    ultimately have "HT_Get (data s1) = (HT_Get (data s0))(k \<mapsto> new_value\<lparr>vtype := ty, last_accessed_seq := access_clock s0\<rparr>)"
      using store_invD(1) [OF inv0] by (simp add: Touch_get store_invD table_simps)
    then show ?thesis using get0 inv1 by (intro exI conjI) (auto simp: table_simps)
  next
    case (Some v)
    then have "s1 = s0" "vtype v = ty" using r unfolding get_or_create_def Let_def s0_def [symmetric] by (auto split: if_splits)
    moreover have "HT_Get (data s0) = HT_Get (data s)" using get0 Some by auto
    ultimately show ?thesis
      using Some inv1 typed_storeD(2) [OF s] store_invD(2) [OF inv] by (intro exI [of _ v]) auto
  qed
qed

lemma typed_change:
  assumes s: "typed_store s" and r: "get_or_create ty now k s = (KNone, s1)" and v: "HT_Get (data s1) k = Some v"
    and v': "\<And>v. vtype v = ty \<Longrightarrow> ht_inv (hash_value v) \<Longrightarrow>
      well_typed v \<or> (\<exists>q. v = new_value\<lparr>vtype := ty, last_accessed_seq := q\<rparr>) \<Longrightarrow> well_typed (f v) \<and> ht_inv (hash_value (f v))"
  shows "typed_store (EvictIfOverBudget draws (update_entry k v (f v) s1))"
proof -
  obtain w where w: "store_inv s1" "HT_Get (data s1) = (HT_Get (data s))(k \<mapsto> w)" "ht_inv (hash_value w)" "vtype w = ty"
      "well_typed w \<or> (\<exists>q. w = new_value\<lparr>vtype := ty, last_accessed_seq := q\<rparr>)"
    using get_or_create_typed [OF s r] by blast
  have "v = w" using w(2) v by simp
  then have "well_typed (f v)" "ht_inv (hash_value (f v))" using v' [of w] w by simp_all
  then have "typed_store (update_entry k v (f v) s1)"
    using w v by (intro typed_put [OF s, of _ k "f v\<lparr>last_accessed_seq := access_clock s1\<rparr>"])
      (simp_all add: update_entry_inv update_entry_get store_invD)
  then show ?thesis by (rule typed_evict)
qed

lemma typed_push:
  assumes s: "typed_store s" and f: "\<And>xs. f xs \<noteq> []"
  shows "typed_store (snd (push_with f e k s))"
proof -
  obtain err s1 where r: "get_or_create KList (clk e 0) k s = (err, s1)" by fastforce
  have "typed_store s1" if "err = KWrongType"
    using r s that by (auto simp: get_or_create_def Let_def typing split: option.splits if_splits)
  moreover have "typed_store (EvictIfOverBudget (rnd e) (update_entry k v (v\<lparr>list_value := f (list_value v)\<rparr>) s1))"
    if "err = KNone" "HT_Get (data s1) k = Some v" for v
    using that r f by (intro typed_change [OF s, of KList "clk e 0"]) (auto simp: well_typed_def new_value_def table_simps)
  moreover have "HT_Get (data s1) k \<noteq> None" if "err = KNone"
    using get_or_create_facts(3) [OF typed_storeD(1) [OF s] r that] by auto
  ultimately show ?thesis
    using r by (auto simp: push_with_def GetOrCreateList_def Let_def split: store_error.split option.split)
qed

lemma typed_HSet:
  assumes s: "typed_store s" and "fvs \<noteq> []"
  shows "typed_store (snd (HSet e k fvs s))"
proof -
  obtain err s1 where r: "get_or_create KHash (clk e 0) k s = (err, s1)" by fastforce
  have "typed_store s1" if "err = KWrongType"
    using r s that by (auto simp: get_or_create_def Let_def typing split: option.splits if_splits)
  moreover have "typed_store (EvictIfOverBudget (rnd e)
      (update_entry k v (v\<lparr>hash_value := fst (fold hset_field fvs (hash_value v, 0))\<rparr>) s1))"
    if "err = KNone" "HT_Get (data s1) k = Some v" for v
    using that r assms(2) hset_fields_result [of _ fvs 0]
    by (intro typed_change [OF s, of KHash "clk e 0"])
      (auto simp: well_typed_def new_value_def hset_fields_inv)
  moreover have "HT_Get (data s1) k \<noteq> None" if "err = KNone"
    using get_or_create_facts(3) [OF typed_storeD(1) [OF s] r that] by auto
  ultimately show ?thesis
    using r by (auto simp: HSet_def GetOrCreateHash_def Let_def case_prod_beta split: store_error.split option.split)
qed

lemma typed_HDel [typing]:
  assumes s: "typed_store s"
  shows "typed_store (snd (HDel e k fs s))"
proof (cases "HT_Get (data s) k")
  case (Some v)
  let ?h = "fst (fold hdel_field fs (hash_value v, 0))"
  let ?v' = "v\<lparr>hash_value := ?h\<rparr>"
  note inv = typed_storeD(1) [OF s]
  have h: "ht_inv ?h" using store_invD(2) [OF inv Some] by (simp add: hdel_fields_inv)
  have "HT_Get (data (remove_entry k v (write_value k ?v' s))) = (HT_Get (data s))(k := None)"
    using Some store_invD(1) [OF inv] by (simp add: remove_entry_def write_value_def table_simps)
  then have "typed_store (remove_entry k v (write_value k ?v' s))"
    using Some by (intro typed_less [OF s] remove_written_inv [OF inv]) (auto simp: map_le_def)
  moreover have "typed_store (update_entry k v ?v' s)" if "vtype v = KHash" "HT_Len ?h \<noteq> 0"
    using that typed_storeD(2) [OF s Some] h ht.len_0_iff [OF h]
    by (intro typed_update [OF s Some]) (simp_all add: well_typed_def)
  ultimately show ?thesis
    using s Some by (simp add: HDel_def Let_def case_prod_beta typing)
qed (simp add: HDel_def s)

text \<open>A snapshot of a typed store loads as one.\<close>

lemma well_typed_restored:
  assumes "well_typed v" and "ht_inv (hash_value v)"
  shows "well_typed (value_of_snapshot a' b' (snapshot_of a b k v))"
  using assms(1) restored_payload [OF assms(2), of a' b' a b k]
  by (simp add: well_typed_def payload_of_def value_of_snapshot_def snapshot_of_def table_simps split: value_type.splits)

lemma typed_load_entry:
  assumes "typed_store s" and "HT_Get (data s) (se_key en) = None" and "well_typed (value_of_snapshot a b en)"
  shows "typed_store (load_entry a b en s)"
proof -
  let ?s1 = "recount (se_key en) 0 (s\<lparr>data := snd (HT_Set (se_key en) (value_of_snapshot a b en) (data s))\<rparr>)"
  note inv = typed_storeD(1) [OF assms(1)]
  have "typed_store ?s1"
    using assms(2,3) store_invD(1) [OF inv]
    by (intro typed_put [OF assms(1), of _ "se_key en" "value_of_snapshot a b en"] put_recount_inv)
      (simp_all add: inv value_of_snapshot_hash table_simps)
  then show ?thesis using assms(1) by (simp add: load_entry_def Let_def typing)
qed

lemma typed_load_entries:
  assumes "typed_store s" and "distinct (map se_key ens)"
    and "\<forall>en \<in> set ens. HT_Get (data s) (se_key en) = None \<and> well_typed (value_of_snapshot a b en)"
  shows "typed_store (fold (load_entry a b) ens s)"
  using assms
proof (induction ens arbitrary: s)
  case (Cons en ens)
  have "\<forall>x \<in> set ens. HT_Get (data (load_entry a b en s)) (se_key x) = None"
    using Cons.prems load_entry_get [OF store_invD(1) [OF typed_storeD(1) [OF Cons.prems(1)]]] by (auto simp: image_iff)
  then show ?case using Cons typed_load_entry [of s en a b] by simp
qed simp

lemma typed_reload [typing]:
  assumes "typed_store s"
  shows "typed_store (LoadSnapshot e' (Snapshot e s) s')"
proof -
  let ?s0 = "s'\<lparr>data := HT_Clear (data s'), used_memory_bytes := 0\<rparr>"
  note inv = typed_storeD(1) [OF assms]
  have "typed_store ?s0" by (simp add: typed_store_def store_inv_def table_simps ht.sum_clear)
  moreover have "well_typed (value_of_snapshot a b en)" if "en \<in> set (Snapshot e s)" for a b en
    using snapshot_contents(4) [OF inv that] typed_storeD(2) [OF assms] store_invD(2) [OF inv] well_typed_restored by blast
  ultimately have "typed_store (fold (load_entry (clk e' 0) (wall e' 0)) (Snapshot e s) ?s0)"
    by (intro typed_load_entries snapshot_contents(1) [OF inv]) (simp_all add: table_simps)
  then show ?thesis by (simp add: LoadSnapshot_def typing)
qed

section \<open>Every state of a server\<close>

lemma field_pairs_Nil: "field_pairs xs = [] \<longleftrightarrow> length xs < 2"
  by (cases xs rule: field_pairs.cases) auto

lemma typed_HSET: "typed_store s \<Longrightarrow> \<not> length args < 4 \<Longrightarrow> typed_store (snd (HSet e k (field_pairs (drop 2 args)) s))"
  by (intro typed_HSet) (simp_all add: field_pairs_Nil)

lemma typed_Dispatch [typing]: "typed_store s \<Longrightarrow> typed_store (new_state (Dispatch es args s))"
  by (rule Dispatch_cases)
    (simp_all add: command_defs case_prod_beta Let_def pushes_push_with typed_push typed_HSET typing
      split: option.split)

text \<open>
  The stores a server works on: a new one, and what commands, the sweeper, a new budget and
  loading a snapshot taken of such a store make of it.
\<close>

inductive server_store :: "store \<Rightarrow> bool" where
  fresh: "server_store new_store"
| command: "server_store s \<Longrightarrow> server_store (new_state (Dispatch es args s))"
| sweep: "server_store s \<Longrightarrow> server_store (SweepExpired e s)"
| budget: "server_store s \<Longrightarrow> server_store (SetMaxMemory e b s)"
| reload: "server_store s \<Longrightarrow> server_store s' \<Longrightarrow> server_store (LoadSnapshot e' (Snapshot e s) s')"

lemma server_store_typed: "server_store s \<Longrightarrow> typed_store s"
  by (induction rule: server_store.induct) (simp_all add: typed_new typing)

section \<open>Properties\<close>


definition pushed :: store where
  "pushed = new_state (Dispatch (\<lambda>_. still 0) [''RPUSH'', ''k'', ''x''] new_store)"


end
