(* ===== verification/Dispatch_Budget.thy ===== *)
theory Dispatch_Budget
  imports Dispatch_Spec
begin

text \<open>
  The command layer under a memory budget. A budget takes part in a command only through the
  eviction at the end of a write, after the reply is settled. So a command on a store with a
  budget is compared with the same command on the store without it, which is the subject of
  the theory on the specification of commands: the reply and the log are the same, and the key space is a
  part of the other.
\<close>

abbreviation unbudgeted :: "store \<Rightarrow> store" where
  "unbudgeted s \<equiv> s\<lparr>max_memory_bytes := 0\<rparr>"

section \<open>Methods that do not evict\<close>

named_theorems unbudgeted

lemma unbudgeted_blocks [unbudgeted]:
  "remove_entry k v (unbudgeted s) = unbudgeted (remove_entry k v s)"
  "write_value k v (unbudgeted s) = unbudgeted (write_value k v s)"
  "Touch k (unbudgeted s) = unbudgeted (Touch k s)"
  "recount k b (unbudgeted s) = unbudgeted (recount k b s)"
  "update_entry k v v' (unbudgeted s) = unbudgeted (update_entry k v v' s)"
  by (simp_all add: remove_entry_def write_value_def Touch_def recount_def update_entry_def split: option.split)

lemma unbudgeted_DeleteIfExpired [unbudgeted]:
  "DeleteIfExpired now k (unbudgeted s) = map_prod id unbudgeted (DeleteIfExpired now k s)"
  by (simp add: DeleteIfExpired_def unbudgeted split: option.split)

lemma unbudgeted_SweepDelete [unbudgeted]: "SweepDelete now ks (unbudgeted s) = unbudgeted (SweepDelete now ks s)"
  by (induction now ks s rule: SweepDelete.induct) (simp_all add: unbudgeted)

lemma unbudgeted_read [unbudgeted]:
  "read_typed e ty m f k (unbudgeted s) = map_prod id unbudgeted (read_typed e ty m f k s)"
  by (simp add: read_typed_def unbudgeted split: option.split)

lemma unbudgeted_del_loop: "del_loop now ks n (unbudgeted s) = map_prod id unbudgeted (del_loop now ks n s)"
  by (induction now ks n s rule: del_loop.induct) (simp_all add: unbudgeted split: option.split)

lemma unbudgeted_exists_scan: "exists_scan now ks (unbudgeted s) = exists_scan now ks s"
  by (induction now ks s rule: exists_scan.induct) (simp_all split: option.split)

lemma unbudgeted_methods [unbudgeted]:
  "Store_Get e k (unbudgeted s) = map_prod id unbudgeted (Store_Get e k s)"
  "Store_Del e ks (unbudgeted s) = map_prod id unbudgeted (Store_Del e ks s)"
  "Store_Exists e ks (unbudgeted s) = map_prod id unbudgeted (Store_Exists e ks s)"
  "Store_Keys e (unbudgeted s) = map_prod id unbudgeted (Store_Keys e s)"
  "FlushAll (unbudgeted s) = unbudgeted (FlushAll s)"
  "Expire e k n (unbudgeted s) = map_prod id unbudgeted (Expire e k n s)"
  "TTL e k (unbudgeted s) = map_prod id unbudgeted (TTL e k s)"
  "LLen e k (unbudgeted s) = map_prod id unbudgeted (LLen e k s)"
  "LRange e k a b (unbudgeted s) = map_prod id unbudgeted (LRange e k a b s)"
  "HGet e k f (unbudgeted s) = map_prod id unbudgeted (HGet e k f s)"
  "HDel e k fs (unbudgeted s) = map_prod id unbudgeted (HDel e k fs s)"
  "HGetAll e k (unbudgeted s) = map_prod id unbudgeted (HGetAll e k s)"
  "HLen e k (unbudgeted s) = map_prod id unbudgeted (HLen e k s)"
  "HExists e k f (unbudgeted s) = map_prod id unbudgeted (HExists e k f s)"
  "HKeys e k (unbudgeted s) = map_prod id unbudgeted (HKeys e k s)"
  "HVals e k (unbudgeted s) = map_prod id unbudgeted (HVals e k s)"
  by (simp_all add: Store_Get_def Store_Del_def Store_Exists_def Store_Keys_def FlushAll_def Expire_def TTL_def LLen_def
      LRange_def HGet_def HDel_def HGetAll_def HLen_def HExists_def HKeys_def HVals_def unbudgeted unbudgeted_del_loop
      unbudgeted_exists_scan Let_def case_prod_beta split: option.split)

section \<open>Methods that evict\<close>

text \<open>A result on the store with a budget against the one without.\<close>

definition part_of :: "'a \<times> store \<Rightarrow> 'a \<times> store \<Rightarrow> bool" where
  "part_of r r0 \<longleftrightarrow> fst r = fst r0 \<and> keyspace_of (snd r) \<subseteq>\<^sub>m keyspace_of (snd r0)"

lemma Store_Set_part:
  assumes "store_inv s"
  shows "keyspace_of (Store_Set e k val s) \<subseteq>\<^sub>m keyspace_of (Store_Set e k val (unbudgeted s))"
  using Store_Set_refines [OF assms, of k val e] Store_Set_refines [of "unbudgeted s" k val e] assms
  by (simp add: evicted_from_def)

lemma refines_part:
  assumes "case spec of None \<Rightarrow> r = (wrong_type, s) | Some (n, m) \<Rightarrow> fst r = found n \<and> evicted_from m (snd r)"
    and "case spec of None \<Rightarrow> r0 = (wrong_type, unbudgeted s) | Some (n, m) \<Rightarrow> fst r0 = found n \<and> evicted_from m (snd r0)"
    and "max_memory_bytes (snd r0) = 0"
  shows "part_of r r0"
  using assms by (auto simp: part_of_def evicted_from_def split: option.splits)

lemma writes_part:
  assumes "store_inv s"
  shows "part_of (push_with f e k s) (push_with f e k (unbudgeted s))" "part_of (HSet e k fvs s) (HSet e k fvs (unbudgeted s))"
  using assms push_with_refines [of "unbudgeted s" f e k] HSet_refines [of "unbudgeted s" e k fvs]
  by (auto intro!: refines_part [OF push_with_refines] refines_part [OF HSet_refines])

text \<open>Setting a deadline treats every key space alike, so it keeps a part a part.\<close>

lemma Expire_pointwise:
  "\<exists>g. g None = None \<and> (\<forall>s. store_inv s \<longrightarrow> keyspace_of (snd (Expire e k n s)) = (keyspace_of s)(k := g (keyspace_of s k)))"
proof -
  let ?d = "Some (wrap64 (clk e 1 + wrap64 (n * ns_per_second)))"
  let ?g = "\<lambda>x. case x of None \<Rightarrow> None
    | Some (p, t) \<Rightarrow> if expired_at (clk e 0) t \<or> n \<le> 0 then None else Some (p, ?d)"
  have "keyspace_of (snd (Expire e k n s)) = (keyspace_of s)(k := ?g (keyspace_of s k))" if s: "store_inv s" for s
  proof (cases "HT_Get (data s) k")
    case (Some v)
    then show ?thesis
      using s keyspace_write [OF s Some, of "v\<lparr>expires_at := ?d\<rparr>"] keyspace_remove [OF s, of k v]
      by (auto simp: Expire_def keyspace_of_apply abs_value_def payload_of_def expired_abs split: value_type.split)
  qed (simp add: Expire_def keyspace_of_apply fun_upd_idem)
  then show ?thesis by (intro exI [of _ ?g]) simp
qed

lemma Expire_part:
  assumes "store_inv s" "store_inv s'" and "keyspace_of s \<subseteq>\<^sub>m keyspace_of s'"
  shows "keyspace_of (snd (Expire e k n s)) \<subseteq>\<^sub>m keyspace_of (snd (Expire e k n s'))"
proof -
  obtain g where g: "g None = None"
      "\<And>s. store_inv s \<Longrightarrow> keyspace_of (snd (Expire e k n s)) = (keyspace_of s)(k := g (keyspace_of s k))"
    using Expire_pointwise by blast
  have "keyspace_of s k = None \<or> keyspace_of s k = keyspace_of s' k" using assms(3) by (force simp: map_le_def)
  then show ?thesis using assms g by (auto simp: map_le_def)
qed

section \<open>Commands\<close>

definition part_outcome :: "outcome \<Rightarrow> outcome \<Rightarrow> bool" where
  "part_outcome out out0 \<longleftrightarrow> reply out = reply out0 \<and> logged out = logged out0
     \<and> keyspace_of (new_state out) \<subseteq>\<^sub>m keyspace_of (new_state out0)"

lemma part_answered [simp]: "part_outcome (answered r s) (answered r (unbudgeted s))"
  by (simp add: part_outcome_def)

lemma part_outcomes:
  "part_of r r0 \<Longrightarrow> part_outcome (write_outcome args r) (write_outcome args r0)"
  "part_outcome (write_outcome args r) (write_outcome args (map_prod id unbudgeted r))"
  "part_outcome (int_outcome ri) (int_outcome (map_prod id unbudgeted ri))"
  "part_outcome (strings_outcome rs) (strings_outcome (map_prod id unbudgeted rs))"
  by (simp_all add: part_outcome_def part_of_def outcome_defs case_prod_beta)

lemma SET_part:
  assumes "store_inv s"
  shows "part_outcome (cmd_SET es args s) (cmd_SET es args (unbudgeted s))"
proof -
  have "store_inv (unbudgeted s)" using assms by simp
  then show ?thesis
    using Store_Set_part [OF assms] Expire_part [OF Store_Set_inv [OF assms] Store_Set_inv]
    by (simp add: cmd_SET_def part_outcome_def Let_def split: option.split)
qed

lemma commands_part:
  assumes "store_inv s"
  shows "part_outcome (cmd_PING args s) (cmd_PING args (unbudgeted s))"
    "part_outcome (cmd_ECHO args s) (cmd_ECHO args (unbudgeted s))"
    "part_outcome (cmd_GET es args s) (cmd_GET es args (unbudgeted s))"
    "part_outcome (cmd_DEL es args s) (cmd_DEL es args (unbudgeted s))"
    "part_outcome (cmd_EXISTS es args s) (cmd_EXISTS es args (unbudgeted s))"
    "part_outcome (cmd_KEYS es args s) (cmd_KEYS es args (unbudgeted s))"
    "part_outcome (cmd_FLUSHALL args s) (cmd_FLUSHALL args (unbudgeted s))"
    "part_outcome (cmd_EXPIRE es args s) (cmd_EXPIRE es args (unbudgeted s))"
    "part_outcome (cmd_TTL es args s) (cmd_TTL es args (unbudgeted s))"
    "part_outcome (cmd_PUSH es args s) (cmd_PUSH es args (unbudgeted s))"
    "part_outcome (cmd_LLEN es args s) (cmd_LLEN es args (unbudgeted s))"
    "part_outcome (cmd_LRANGE es args s) (cmd_LRANGE es args (unbudgeted s))"
    "part_outcome (cmd_HSET es args s) (cmd_HSET es args (unbudgeted s))"
    "part_outcome (cmd_HGET es args s) (cmd_HGET es args (unbudgeted s))"
    "part_outcome (cmd_HDEL es args s) (cmd_HDEL es args (unbudgeted s))"
    "part_outcome (cmd_HGETALL es args s) (cmd_HGETALL es args (unbudgeted s))"
    "part_outcome (cmd_HLEN es args s) (cmd_HLEN es args (unbudgeted s))"
    "part_outcome (cmd_HEXISTS es args s) (cmd_HEXISTS es args (unbudgeted s))"
    "part_outcome (cmd_HKEYS_HVALS es args s) (cmd_HKEYS_HVALS es args (unbudgeted s))"
  by (simp_all add: command_defs pushes_push_with part_outcomes writes_part [OF assms] unbudgeted case_prod_beta Let_def
      split: option.split)
    (simp_all add: part_outcome_def)

lemma Dispatch_part:
  assumes "store_inv s"
  shows "part_outcome (Dispatch es args s) (Dispatch es args (unbudgeted s))"
  unfolding Dispatch_def Let_def by (simp add: commands_part [OF assms] SET_part [OF assms])

section \<open>Properties\<close>

text \<open>
  C10: A memory budget costs keys, never answers. Whatever the budget and whatever is evicted, an
  argument list that is no command gets the error the specification names and changes nothing a
  client can see, and every command gets the reply specified for the live key space it meets and leaves a part
  of the specified key space: no key has another value or deadline than it should, and none
  appears.
\<close>

theorem dispatch_under_budget:
  assumes "store_inv s" and "frozen t es" and "args \<noteq> []"
  shows "case parse_command args of
      Inl err \<Rightarrow> reply (Dispatch es args s) = err
        \<and> live t (keyspace_of (new_state (Dispatch es args s))) = live t (keyspace_of s)
    | Inr c \<Rightarrow> in_range t c (live t (keyspace_of s)) \<longrightarrow>
        (\<exists>m. serves t c (live t (keyspace_of s)) (reply (Dispatch es args s)) m
           \<and> live t (keyspace_of (new_state (Dispatch es args s))) \<subseteq>\<^sub>m m)"
proof -
  let ?out = "Dispatch es args s" and ?plain = "Dispatch es args (unbudgeted s)"
  have "calm t es (unbudgeted s)" using assms(1,2) by (simp add: calm_def)
  from Dispatch_implements [OF this, of "hd args" "tl args"]
  have spec: "implements t (unbudgeted s) (parse_command args) ?plain" using assms(3) by simp
  have part: "part_outcome ?out ?plain" by (rule Dispatch_part [OF assms(1)])
  have live: "live t m \<subseteq>\<^sub>m live t m'" if "m \<subseteq>\<^sub>m m'" for m m' :: keyspace
    using that by (auto simp: map_le_def live_def dom_def split: option.splits if_splits)
  show ?thesis
  proof (cases "parse_command args")
    case (Inl err)
    then have "reply ?out = err" "logged ?out = None" using spec part by (simp_all add: part_outcome_def)
    then show ?thesis
      using Inl Dispatch_unlogged_live [OF assms(1) frozen_settled [OF assms(2)]] by simp
  next
    case (Inr c)
    then show ?thesis using spec part live by (auto simp: part_outcome_def)
  qed
qed

theorem dispatch_under_budget_witness:
  "reply (Dispatch (\<lambda>_. still 5) [''set'', ''j'', ''w''] over_budget_store) = ok_reply
    \<and> live 5 (keyspace_of (new_state (Dispatch (\<lambda>_. still 5) [''set'', ''j'', ''w''] over_budget_store)))
        \<subseteq>\<^sub>m [''k'' \<mapsto> (PString ''v'', None), ''j'' \<mapsto> (PString ''w'', None)]"
proof -
  have parse: "parse_command [''set'', ''j'', ''w''] = Inr (CSet ''j'' ''w'')" by code_simp
  have clock: "frozen 5 (\<lambda>_. still 5)" by (simp add: frozen_def)
  have "live 5 (keyspace_of over_budget_store) = [''k'' \<mapsto> (PString ''v'', None)]"
    by (simp add: over_budget_store_facts live_changes)
  then show ?thesis
    using dispatch_under_budget [OF over_budget_store_facts(1) clock, of "[''set'', ''j'', ''w'']"]
    unfolding parse by auto
qed

end
