(* ===== verification/Connections.thy ===== *)
theory Connections
  imports Thread_Runs
begin

text \<open>
  The threads of the server: \<^verbatim>\<open>Start\<close>, \<^verbatim>\<open>AcceptLoop\<close>, \<^verbatim>\<open>Stop\<close> and the guard of \<^verbatim>\<open>HandleClient\<close> in
  \<^verbatim>\<open>src/src/server/tcp_server.cpp\<close>. What a handler does between its start and its end is the
  subject of the theory on a single connection; here it is the phase \<open>Serving\<close>.

  The threads interleave: a step of the model is one access to the shared members or one system
  call, and any thread may take the next step. The kernel hands out any descriptor number that is
  not open. A phase names the point a thread has reached.
\<close>

section \<open>State\<close>

datatype accept_phase = AtHead | InAccept | Accepted nat | Tracked nat | Counted nat | Exited

datatype handler_phase = Serving nat | Leaving nat | FdClosed nat | Erased nat

datatype stop_phase = NotStopping | FlagSet | ListenClosed | Shutting "nat list" | Draining | Stopped

text \<open>The members of \<^verbatim>\<open>TcpServer\<close>.\<close>

record tcp_server =
  port :: int
  listen_fd :: int
  actual_port :: int
  stop_flag :: bool
  active_clients :: int
  client_fds :: "nat list"

text \<open>
  The rest of the process: the descriptors of connections that are open, those of them that were
  shut down, and the threads.
\<close>

record process = tcp_server +
  open_fds :: "nat list"
  shut_fds :: "nat list"
  accepting :: accept_phase
  handlers :: "nat \<Rightarrow> handler_phase option"
  stopping :: stop_phase

definition new_process :: "int \<Rightarrow> process" where
  "new_process p =
     \<lparr>port = p, listen_fd = -1, actual_port = 0, stop_flag = False, active_clients = 0, client_fds = [],
      open_fds = [], shut_fds = [], accepting = AtHead, handlers = (\<lambda>_. None), stopping = NotStopping\<rparr>"

section \<open>Start\<close>

text \<open>
  What the system calls answer; \<open>bind_ok\<close> depends on the port, which is cut to 16 bits. The result
  of \<open>Start\<close> has the descriptor closed on the way, if any.
\<close>

record start_env =
  socket_fd :: int
  bind_ok :: "int \<Rightarrow> bool"
  listen_ok :: bool
  bound_port :: "int option"

definition Start :: "start_env \<Rightarrow> process \<Rightarrow> bool \<times> int option \<times> process" where
  "Start io m =
     (let fd = socket_fd io in
      if fd < 0 then (False, None, m)
      else if \<not> bind_ok io (port m mod 65536) then (False, Some fd, m)
      else if \<not> listen_ok io then (False, Some fd, m)
      else (True, None, m\<lparr>actual_port := (case bound_port io of Some p \<Rightarrow> p | None \<Rightarrow> port m), listen_fd := fd\<rparr>))"

definition ListenPort :: "process \<Rightarrow> int" where
  "ListenPort m = actual_port m"

section \<open>Steps\<close>

text \<open>
  The steps of the accept loop, of the handler thread \<open>t\<close>, and of \<^verbatim>\<open>Stop\<close>. \<open>AcceptReturns fd\<close> is
  \<^verbatim>\<open>accept\<close> with a connection, \<open>AcceptFails\<close> without; \<open>Leave\<close> is the return of \<^verbatim>\<open>HandleClient\<close>,
  after which its guard runs.
\<close>

datatype action =
    Head | AcceptReturns nat | AcceptFails | Track | CountUp | Spawn nat
  | Leave nat | CloseFd nat | Erase nat | CountDown nat
  | SetFlag | CloseListen | CopyFds | ShutNext | Drained | TimedOut

fun accept_step :: "action \<Rightarrow> process \<Rightarrow> process option" where
  "accept_step Head m =
     (case accepting m of
        AtHead \<Rightarrow> Some (m\<lparr>accepting := if stop_flag m then Exited else InAccept\<rparr>)
      | _ \<Rightarrow> None)"
| "accept_step (AcceptReturns fd) m =
     (case accepting m of
        InAccept \<Rightarrow>
          if listen_fd m < 0 \<or> fd \<in> set (open_fds m) then None
          else Some (m\<lparr>accepting := Accepted fd, open_fds := fd # open_fds m\<rparr>)
      | _ \<Rightarrow> None)"
| "accept_step AcceptFails m =
     (case accepting m of
        InAccept \<Rightarrow> Some (m\<lparr>accepting := if stop_flag m then Exited else AtHead\<rparr>)
      | _ \<Rightarrow> None)"
| "accept_step Track m =
     (case accepting m of
        Accepted fd \<Rightarrow> Some (m\<lparr>accepting := Tracked fd, client_fds := client_fds m @ [fd]\<rparr>)
      | _ \<Rightarrow> None)"
| "accept_step CountUp m =
     (case accepting m of
        Tracked fd \<Rightarrow> Some (m\<lparr>accepting := Counted fd, active_clients := active_clients m + 1\<rparr>)
      | _ \<Rightarrow> None)"
| "accept_step (Spawn t) m =
     (case accepting m of
        Counted fd \<Rightarrow>
          if handlers m t \<noteq> None then None
          else Some (m\<lparr>accepting := AtHead, handlers := (handlers m)(t := Some (Serving fd))\<rparr>)
      | _ \<Rightarrow> None)"
| "accept_step _ m = None"

fun guard_step :: "action \<Rightarrow> process \<Rightarrow> process option" where
  "guard_step (Leave t) m =
     (case handlers m t of
        Some (Serving fd) \<Rightarrow> Some (m\<lparr>handlers := (handlers m)(t := Some (Leaving fd))\<rparr>)
      | _ \<Rightarrow> None)"
| "guard_step (CloseFd t) m =
     (case handlers m t of
        Some (Leaving fd) \<Rightarrow>
          Some (m\<lparr>handlers := (handlers m)(t := Some (FdClosed fd)), open_fds := removeAll fd (open_fds m),
                  shut_fds := removeAll fd (shut_fds m)\<rparr>)
      | _ \<Rightarrow> None)"
| "guard_step (Erase t) m =
     (case handlers m t of
        Some (FdClosed fd) \<Rightarrow>
          Some (m\<lparr>handlers := (handlers m)(t := Some (Erased fd)), client_fds := removeAll fd (client_fds m)\<rparr>)
      | _ \<Rightarrow> None)"
| "guard_step (CountDown t) m =
     (case handlers m t of
        Some (Erased fd) \<Rightarrow>
          Some (m\<lparr>handlers := (handlers m)(t := None), active_clients := active_clients m - 1\<rparr>)
      | _ \<Rightarrow> None)"
| "guard_step _ m = None"

fun stop_step :: "action \<Rightarrow> process \<Rightarrow> process option" where
  "stop_step SetFlag m =
     (case stopping m of
        NotStopping \<Rightarrow> Some (m\<lparr>stop_flag := True, stopping := FlagSet\<rparr>)
      | _ \<Rightarrow> None)"
| "stop_step CloseListen m =
     (case stopping m of
        FlagSet \<Rightarrow> Some (m\<lparr>listen_fd := if 0 \<le> listen_fd m then -1 else listen_fd m, stopping := ListenClosed\<rparr>)
      | _ \<Rightarrow> None)"
| "stop_step CopyFds m =
     (case stopping m of
        ListenClosed \<Rightarrow> Some (m\<lparr>stopping := Shutting (client_fds m)\<rparr>)
      | _ \<Rightarrow> None)"
| "stop_step ShutNext m =
     (case stopping m of
        Shutting [] \<Rightarrow> Some (m\<lparr>stopping := Draining\<rparr>)
      | Shutting (fd # fds) \<Rightarrow>
          Some (m\<lparr>stopping := Shutting fds,
                  shut_fds := if fd \<in> set (open_fds m) then fd # shut_fds m else shut_fds m\<rparr>)
      | _ \<Rightarrow> None)"
| "stop_step Drained m =
     (case stopping m of
        Draining \<Rightarrow> if active_clients m > 0 then None else Some (m\<lparr>stopping := Stopped\<rparr>)
      | _ \<Rightarrow> None)"
| "stop_step TimedOut m =
     (case stopping m of
        Draining \<Rightarrow> Some (m\<lparr>stopping := Stopped\<rparr>)
      | _ \<Rightarrow> None)"
| "stop_step _ m = None"

definition proc_step :: "action \<Rightarrow> process \<Rightarrow> process option" where
  "proc_step a m =
     (case accept_step a m of
        Some m' \<Rightarrow> Some m'
      | None \<Rightarrow> (case guard_step a m of Some m' \<Rightarrow> Some m' | None \<Rightarrow> stop_step a m))"

abbreviation run :: "action list \<Rightarrow> process \<Rightarrow> process option" where
  "run \<equiv> steps proc_step"

section \<open>Ownership\<close>

text \<open>
  A resource set with exactly one owner for each element: both the open descriptors and the list
  of tracked clients should be of this kind.
\<close>

definition owned :: "('o \<Rightarrow> 'r option) \<Rightarrow> 'r set \<Rightarrow> bool" where
  "owned h R \<longleftrightarrow> (\<forall>a r. h a = Some r \<longrightarrow> r \<in> R) \<and> (\<forall>r \<in> R. \<exists>a. h a = Some r)
     \<and> (\<forall>a b r. h a = Some r \<longrightarrow> h b = Some r \<longrightarrow> a = b)"

lemma ownedD: "owned h R \<Longrightarrow> h a = Some r \<Longrightarrow> r \<in> R" "owned h R \<Longrightarrow> h a = Some r \<Longrightarrow> h b = Some r \<Longrightarrow> a = b"
  by (auto simp: owned_def)

lemma owned_acquire: "owned h R \<Longrightarrow> r \<notin> R \<Longrightarrow> h a = None \<Longrightarrow> owned (h(a \<mapsto> r)) (insert r R)"
  unfolding owned_def by (auto split: if_splits) (metis option.distinct(1))

lemma owned_pass: "owned h R \<Longrightarrow> h b = None \<Longrightarrow> a \<noteq> b \<Longrightarrow> owned (h(b := h a, a := None)) R"
  unfolding owned_def by (auto split: if_splits) (metis option.distinct(1))+

lemma owned_release:
  assumes R: "owned h R" and a: "h a = Some r"
  shows "owned (h(a := None)) (R - {r})"
proof -
  have "\<exists>b. (h(a := None)) b = Some r'" if "r' \<in> R - {r}" for r'
  proof -
    from that R obtain b where "h b = Some r'" by (auto simp: owned_def)
    with a that show ?thesis by (intro exI [of _ b]) auto
  qed
  moreover have "r' \<in> R - {r}" if "(h(a := None)) b = Some r'" for b r'
    using that ownedD(1) [OF R, of b r'] ownedD(2) [OF R a, of b] by (auto split: if_splits)
  moreover have "b = b'" if "(h(a := None)) b = Some r'" "(h(a := None)) b' = Some r'" for b b' r'
    using that ownedD(2) [OF R, of b r' b'] by (auto split: if_splits)
  ultimately show ?thesis unfolding owned_def by blast
qed

text \<open>
  The owners are the accept loop (\<open>None\<close>) and the handlers. \<open>hold\<close> is who has to close a
  descriptor, \<open>listed\<close> who is on the list of clients.
\<close>

fun held_accepting :: "accept_phase \<Rightarrow> nat option" where
  "held_accepting (Accepted fd) = Some fd"
| "held_accepting (Tracked fd) = Some fd"
| "held_accepting (Counted fd) = Some fd"
| "held_accepting _ = None"

fun held_handler :: "handler_phase option \<Rightarrow> nat option" where
  "held_handler (Some (Serving fd)) = Some fd"
| "held_handler (Some (Leaving fd)) = Some fd"
| "held_handler _ = None"

fun listed_accepting :: "accept_phase \<Rightarrow> nat option" where
  "listed_accepting (Tracked fd) = Some fd"
| "listed_accepting (Counted fd) = Some fd"
| "listed_accepting _ = None"

fun listed_handler :: "handler_phase option \<Rightarrow> nat option" where
  "listed_handler (Some (Serving fd)) = Some fd"
| "listed_handler (Some (Leaving fd)) = Some fd"
| "listed_handler (Some (FdClosed fd)) = Some fd"
| "listed_handler _ = None"

definition hold :: "process \<Rightarrow> nat option \<Rightarrow> nat option" where
  "hold m a = (case a of None \<Rightarrow> held_accepting (accepting m) | Some t \<Rightarrow> held_handler (handlers m t))"

definition listed :: "process \<Rightarrow> nat option \<Rightarrow> nat option" where
  "listed m a = (case a of None \<Rightarrow> listed_accepting (accepting m) | Some t \<Rightarrow> listed_handler (handlers m t))"

lemmas phase_splits = option.splits accept_phase.splits handler_phase.splits stop_phase.splits list.splits if_splits

text \<open>The ways in which a step can change ownership: not at all, by taking a resource nobody
  owns, by passing one on, or by giving one up.\<close>

definition moves :: "(nat option \<Rightarrow> nat option) \<Rightarrow> nat set \<Rightarrow> (nat option \<Rightarrow> nat option) \<Rightarrow> nat set \<Rightarrow> bool" where
  "moves h R h' R' \<longleftrightarrow>
     h' = h \<and> R' = R
     \<or> (\<exists>fd. h' = h(None \<mapsto> fd) \<and> h None = None \<and> fd \<notin> R \<and> R' = insert fd R)
     \<or> (\<exists>t. h' = h(Some t := h None, None := None) \<and> h (Some t) = None \<and> R' = R)
     \<or> (\<exists>t fd. h' = h(Some t := None) \<and> h (Some t) = Some fd \<and> R' = R - {fd})"

lemma owned_moves: "owned h R \<Longrightarrow> moves h R h' R' \<Longrightarrow> owned h' R'"
  unfolding moves_def
  by (elim disjE exE conjE) (simp_all add: owned_acquire owned_pass owned_release del: fun_upd_apply)

lemma hold_step: "proc_step a m = Some m' \<Longrightarrow> moves (hold m) (set (open_fds m)) (hold m') (set (open_fds m'))"
  unfolding moves_def
  by (cases a) (auto simp: proc_step_def hold_def fun_eq_iff split: phase_splits)

text \<open>A quantity summed up over the handlers.\<close>

definition sum_up :: "(handler_phase \<Rightarrow> nat) \<Rightarrow> (nat \<Rightarrow> handler_phase option) \<Rightarrow> nat" where
  "sum_up rk hs = (\<Sum>t\<in>dom hs. rk (the (hs t)))"

lemma sum_up_changes:
  assumes fin: "finite (dom hs)"
  shows "hs t = None \<Longrightarrow> sum_up rk (hs(t := Some h')) = sum_up rk hs + rk h'"
    and "hs t = Some h \<Longrightarrow> sum_up rk (hs(t := Some h')) + rk h = sum_up rk hs + rk h'"
    and "hs t = Some h \<Longrightarrow> sum_up rk (hs(t := None)) + rk h = sum_up rk hs"
proof -
  define others where "others f = (\<Sum>u\<in>dom f - {t}. rk (the (f u)))" for f
  have same: "others (hs(t := x)) = others hs" for x
    unfolding others_def by (rule sum.cong) auto
  have some: "sum_up rk f = rk h + others f" if "f t = Some h" "finite (dom f)" for f h
    using that unfolding sum_up_def others_def by (subst sum.remove [of _ t]) auto
  have none: "sum_up rk f = others f" if "f t = None" for f
  proof -
    have "dom f - {t} = dom f" using that by auto
    then show ?thesis by (simp add: sum_up_def others_def)
  qed
  have upd: "sum_up rk (hs(t := Some h')) = rk h' + others hs" "sum_up rk (hs(t := None)) = others hs"
    using some [of "hs(t := Some h')" h'] none [of "hs(t := None)"] fin same by simp_all
  show "sum_up rk (hs(t := Some h')) = sum_up rk hs + rk h'" if "hs t = None"
    using none [of hs] that upd(1) by simp
  show "sum_up rk (hs(t := Some h')) + rk h = sum_up rk hs + rk h'" "sum_up rk (hs(t := None)) + rk h = sum_up rk hs"
    if "hs t = Some h"
    using some [of hs h] that fin upd by simp_all
qed

lemma card_sum_up: "card (dom hs) = sum_up (\<lambda>_. 1) hs"
  by (simp add: sum_up_def)

lemma sum_up_zero:
  assumes "finite (dom hs)" and "\<And>h. 0 < rk h"
  shows "sum_up rk hs = 0 \<longleftrightarrow> hs = Map.empty"
proof -
  have "rk h \<noteq> 0" for h using assms(2) [of h] by simp
  then have "sum_up rk hs = 0 \<longleftrightarrow> dom hs = {}" using assms(1) by (auto simp only: sum_up_def sum_eq_0_iff)
  then show ?thesis by simp
qed

lemma finite_dom_update: "finite (dom f) \<Longrightarrow> finite (dom (f(t := x)))"
  by simp

text \<open>The number of clients: the handlers, and the one the accept loop is about to start.\<close>

fun pending :: "accept_phase \<Rightarrow> int" where
  "pending (Counted fd) = 1"
| "pending _ = 0"

lemma pending_case: "pending p = (case p of Counted fd \<Rightarrow> 1 | _ \<Rightarrow> 0)"
  by (cases p) simp_all

definition threads_counted :: "process \<Rightarrow> bool" where
  "threads_counted m \<longleftrightarrow> finite (dom (handlers m))
     \<and> active_clients m = int (sum_up (\<lambda>_. 1) (handlers m)) + pending (accepting m)"

lemma threads_counted_step:
  assumes "threads_counted m" and "proc_step a m = Some m'"
  shows "threads_counted m'"
proof -
  have fin: "finite (dom (handlers m))" using assms(1) by (simp add: threads_counted_def)
  note changes = sum_up_changes [OF fin, where rk = "\<lambda>_. 1"]
  have "sum_up (\<lambda>_. 1) ((handlers m)(t := Some h')) = sum_up (\<lambda>_. 1) (handlers m)"
    "int (sum_up (\<lambda>_. 1) ((handlers m)(t := None))) = int (sum_up (\<lambda>_. 1) (handlers m)) - 1"
    if "handlers m t = Some h" for t h h'
    using changes(2) [OF that, of h'] changes(3) [OF that] by simp_all
  then show ?thesis
    using assms changes(1) unfolding threads_counted_def
    by (cases a)
      (auto simp: proc_step_def finite_dom_update simp del: dom_fun_upd fun_upd_apply One_nat_def split: phase_splits)
qed

text \<open>A descriptor accepted while its number is still on the list of clients.\<close>

fun reuses :: "action \<Rightarrow> process \<Rightarrow> bool" where
  "reuses (AcceptReturns fd) m \<longleftrightarrow> fd \<in> set (client_fds m)"
| "reuses _ m \<longleftrightarrow> False"

fun never_reuses :: "action list \<Rightarrow> process \<Rightarrow> bool" where
  "never_reuses [] m \<longleftrightarrow> True"
| "never_reuses (a # as) m \<longleftrightarrow>
     \<not> reuses a m \<and> (case proc_step a m of None \<Rightarrow> True | Some m' \<Rightarrow> never_reuses as m')"

definition list_exact :: "process \<Rightarrow> bool" where
  "list_exact m \<longleftrightarrow> owned (listed m) (set (client_fds m)) \<and> (\<forall>fd. accepting m = Accepted fd \<longrightarrow> fd \<notin> set (client_fds m))"

lemma listed_step:
  assumes "proc_step a m = Some m'" and "\<forall>fd. accepting m = Accepted fd \<longrightarrow> fd \<notin> set (client_fds m)" and "\<not> reuses a m"
  shows "moves (listed m) (set (client_fds m)) (listed m') (set (client_fds m'))"
    and "\<forall>fd. accepting m' = Accepted fd \<longrightarrow> fd \<notin> set (client_fds m')"
  using assms unfolding moves_def
  by (cases a; auto simp: proc_step_def listed_def fun_eq_iff split: phase_splits)+

lemma list_exact_step: "list_exact m \<Longrightarrow> proc_step a m = Some m' \<Longrightarrow> \<not> reuses a m \<Longrightarrow> list_exact m'"
  using listed_step [of a m m'] owned_moves unfolding list_exact_def by blast

interpretation accounts: safe_steps proc_step "\<lambda>m. owned (hold m) (set (open_fds m)) \<and> threads_counted m"
  by unfold_locales (use owned_moves hold_step threads_counted_step in blast)

lemma Start_spec:
  assumes "Start io (new_process p) = (ok, closed, m)"
  shows "ok \<longleftrightarrow> 0 \<le> socket_fd io \<and> bind_ok io (p mod 65536) \<and> listen_ok io"
    and "m = (new_process p)\<lparr>actual_port := actual_port m, listen_fd := if ok then socket_fd io else -1\<rparr>"
    and "\<not> ok \<Longrightarrow> 0 \<le> socket_fd io \<Longrightarrow> closed = Some (socket_fd io)" "ok \<Longrightarrow> closed = None"
  using assms by (auto simp: Start_def new_process_def Let_def split: if_splits)

lemma started:
  assumes "Start io (new_process p) = (ok, closed, m)"
  shows "owned (hold m) (set (open_fds m)) \<and> threads_counted m" "list_exact m"
proof -
  have "hold m a = None" "listed m a = None" for a
    by (subst Start_spec(2) [OF assms], simp add: hold_def listed_def new_process_def split: option.split)+
  moreover have "open_fds m = []" "client_fds m = []" "handlers m = (\<lambda>_. None)" "active_clients m = 0" "accepting m = AtHead"
    by (subst Start_spec(2) [OF assms], simp add: new_process_def)+
  ultimately show "owned (hold m) (set (open_fds m)) \<and> threads_counted m" "list_exact m"
    by (simp_all add: owned_def threads_counted_def list_exact_def sum_up_def)
qed

lemma run_listed: "run as m = Some m' \<Longrightarrow> never_reuses as m \<Longrightarrow> list_exact m \<Longrightarrow> list_exact m'"
  by (induction as arbitrary: m) (auto split: option.splits intro: list_exact_step)

text \<open>A server that has started, and the first client it accepts.\<close>

definition example_start :: start_env where
  "example_start = \<lparr>socket_fd = 3, bind_ok = (\<lambda>_. True), listen_ok = True, bound_port = Some 6380\<rparr>"

definition example_server :: process where
  "example_server = snd (snd (Start example_start (new_process 6380)))"

lemma example_started: "Start example_start (new_process 6380) = (True, None, example_server)"
  by (simp add: example_server_def Start_def example_start_def new_process_def)

section \<open>The end of the threads\<close>

text \<open>
  What is left to do once the listening socket is closed, in steps: for the accept loop when it
  carries no client, for a handler, and for \<^verbatim>\<open>Stop\<close>.
\<close>

fun accept_rank :: "accept_phase \<Rightarrow> nat" where
  "accept_rank Exited = 0"
| "accept_rank _ = 1"

fun handler_rank :: "handler_phase \<Rightarrow> nat" where
  "handler_rank (Serving fd) = 4"
| "handler_rank (Leaving fd) = 3"
| "handler_rank (FdClosed fd) = 2"
| "handler_rank (Erased fd) = 1"

fun stop_rank :: "nat list \<Rightarrow> stop_phase \<Rightarrow> nat" where
  "stop_rank fds ListenClosed = length fds + 3"
| "stop_rank fds (Shutting fds') = length fds' + 2"
| "stop_rank fds Draining = 1"
| "stop_rank fds Stopped = 0"
| "stop_rank fds _ = 0"

definition remaining :: "process \<Rightarrow> nat" where
  "remaining m = accept_rank (accepting m) + sum_up handler_rank (handlers m) + stop_rank (client_fds m) (stopping m)"

text \<open>The clients \<^verbatim>\<open>Stop\<close> reaches: those it has shut down, and those it still has on its list.\<close>

fun shut_reach :: "process \<Rightarrow> stop_phase \<Rightarrow> nat set" where
  "shut_reach m ListenClosed = set (client_fds m)"
| "shut_reach m (Shutting fds) = set fds \<union> set (shut_fds m)"
| "shut_reach m Draining = set (shut_fds m)"
| "shut_reach m Stopped = set (shut_fds m)"
| "shut_reach m _ = {}"

definition closing :: "process \<Rightarrow> bool" where
  "closing m \<longleftrightarrow> stop_flag m \<and> listen_fd m < 0 \<and> held_accepting (accepting m) = None
     \<and> stopping m \<noteq> NotStopping \<and> stopping m \<noteq> FlagSet
     \<and> owned (hold m) (set (open_fds m)) \<and> threads_counted m \<and> list_exact m
     \<and> (\<forall>t fd. handlers m t = Some (Serving fd) \<longrightarrow> fd \<in> shut_reach m (stopping m))"

text \<open>
  The steps that wait neither for a timeout nor for a client: a handler that is serving returns
  from \<^verbatim>\<open>recv\<close> or \<^verbatim>\<open>send\<close> promptly if its descriptor has been shut down.
\<close>

fun prompt :: "action \<Rightarrow> process \<Rightarrow> bool" where
  "prompt TimedOut m \<longleftrightarrow> False"
| "prompt (Leave t) m \<longleftrightarrow> (case handlers m t of Some (Serving fd) \<Rightarrow> fd \<in> set (shut_fds m) | _ \<Rightarrow> False)"
| "prompt _ m \<longleftrightarrow> True"

lemma remaining_zero:
  assumes "finite (dom (handlers m))"
  shows "remaining m = 0 \<longleftrightarrow> accepting m = Exited \<and> handlers m = Map.empty \<and> stop_rank (client_fds m) (stopping m) = 0"
proof -
  have "0 < handler_rank h" for h by (cases h) simp_all
  then show ?thesis using assms by (cases "accepting m") (simp_all add: remaining_def sum_up_zero)
qed

text \<open>While it lasts no client is accepted, so that \<open>list_exact\<close> is kept as well.\<close>

lemma shut_reach_step:
  assumes "closing m" and "proc_step a m = Some m'" and "handlers m' t = Some (Serving fd)"
  shows "fd \<in> shut_reach m' (stopping m')"
proof -
  have "held_accepting (accepting m) = None" "listen_fd m < 0" using assms(1) by (simp_all add: closing_def)
  then have t: "handlers m t = Some (Serving fd)"
    using assms(2,3) by (cases a) (auto simp: proc_step_def split: phase_splits)
  then have r: "fd \<in> shut_reach m (stopping m)" "fd \<in> set (open_fds m)"
    using assms(1) ownedD(1) [of "hold m" _ "Some t"] by (auto simp: closing_def hold_def)
  have "t' = t" if "handlers m t' = Some (Leaving fd) \<or> handlers m t' = Some (FdClosed fd)" for t'
    using that t assms(1) ownedD(2) [of "listed m" "set (client_fds m)" "Some t'" fd "Some t"]
    by (auto simp: closing_def list_exact_def listed_def)
  then have "handlers m t' \<noteq> Some (Leaving fd)" "handlers m t' \<noteq> Some (FdClosed fd)" for t' using t by fastforce+
  then show ?thesis
    using assms(2) r \<open>listen_fd m < 0\<close> \<open>held_accepting (accepting m) = None\<close>
    by (cases "stopping m"; cases a) (auto simp: proc_step_def split: phase_splits)
qed

lemma stage_step:
  assumes "proc_step a m = Some m'" and "held_accepting (accepting m) = None" "listen_fd m < 0" "stop_flag m"
    "stopping m \<noteq> NotStopping" "stopping m \<noteq> FlagSet"
  shows "held_accepting (accepting m') = None \<and> listen_fd m' < 0 \<and> stop_flag m'
    \<and> stopping m' \<noteq> NotStopping \<and> stopping m' \<noteq> FlagSet"
  using assms by (cases a) (simp_all add: proc_step_def split: phase_splits, auto)

lemma closing_step:
  assumes "closing m" and "proc_step a m = Some m'"
  shows "closing m'"
proof -
  have m: "held_accepting (accepting m) = None" "listen_fd m < 0" "stop_flag m" "list_exact m"
    "stopping m \<noteq> NotStopping" "stopping m \<noteq> FlagSet" using assms(1) by (simp_all add: closing_def)
  then have "\<not> reuses a m" using assms(2) by (cases a) (auto simp: proc_step_def split: phase_splits)
  then have "list_exact m'" using list_exact_step m(4) assms(2) by blast
  moreover note stage_step [OF assms(2) m(1-3,5,6)]
  moreover have "owned (hold m') (set (open_fds m')) \<and> threads_counted m'"
    by (rule accounts.inv_step [OF _ assms(2)]) (use assms(1) in \<open>simp add: closing_def\<close>)
  ultimately show ?thesis using shut_reach_step [OF assms] by (simp add: closing_def)
qed

lemma remaining_step:
  assumes "closing m" and "proc_step a m = Some m'"
  shows "remaining m' < remaining m"
proof -
  have m: "held_accepting (accepting m) = None" "listen_fd m < 0" "stop_flag m" "finite (dom (handlers m))"
      "stopping m \<noteq> NotStopping" "stopping m \<noteq> FlagSet"
    using assms(1) by (simp_all add: closing_def threads_counted_def)
  note changes = sum_up_changes [OF m(4), where rk = handler_rank]
  have "sum_up handler_rank ((handlers m)(t := Some h')) < sum_up handler_rank (handlers m)"
    if "handlers m t = Some h" "handler_rank h' < handler_rank h" for t h h'
    using changes(2) [OF that(1), of h'] that(2) by simp
  moreover have "sum_up handler_rank ((handlers m)(t := None)) < sum_up handler_rank (handlers m)"
    if "handlers m t = Some (Erased fd)" for t fd
    using changes(3) [OF that] by simp
  moreover have "stop_rank (removeAll fd fds) p \<le> stop_rank fds p" for fd fds p
    by (cases p) (simp_all add: length_removeAll_less_eq)
  ultimately show ?thesis
    using assms(2) m unfolding remaining_def
    by (cases a) (auto simp: proc_step_def add_less_le_mono simp del: fun_upd_apply split: phase_splits)
qed

fun next_action :: "handler_phase \<Rightarrow> nat \<Rightarrow> action" where
  "next_action (Serving fd) t = Leave t"
| "next_action (Leaving fd) t = CloseFd t"
| "next_action (FdClosed fd) t = Erase t"
| "next_action (Erased fd) t = CountDown t"

lemma never_stuck:
  assumes "closing m" and "0 < remaining m"
  shows "\<exists>a m'. prompt a m \<and> proc_step a m = Some m'"
proof -
  have m: "held_accepting (accepting m) = None" "stopping m \<noteq> NotStopping" "stopping m \<noteq> FlagSet" "threads_counted m"
    using assms(1) by (simp_all add: closing_def)
  then have fin: "finite (dom (handlers m))" by (simp add: threads_counted_def)
  have "handlers m = Map.empty \<or> (\<exists>t h. handlers m t = Some h)" by (metis ext not_None_eq)
  then consider "accepting m \<noteq> Exited" | fds where "stopping m = ListenClosed \<or> stopping m = Shutting fds"
    | t h where "handlers m t = Some h" "shut_reach m (stopping m) = set (shut_fds m)"
    | "accepting m = Exited" "handlers m = Map.empty" "stopping m = Draining \<or> stopping m = Stopped"
    using m by (cases "stopping m") auto
  then show ?thesis
  proof cases
    case 1
    with m(1) have "\<exists>a\<in>{Head, AcceptFails}. \<exists>m'. proc_step a m = Some m'"
      by (cases "accepting m") (simp_all add: proc_step_def)
    then show ?thesis by force
  next
    case 2
    then have "\<exists>a\<in>{CopyFds, ShutNext}. \<exists>m'. proc_step a m = Some m'"
      by (auto simp: proc_step_def split: list.splits)
    then show ?thesis by force
  next
    case (3 t h)
    then have "prompt (next_action h t) m" using assms(1) by (cases h) (auto simp: closing_def)
    moreover have "\<exists>m'. proc_step (next_action h t) m = Some m'" using 3 by (cases h) (simp_all add: proc_step_def)
    ultimately show ?thesis by blast
  next
    case 4
    then have "stopping m = Draining" "active_clients m = 0"
      using assms(2) remaining_zero [OF fin] m(4) by (auto simp: threads_counted_def sum_up_def)
    then show ?thesis by (intro exI [of _ Drained]) (simp add: proc_step_def)
  qed
qed

interpretation drain: progress proc_step closing "\<lambda>_. True" prompt remaining
  by unfold_locales (use closing_step remaining_step never_stuck in auto)

text \<open>The stages of \<^verbatim>\<open>Stop\<close>, and the state in which everything has ended.\<close>

definition stop_staged :: "process \<Rightarrow> bool" where
  "stop_staged m \<longleftrightarrow> (stopping m = NotStopping \<or> stop_flag m) \<and> (stopping m \<in> {NotStopping, FlagSet} \<or> listen_fd m < 0)"

interpretation stages: safe_steps proc_step stop_staged
  by unfold_locales (auto simp: stop_staged_def proc_step_def split: phase_splits action.splits elim!: accept_step.elims guard_step.elims stop_step.elims)

definition at_rest :: "process \<Rightarrow> bool" where
  "at_rest m \<longleftrightarrow> stopping m = Stopped \<and> accepting m = Exited \<and> handlers m = Map.empty \<and> open_fds m = []
     \<and> active_clients m = 0"

lemma closing_starts:
  assumes "Start io (new_process p) = (ok, closed, m0)" and "run as m0 = Some m" and "never_reuses as m0"
    and "stopping m = ListenClosed" and "held_accepting (accepting m) = None"
  shows "closing m"
proof -
  have exact: "list_exact m" using run_listed [OF assms(2,3) started(2) [OF assms(1)]] .
  have "stop_staged m0" by (subst Start_spec(2) [OF assms(1)]) (simp add: stop_staged_def new_process_def)
  then have "stop_flag m" "listen_fd m < 0" using stages.inv_steps [OF assms(2)] assms(4) by (simp_all add: stop_staged_def)
  moreover have "fd \<in> set (client_fds m)" if "handlers m t = Some (Serving fd)" for t fd
    using that exact ownedD(1) [of "listed m" _ "Some t" fd] by (simp add: list_exact_def listed_def)
  ultimately show ?thesis
    using assms(4,5) exact accounts.inv_steps [OF assms(2) started(1) [OF assms(1)]] by (simp add: closing_def)
qed

lemma ended_at_rest:
  assumes "closing m" and "remaining m = 0"
  shows "at_rest m"
proof -
  have o: "owned (hold m) (set (open_fds m))" and c: "threads_counted m" using assms(1) by (simp_all add: closing_def)
  have e: "accepting m = Exited" "handlers m = Map.empty" "stop_rank (client_fds m) (stopping m) = 0"
    using remaining_zero [of m] assms(2) c by (simp_all add: threads_counted_def)
  have "hold m a = None" for a using e by (simp add: hold_def split: option.split)
  then have "open_fds m = []" using o by (auto simp: owned_def)
  moreover have "stopping m = Stopped" using e(3) assms(1) by (cases "stopping m") (simp_all add: closing_def)
  ultimately show ?thesis using e c by (simp add: at_rest_def threads_counted_def sum_up_def)
qed

section \<open>Properties\<close>

text \<open>
  C27: Descriptors and clients are accounted for under every interleaving of the accept loop, the
  handlers and \<^verbatim>\<open>Stop\<close>: an open descriptor has exactly one thread that will close it, no thread
  closes one that is not open, and \<^verbatim>\<open>active_clients_\<close> is the number of handlers, plus the one
  about to be started. So once the accept loop has ended, a count of zero means that no handler
  is left and no descriptor is open.
\<close>

theorem connections_accounted:
  assumes "Start io (new_process p) = (ok, closed, m0)" and "run as m0 = Some m"
  shows "(\<forall>fd \<in> set (open_fds m). \<exists>!a. hold m a = Some fd)
    \<and> (\<forall>a fd. hold m a = Some fd \<longrightarrow> fd \<in> set (open_fds m))
    \<and> active_clients m = int (card (dom (handlers m))) + (case accepting m of Counted fd \<Rightarrow> 1 | _ \<Rightarrow> 0)
    \<and> (accepting m = Exited \<longrightarrow> active_clients m = 0 \<longrightarrow> handlers m = Map.empty \<and> open_fds m = [])"
proof -
  have o: "owned (hold m) (set (open_fds m))" and c: "threads_counted m"
    using accounts.inv_steps [OF assms(2) started(1) [OF assms(1)]] by simp_all
  have "handlers m = Map.empty \<and> open_fds m = []" if "accepting m = Exited" "active_clients m = 0"
  proof -
    have "handlers m = Map.empty" using that c sum_up_zero [of "handlers m" "\<lambda>_. 1"] by (simp add: threads_counted_def)
    then have "hold m a = None" for a using that(1) by (simp add: hold_def split: option.split)
    then have "set (open_fds m) = {}" using o by (auto simp: owned_def)
    with \<open>handlers m = Map.empty\<close> show ?thesis by simp
  qed
  then show ?thesis using o c by (auto simp: owned_def threads_counted_def card_sum_up pending_case)
qed

theorem connections_accounted_witness:
  "\<exists>m. run [Head, AcceptReturns 5, Track, CountUp, Spawn 0] example_server = Some m
     \<and> active_clients m = 1 \<and> (\<exists>!a. hold m a = Some 5)"
proof -
  have "\<exists>m. run [Head, AcceptReturns 5, Track, CountUp, Spawn 0] example_server = Some m \<and> open_fds m = [5]
      \<and> active_clients m = 1"
    by (simp add: proc_step_def example_server_def Start_def example_start_def new_process_def)
  then obtain m where m: "run [Head, AcceptReturns 5, Track, CountUp, Spawn 0] example_server = Some m"
      "open_fds m = [5]" "active_clients m = 1" by blast
  with connections_accounted [OF example_started m(1)] show ?thesis by auto
qed

text \<open>
  As long as the kernel does not hand out a number that is still on the list, the list of
  clients is exact: it has the descriptor of every handler that serves a client, so that the
  copy \<^verbatim>\<open>Stop\<close> takes of it reaches them all.
\<close>

theorem connections_tracked:
  assumes "Start io (new_process p) = (ok, closed, m0)" and "run as m0 = Some m" and "never_reuses as m0"
    and "handlers m t = Some (Serving fd)"
  shows "fd \<in> set (client_fds m)
    \<and> (\<forall>m'. proc_step CopyFds m = Some m' \<longrightarrow> (\<exists>fds. stopping m' = Shutting fds \<and> fd \<in> set fds))"
proof -
  have "owned (listed m) (set (client_fds m))"
    using run_listed [OF assms(2,3) started(2) [OF assms(1)]] by (simp add: list_exact_def)
  moreover have "listed m (Some t) = Some fd" using assms(4) by (simp add: listed_def)
  ultimately have "fd \<in> set (client_fds m)" by (rule ownedD)
  then show ?thesis
    by (auto simp: proc_step_def split: phase_splits)
qed

theorem connections_tracked_witness:
  "\<exists>m. run [Head, AcceptReturns 5, Track, CountUp, Spawn 0, SetFlag, CloseListen] example_server = Some m
     \<and> 5 \<in> set (client_fds m)"
proof -
  let ?as = "[Head, AcceptReturns 5, Track, CountUp, Spawn 0, SetFlag, CloseListen]"
  have "\<exists>m. run ?as example_server = Some m \<and> handlers m 0 = Some (Serving 5)" and fresh: "never_reuses ?as example_server"
    by (simp_all add: proc_step_def example_server_def Start_def example_start_def new_process_def)
  then obtain m where m: "run ?as example_server = Some m" "handlers m 0 = Some (Serving 5)" by blast
  with connections_tracked [OF example_started m(1) fresh m(2)] show ?thesis by blast
qed

text \<open>
  The guard closes the descriptor before it takes its number off the list. If the accept loop
  is given the same number in between, the guard removes the entry of the new client: the client
  is served, but \<^verbatim>\<open>Stop\<close> does not know it, does not shut it down, and returns after its timeout
  while the handler is still running.
\<close>

theorem reused_descriptor_untracked:
  "\<exists>as m. run as example_server = Some m \<and> stopping m = Stopped \<and> handlers m 1 = Some (Serving 5)
     \<and> 5 \<notin> set (client_fds m) \<and> 5 \<notin> set (shut_fds m)"
  by (rule exI [of _ "[Head, AcceptReturns 5, Track, CountUp, Spawn 0, Head, Leave 0, CloseFd 0, AcceptReturns 5, Track,
      Erase 0, CountUp, Spawn 1, CountDown 0, SetFlag, CloseListen, CopyFds, ShutNext, TimedOut]"])
    (simp add: proc_step_def example_server_def Start_def example_start_def new_process_def)

text \<open>
  A client accepted just before \<^verbatim>\<open>Stop\<close> closes the listening socket and put on the list after
  \<^verbatim>\<open>Stop\<close> has copied it is not shut down either, and \<^verbatim>\<open>Stop\<close> does not wait for it: it can find
  the count at zero, return, and the handler starts afterwards.
\<close>

theorem late_client_survives_stop:
  "\<exists>as m. run as example_server = Some m \<and> stopping m = Stopped \<and> accepting m = Exited
     \<and> handlers m 0 = Some (Serving 5) \<and> 5 \<notin> set (shut_fds m) \<and> TimedOut \<notin> set as"
  by (rule exI [of _ "[Head, AcceptReturns 5, SetFlag, CloseListen, CopyFds, ShutNext, Drained, Track, CountUp, Spawn 0, Head]"])
    (simp add: proc_step_def example_server_def Start_def example_start_def new_process_def)

text \<open>
  C13: \<^verbatim>\<open>Stop\<close> comes to its end, and everything with it. Let the accept loop be between two clients when
  \<^verbatim>\<open>Stop\<close> has closed the listening socket, on a server that has never been given a descriptor
  number still on its list. Then only so many further steps are possible, of the accept loop,
  the handlers and \<^verbatim>\<open>Stop\<close> in any order; unless everything has ended, one of them is possible that
  waits neither for the timeout nor for a client; and such steps alone lead to the state in
  which \<^verbatim>\<open>Stop\<close> has returned, the accept loop has ended, no handler runs, no client's descriptor is open
  and the count is zero.
\<close>

theorem shutdown_completes:
  assumes "Start io (new_process p) = (ok, closed, m0)" and "run as m0 = Some m" and "never_reuses as m0"
    and "stopping m = ListenClosed" and "held_accepting (accepting m) = None" and "run bs m = Some m'"
  shows "length bs \<le> remaining m
    \<and> (at_rest m' \<or> (\<exists>a m''. prompt a m' \<and> proc_step a m' = Some m''))
    \<and> (\<exists>cs m''. steps (\<lambda>a s. if prompt a s then proc_step a s else None) cs m' = Some m'' \<and> at_rest m'')"
proof (intro conjI)
  have m: "closing m" using closing_starts [OF assms(1-5)] .
  then have m': "closing m'" by (rule drain.inv_steps [OF assms(6)])
  show "length bs \<le> remaining m" using drain.own_steps_bounded [OF assms(6) m] by simp
  show "at_rest m' \<or> (\<exists>a m''. prompt a m' \<and> proc_step a m' = Some m'')"
    using never_stuck [OF m'] ended_at_rest [OF m'] by blast
  show "\<exists>cs m''. steps (\<lambda>a s. if prompt a s then proc_step a s else None) cs m' = Some m'' \<and> at_rest m''"
    using drain.can_end [OF m'] ended_at_rest by auto
qed

theorem shutdown_completes_witness:
  "\<exists>m cs m''. run [Head, AcceptReturns 5, Track, CountUp, Spawn 0, SetFlag, CloseListen] example_server = Some m
     \<and> handlers m 0 = Some (Serving 5)
     \<and> steps (\<lambda>a s. if prompt a s then proc_step a s else None) cs m = Some m'' \<and> at_rest m''"
proof -
  let ?as = "[Head, AcceptReturns 5, Track, CountUp, Spawn 0, SetFlag, CloseListen]"
  have "\<exists>m. run ?as example_server = Some m \<and> stopping m = ListenClosed \<and> accepting m = AtHead
      \<and> handlers m 0 = Some (Serving 5)"
    and fresh: "never_reuses ?as example_server"
    by (simp_all add: proc_step_def example_server_def Start_def example_start_def new_process_def)
  then obtain m where m: "run ?as example_server = Some m" "stopping m = ListenClosed" "accepting m = AtHead"
      "handlers m 0 = Some (Serving 5)" by blast
  moreover have "held_accepting (accepting m) = None" "run [] m = Some m" using m by simp_all
  ultimately show ?thesis using shutdown_completes [OF example_started m(1) fresh m(2)] by blast
qed

end
