(* ===== verification/MainThread.thy ===== *)
theory MainThread
  imports Connections
begin

text \<open>
  The main thread among the others, from the moment the accept thread has been started: the loop of
  \<^verbatim>\<open>main\<close> that polls the flag of the signal handler, the call of \<^verbatim>\<open>Stop\<close>, the join of the accept thread
  and the return. \<^verbatim>\<open>Stop\<close> is not one step: it runs interleaved with the accept loop and the
  handlers, as in the theory of connections, whose steps are the steps of this one. What is done between
  the join and the return, the final save, is \<open>finish\<close> of the theory on the program.
\<close>

section \<open>Steps\<close>

datatype main_phase = Polling | Stopping | Joining | Saving | Returning

record program =
  server :: process
  g_shutdown_requested :: bool
  main_at :: main_phase

text \<open>A signal may come at any time; its handler does nothing but set the flag.\<close>

datatype program_action = HandleShutdownSignal | Poll | Server action | StopReturns | JoinAccept | Save

fun by_stop :: "action \<Rightarrow> bool" where
  "by_stop SetFlag = True"
| "by_stop CloseListen = True"
| "by_stop CopyFds = True"
| "by_stop ShutNext = True"
| "by_stop Drained = True"
| "by_stop TimedOut = True"
| "by_stop _ = False"

fun by_handler :: "action \<Rightarrow> bool" where
  "by_handler (Leave t) = True"
| "by_handler (CloseFd t) = True"
| "by_handler (Erase t) = True"
| "by_handler (CountDown t) = True"
| "by_handler _ = False"

fun main_step :: "program_action \<Rightarrow> program \<Rightarrow> program option" where
  "main_step HandleShutdownSignal p = Some (p\<lparr>g_shutdown_requested := True\<rparr>)"
| "main_step Poll p =
     (if main_at p \<noteq> Polling then None
      else if g_shutdown_requested p then Some (p\<lparr>main_at := Stopping\<rparr>)
      else Some p)"
| "main_step (Server a) p =
     (if by_stop a \<and> main_at p \<noteq> Stopping then None
      else map_option (\<lambda>m. p\<lparr>server := m\<rparr>) (proc_step a (server p)))"
| "main_step StopReturns p =
     (if main_at p = Stopping \<and> stopping (server p) = Stopped then Some (p\<lparr>main_at := Joining\<rparr>) else None)"
| "main_step JoinAccept p =
     (if main_at p = Joining \<and> accepting (server p) = Exited then Some (p\<lparr>main_at := Saving\<rparr>) else None)"
| "main_step Save p = (if main_at p = Saving then Some (p\<lparr>main_at := Returning\<rparr>) else None)"

definition launched :: "process \<Rightarrow> program" where
  "launched m = \<lparr>server = m, g_shutdown_requested = False, main_at = Polling\<rparr>"

abbreviation main_run :: "program_action list \<Rightarrow> program \<Rightarrow> program option" where
  "main_run \<equiv> steps main_step"

section \<open>Invariant\<close>

definition program_inv :: "program \<Rightarrow> bool" where
  "program_inv p \<longleftrightarrow> stop_staged (server p) \<and> finite (dom (handlers (server p)))
     \<and> (main_at p = Polling \<longrightarrow> stopping (server p) = NotStopping)
     \<and> (main_at p \<noteq> Polling \<longrightarrow> g_shutdown_requested p)
     \<and> (main_at p \<in> {Joining, Saving, Returning} \<longrightarrow> stopping (server p) = Stopped)
     \<and> (main_at p \<in> {Saving, Returning} \<longrightarrow> accepting (server p) = Exited)"

text \<open>The steps of the accept loop and the handlers leave \<^verbatim>\<open>Stop\<close> alone, and an accept loop that has ended stays so.\<close>

lemma stop_frame: "proc_step a m = Some m' \<Longrightarrow> \<not> by_stop a \<Longrightarrow> stopping m' = stopping m \<and> stop_flag m' = stop_flag m"
  by (cases a) (auto simp: proc_step_def split: phase_splits)

lemma exited_frame: "proc_step a m = Some m' \<Longrightarrow> accepting m = Exited \<Longrightarrow> accepting m' = Exited"
  by (cases a) (auto simp: proc_step_def split: phase_splits)

lemma handlers_finite: "proc_step a m = Some m' \<Longrightarrow> finite (dom (handlers m)) \<Longrightarrow> finite (dom (handlers m'))"
  by (cases a) (auto simp: proc_step_def finite_dom_update simp del: dom_fun_upd fun_upd_apply split: phase_splits)

lemma program_inv_step:
  assumes "program_inv p" and "main_step a p = Some p'"
  shows "program_inv p'"
proof (cases a)
  case (Server b)
  then obtain m where m: "proc_step b (server p) = Some m" "p' = p\<lparr>server := m\<rparr>" "by_stop b \<Longrightarrow> main_at p = Stopping"
    using assms(2) by (auto split: if_splits)
  have "stop_staged m" "finite (dom (handlers m))"
    using assms(1) stages.inv_step [OF _ m(1)] handlers_finite [OF m(1)] by (simp_all add: program_inv_def)
  moreover have "stopping m = stopping (server p)" if "main_at p \<noteq> Stopping" using m(3) stop_frame [OF m(1)] that by blast
  ultimately show ?thesis
    using assms(1) m(2) exited_frame [OF m(1)] by (cases "main_at p") (simp_all add: program_inv_def)
qed (use assms in \<open>clarsimp simp: program_inv_def split: if_splits\<close>)+

interpretation main_thread: safe_steps main_step program_inv
  by unfold_locales (rule program_inv_step)

lemma launched_inv:
  assumes "Start io (new_process n) = (ok, closed, m)"
  shows "program_inv (launched m)"
  by (subst Start_spec(2) [OF assms]) (simp add: program_inv_def launched_def stop_staged_def new_process_def)

section \<open>The end of the program\<close>

text \<open>What is left to do once \<^verbatim>\<open>stop_flag_\<close> is set, for the main thread and for the accept loop.\<close>

fun accepting_rank :: "accept_phase \<Rightarrow> nat" where
  "accepting_rank InAccept = 6"
| "accepting_rank (Accepted fd) = 5"
| "accepting_rank (Tracked fd) = 3"
| "accepting_rank (Counted fd) = 2"
| "accepting_rank AtHead = 1"
| "accepting_rank Exited = 0"

fun stopping_rank :: "nat \<Rightarrow> stop_phase \<Rightarrow> nat" where
  "stopping_rank n (Shutting fds) = length fds + 2"
| "stopping_rank n Draining = 1"
| "stopping_rank n Stopped = 0"
| "stopping_rank n ListenClosed = n + 3"
| "stopping_rank n _ = n + 4"

fun main_rank :: "main_phase \<Rightarrow> nat" where
  "main_rank Polling = 4"
| "main_rank Stopping = 3"
| "main_rank Joining = 2"
| "main_rank Saving = 1"
| "main_rank Returning = 0"

definition server_todo :: "process \<Rightarrow> nat" where
  "server_todo m = accepting_rank (accepting m) + stopping_rank (length (client_fds m)) (stopping m)"

definition program_todo :: "program \<Rightarrow> nat" where
  "program_todo p = main_rank (main_at p) + server_todo (server p)"

definition ending :: "program \<Rightarrow> bool" where
  "ending p \<longleftrightarrow> program_inv p \<and> stop_flag (server p) \<and> stopping (server p) \<noteq> NotStopping"

text \<open>The steps of the main thread and the accept loop, and those of them that wait at most for the clock.\<close>

fun by_program :: "program_action \<Rightarrow> bool" where
  "by_program HandleShutdownSignal = False"
| "by_program (Server a) = (\<not> by_handler a)"
| "by_program _ = True"

fun clocked_only :: "program_action \<Rightarrow> program \<Rightarrow> bool" where
  "clocked_only (Server AcceptFails) p = (listen_fd (server p) < 0)"
| "clocked_only (Server (AcceptReturns fd)) p = False"
| "clocked_only a p = by_program a"

lemma stopping_rank_mono: "n \<le> n' \<Longrightarrow> stopping_rank n q \<le> stopping_rank n' q" "stopping_rank (Suc n) q \<le> Suc (stopping_rank n q)"
  by (cases q; simp)+

lemma server_todo_step:
  assumes "proc_step a m = Some m'" and "stop_flag m" "stopping m \<noteq> NotStopping"
  shows "if by_handler a then server_todo m' \<le> server_todo m else server_todo m' < server_todo m"
proof -
  have "stopping_rank (length (removeAll fd fds)) q \<le> stopping_rank (length fds) q" for fd fds q
    by (intro stopping_rank_mono length_removeAll_less_eq)
  then show ?thesis
    using assms stopping_rank_mono(2) unfolding server_todo_def
    by (cases a) (auto simp: proc_step_def less_Suc_eq_le split: phase_splits)
qed

lemma flag_kept: "proc_step a m = Some m' \<Longrightarrow> stop_flag m \<Longrightarrow> stop_flag m'"
  "proc_step a m = Some m' \<Longrightarrow> stopping m \<noteq> NotStopping \<Longrightarrow> stopping m' \<noteq> NotStopping"
  by (cases a; auto simp: proc_step_def split: phase_splits)+

lemma ending_step:
  assumes "ending p" and "main_step a p = Some p'"
  shows "ending p'" "\<not> by_program a \<Longrightarrow> program_todo p' \<le> program_todo p" "by_program a \<Longrightarrow> program_todo p' < program_todo p"
proof -
  have p: "program_inv p" "stop_flag (server p)" "stopping (server p) \<noteq> NotStopping" using assms(1) by (simp_all add: ending_def)
  have inv: "program_inv p'" using p(1) assms(2) by (rule program_inv_step)
  have "ending p' \<and> (if by_program a then program_todo p' < program_todo p else program_todo p' \<le> program_todo p)"
  proof (cases a)
    case (Server b)
    then obtain m where m: "proc_step b (server p) = Some m" "p' = p\<lparr>server := m\<rparr>" using assms(2) by (auto split: if_splits)
    then show ?thesis
      using Server inv flag_kept [OF m(1)] server_todo_step [OF m(1) p(2,3)] p
      by (simp add: ending_def program_todo_def split: if_splits)
  next
    case Poll
    then show ?thesis using assms(2) p by (auto simp: program_inv_def split: if_splits)
  qed (use assms(2) inv p in \<open>auto simp: ending_def program_todo_def split: if_splits\<close>)
  then show "ending p'" "\<not> by_program a \<Longrightarrow> program_todo p' \<le> program_todo p" "by_program a \<Longrightarrow> program_todo p' < program_todo p"
    by simp_all
qed

text \<open>While \<^verbatim>\<open>Stop\<close> runs it can go on, and an accept loop whose socket is closed runs to its end.\<close>

lemma stop_enabled:
  "stopping m \<noteq> Stopped \<Longrightarrow> \<exists>a \<in> {SetFlag, CloseListen, CopyFds, ShutNext, TimedOut}. \<exists>m'. proc_step a m = Some m'"
  by (cases "stopping m") (auto simp: proc_step_def split: list.splits)

lemma accept_enabled:
  assumes "finite (dom (handlers m))" and "accepting m \<noteq> Exited"
  shows "\<exists>t. \<exists>a \<in> {Head, AcceptFails, Track, CountUp, Spawn t}. \<exists>m'. proc_step a m = Some m'"
proof -
  obtain t where "handlers m t = None" using ex_new_if_finite [OF infinite_UNIV_nat assms(1)] by auto
  then show ?thesis using assms(2) by (intro exI [of _ t]) (cases "accepting m"; simp add: proc_step_def)
qed

lemma main_never_stuck:
  assumes "ending p" and "0 < program_todo p"
  shows "\<exists>a p'. by_program a \<and> clocked_only a p \<and> main_step a p = Some p'"
proof -
  have p: "program_inv p" "stopping (server p) \<noteq> NotStopping" using assms(1) by (simp_all add: ending_def)
  show ?thesis
  proof (cases "main_at p")
    case Polling
    then show ?thesis using p by (simp add: program_inv_def)
  next
    case Stopping
    show ?thesis
    proof (cases "stopping (server p) = Stopped")
      case True
      then show ?thesis using Stopping by (intro exI [of _ StopReturns]) simp
    next
      case False
      then obtain a m' where "a \<in> {SetFlag, CloseListen, CopyFds, ShutNext, TimedOut}" "proc_step a (server p) = Some m'"
        using stop_enabled by blast
      then show ?thesis using Stopping by (intro exI [of _ "Server a"]) auto
    qed
  next
    case Joining
    then have "stopping (server p) = Stopped" using p by (simp add: program_inv_def)
    then have closed: "listen_fd (server p) < 0" using p(1) by (simp add: program_inv_def stop_staged_def)
    show ?thesis
    proof (cases "accepting (server p) = Exited")
      case True
      then show ?thesis using Joining by (intro exI [of _ JoinAccept]) simp
    next
      case False
      then obtain t a m' where "a \<in> {Head, AcceptFails, Track, CountUp, Spawn t}" "proc_step a (server p) = Some m'"
        using accept_enabled [of "server p"] p(1) by (auto simp: program_inv_def)
      then show ?thesis using Joining closed by (intro exI [of _ "Server a"]) auto
    qed
  next
    case Saving
    then show ?thesis by (intro exI [of _ Save]) simp
  next
    case Returning
    then show ?thesis using p assms(2) by (simp add: program_inv_def program_todo_def server_todo_def)
  qed
qed

interpretation shutdown: progress main_step ending by_program clocked_only program_todo
  by unfold_locales (use ending_step main_never_stuck in blast)+

abbreviation clocked_run :: "program_action list \<Rightarrow> program \<Rightarrow> program option" where
  "clocked_run \<equiv> steps (\<lambda>a p. if by_program a \<and> clocked_only a p then main_step a p else None)"

lemma ended_returning: "ending p \<Longrightarrow> program_todo p = 0 \<Longrightarrow> main_at p = Returning"
  by (cases "main_at p") (simp_all add: program_todo_def)

text \<open>The main thread needs two steps from the signal to the flag.\<close>

lemma signal_noticed:
  assumes "program_inv p" and "g_shutdown_requested p"
  shows "\<exists>cs p'. clocked_run cs p = Some p' \<and> ending p'"
proof (cases "stopping (server p) = NotStopping")
  case False
  then show ?thesis
    using assms by (intro exI [of _ "[]"]) (auto simp: ending_def program_inv_def stop_staged_def)
next
  case True
  then have "main_at p = Polling \<or> main_at p = Stopping" using assms(1) by (cases "main_at p") (simp_all add: program_inv_def)
  then obtain cs p' where cs: "clocked_run cs p = Some p'" "stop_flag (server p')" "stopping (server p') \<noteq> NotStopping"
  proof
    assume "main_at p = Polling"
    then show ?thesis using True assms(2) by (intro that [of "[Poll, Server SetFlag]"]) (auto simp: proc_step_def)
  next
    assume "main_at p = Stopping"
    then show ?thesis using True by (intro that [of "[Server SetFlag]"]) (auto simp: proc_step_def)
  qed
  moreover have "program_inv p'" using main_thread.inv_steps [OF steps_restrict [OF cs(1)] assms(1)] .
  ultimately show ?thesis by (auto simp: ending_def)
qed

section \<open>Properties\<close>

text \<open>
  C14: A signal ends the program, whatever the clients do. From every state in which the signal has
  arrived the main thread and the accept loop can run to the return of \<^verbatim>\<open>main\<close> waiting for nothing but
  the clock (the poll, the two seconds of the drain); and once \<^verbatim>\<open>Stop\<close> has set its flag every run ends there: the steps
  the two threads can still take are bounded, and until \<^verbatim>\<open>main\<close> returns one of them is possible,
  however many handlers are still busy and whether or not their clients react.
\<close>

theorem signal_ends_program:
  assumes "Start io (new_process n) = (ok, closed, m0)" and "main_run as (launched m0) = Some p"
    and "g_shutdown_requested p"
  shows "(\<exists>cs p'. clocked_run cs p = Some p' \<and> main_at p' = Returning)
    \<and> (stopping (server p) \<noteq> NotStopping \<longrightarrow> main_run bs p = Some p' \<longrightarrow>
         length (filter by_program bs) \<le> program_todo p
         \<and> (main_at p' = Returning \<or> (\<exists>a p''. by_program a \<and> clocked_only a p' \<and> main_step a p' = Some p'')))"
proof (intro conjI impI)
  have inv: "program_inv p" using main_thread.inv_steps [OF assms(2) launched_inv [OF assms(1)]] .
  obtain cs p1 where p1: "clocked_run cs p = Some p1" "ending p1" using signal_noticed [OF inv assms(3)] by blast
  obtain ds p2 where p2: "clocked_run ds p1 = Some p2" "ending p2" "program_todo p2 = 0"
    using shutdown.can_end [OF p1(2)] by blast
  have "clocked_run (cs @ ds) p = Some p2" using p1(1) p2(1) by (simp add: steps_append)
  then show "\<exists>cs p'. clocked_run cs p = Some p' \<and> main_at p' = Returning" using ended_returning [OF p2(2,3)] by blast
  assume "stopping (server p) \<noteq> NotStopping" and bs: "main_run bs p = Some p'"
  then have e: "ending p" using inv by (auto simp: ending_def program_inv_def stop_staged_def)
  show "length (filter by_program bs) \<le> program_todo p" using shutdown.own_steps_bounded [OF bs e] by simp
  show "main_at p' = Returning \<or> (\<exists>a p''. by_program a \<and> clocked_only a p' \<and> main_step a p' = Some p'')"
    using shutdown.inv_steps [OF bs e] ended_returning main_never_stuck by blast
qed

theorem signal_ends_program_witness:
  "\<exists>p cs p'. main_run [Server Head, Server (AcceptReturns 5), HandleShutdownSignal] (launched example_server) = Some p
     \<and> main_at p = Polling \<and> clocked_run cs p = Some p' \<and> main_at p' = Returning"
proof -
  have "\<exists>p. main_run [Server Head, Server (AcceptReturns 5), HandleShutdownSignal] (launched example_server) = Some p
      \<and> main_at p = Polling \<and> g_shutdown_requested p"
    by (simp add: proc_step_def launched_def example_server_def Start_def example_start_def new_process_def)
  then obtain p where p: "main_run [Server Head, Server (AcceptReturns 5), HandleShutdownSignal] (launched example_server) = Some p"
      "main_at p = Polling" "g_shutdown_requested p" by blast
  with signal_ends_program [OF example_started p(1,3)] show ?thesis by blast
qed

text \<open>
  A handler can outlive the program that gave it its server and its store: when a client is
  accepted just before \<^verbatim>\<open>Stop\<close> closes the listening socket, \<^verbatim>\<open>main\<close> returns, without any timeout, while the
  client is being served, and destroys both.
\<close>

theorem handler_outlives_main:
  "\<exists>as p. main_run as (launched example_server) = Some p \<and> main_at p = Returning
     \<and> handlers (server p) 0 = Some (Serving 5) \<and> Server TimedOut \<notin> set as"
  by (rule exI [of _ "[Server Head, Server (AcceptReturns 5), HandleShutdownSignal, Poll, Server SetFlag, Server CloseListen,
      Server CopyFds, Server ShutNext, Server Drained, StopReturns, Server Track, Server CountUp, Server (Spawn 0), Server Head,
      JoinAccept, Save]"])
    (simp add: proc_step_def launched_def example_server_def Start_def example_start_def new_process_def)

end
