(* ===== verification/CommandParser.thy ===== *)
theory CommandParser
  imports RespValue
begin

text \<open>
  The request parser: \<^verbatim>\<open>src/src/resp/command_parser.h\<close> and \<^verbatim>\<open>src/src/resp/command_parser.cpp\<close>.
  The state of a \<^verbatim>\<open>CommandParser\<close> is its buffer. A position in the buffer is represented by the
  rest of the buffer from there on, so \<^verbatim>\<open>find\<close> and \<^verbatim>\<open>substr\<close> become splits of that rest.

  \<open>drain\<close> is the loop every caller runs after a \<^verbatim>\<open>Feed\<close>, as the header asks it to.
\<close>

section \<open>The parser\<close>

datatype status = KIncomplete | KComplete "string list" | KProtocolError string

definition kMaxArgs :: int where
  "kMaxArgs = 1024"

definition kMaxBulkLen :: int where
  "kMaxBulkLen = 64 * 1024 * 1024"

definition Feed :: "string \<Rightarrow> string \<Rightarrow> string" where
  "Feed bytes buffer = buffer @ bytes"

datatype bulk_result = BIncomplete | BError string | BDone "string list" string

fun bulk_loop :: "nat \<Rightarrow> string \<Rightarrow> string list \<Rightarrow> bulk_result" where
  "bulk_loop 0 rest args = BDone args rest"
| "bulk_loop (Suc n) [] args = BIncomplete"
| "bulk_loop (Suc n) (c # rest) args =
     (if c \<noteq> CHR ''$'' then BError ''expected '$' to start a bulk string argument''
      else case split_crlf rest of
        None \<Rightarrow> BIncomplete
      | Some (len_str, body) \<Rightarrow>
          (case ParseInt64 len_str of
             None \<Rightarrow> BError ''invalid bulk length''
           | Some bulk_len \<Rightarrow>
               if bulk_len < 0 \<or> bulk_len > kMaxBulkLen then BError ''invalid bulk length''
               else if length body < nat bulk_len + 2 then BIncomplete
               else if take 2 (drop (nat bulk_len) body) \<noteq> CRLF then BError ''expected CRLF after bulk string data''
               else bulk_loop n (drop (nat bulk_len + 2) body) (args @ [take (nat bulk_len) body])))"

definition TryParseMultibulk :: "string \<Rightarrow> status \<times> string" where
  "TryParseMultibulk buffer =
     (case split_crlf (tl buffer) of
        None \<Rightarrow> (KIncomplete, buffer)
      | Some (count_str, rest) \<Rightarrow>
          (case ParseInt64 count_str of
             None \<Rightarrow> (KProtocolError ''invalid multibulk length'', buffer)
           | Some argc \<Rightarrow>
               if argc \<le> 0 \<or> argc > kMaxArgs then (KProtocolError ''invalid multibulk length'', buffer)
               else case bulk_loop (nat argc) rest [] of
                 BIncomplete \<Rightarrow> (KIncomplete, buffer)
               | BError message \<Rightarrow> (KProtocolError message, buffer)
               | BDone args rest' \<Rightarrow> (KComplete args, rest')))"

text \<open>\<^verbatim>\<open>std::isspace\<close> in the C locale.\<close>

definition isspace :: "char \<Rightarrow> bool" where
  "isspace c \<longleftrightarrow> c \<in> {CHR '' '', CHR 0x09, CHR 0x0A, CHR 0x0B, CHR 0x0C, CHR 0x0D}"

function tokens :: "string \<Rightarrow> string list" where
  "tokens line =
     (case dropWhile isspace line of
        [] \<Rightarrow> []
      | c # cs \<Rightarrow> (c # takeWhile (\<lambda>c. \<not> isspace c) cs) # tokens (dropWhile (\<lambda>c. \<not> isspace c) cs))"
  by pat_completeness auto
termination
proof (relation "measure length")
  fix line c cs
  assume "dropWhile isspace line = c # cs"
  then have "length (c # cs) \<le> length line" by (metis length_dropWhile_le)
  then show "(dropWhile (\<lambda>c. \<not> isspace c) cs, line) \<in> measure length"
    using length_dropWhile_le [of "\<lambda>c. \<not> isspace c" cs] by simp
qed simp

declare tokens.simps [simp del]

definition strip_cr :: "string \<Rightarrow> string" where
  "strip_cr line = (if line \<noteq> [] \<and> last line = CR then butlast line else line)"

definition split_newline :: "string \<Rightarrow> (string \<times> string) option" where
  "split_newline buffer =
     (case dropWhile (\<lambda>c. c \<noteq> LF) buffer of
        [] \<Rightarrow> None
      | c # rest \<Rightarrow> Some (takeWhile (\<lambda>c. c \<noteq> LF) buffer, rest))"

lemma split_newline_shape: "split_newline buffer = Some (line, rest) \<Longrightarrow> buffer = line @ LF # rest \<and> LF \<notin> set line"
proof -
  assume "split_newline buffer = Some (line, rest)"
  then obtain c where "dropWhile (\<lambda>c. c \<noteq> LF) buffer = c # rest" "line = takeWhile (\<lambda>c. c \<noteq> LF) buffer"
    by (auto simp: split_newline_def split: list.splits)
  then show ?thesis
    using takeWhile_dropWhile_id [of "\<lambda>c. c \<noteq> LF" buffer] hd_dropWhile [of "\<lambda>c. c \<noteq> LF" buffer]
    by (auto dest: set_takeWhileD)
qed

function TryParseInline :: "string \<Rightarrow> status \<times> string" where
  "TryParseInline buffer =
     (case split_newline buffer of
        None \<Rightarrow> if int (length buffer) > kMaxBulkLen then (KProtocolError ''inline command too long'', buffer)
                else (KIncomplete, buffer)
      | Some (line, rest) \<Rightarrow>
          (case tokens (strip_cr line) of
             [] \<Rightarrow> TryParseInline rest
           | args \<Rightarrow> (KComplete args, rest)))"
  by pat_completeness auto
termination
  by (relation "measure length") (auto dest!: split_newline_shape)

declare TryParseInline.simps [simp del]

definition TryParseCommand :: "string \<Rightarrow> status \<times> string" where
  "TryParseCommand buffer =
     (if buffer = [] then (KIncomplete, buffer)
      else if hd buffer = CHR ''*'' then TryParseMultibulk buffer
      else TryParseInline buffer)"

section \<open>Progress\<close>

lemma split_crlf_consumes: "split_crlf s = Some (line, rest) \<Longrightarrow> length rest < length s"
  by (auto dest!: split_crlf_shape)

lemma bulk_loop_consumes: "bulk_loop n rest args = BDone args' rest' \<Longrightarrow> length rest' \<le> length rest"
proof (induction n rest args rule: bulk_loop.induct)
  case (3 n c rest args)
  then show ?case
    by (fastforce dest: split_crlf_consumes split: if_splits option.splits)
qed simp_all

text \<open>A complete inline request is the first non-blank line: induction over the lines skipped.\<close>

lemma inline_complete_induct [consumes 1, case_names command blank]:
  assumes "TryParseInline buffer = (KComplete args, rest)"
    and "\<And>s line. split_newline s = Some (line, rest) \<Longrightarrow> tokens (strip_cr line) = args \<Longrightarrow> args \<noteq> [] \<Longrightarrow>
      TryParseInline s = (KComplete args, rest) \<Longrightarrow> P s"
    and "\<And>s line r. split_newline s = Some (line, r) \<Longrightarrow> tokens (strip_cr line) = [] \<Longrightarrow>
      TryParseInline s = TryParseInline r \<Longrightarrow> P r \<Longrightarrow> P s"
  shows "P buffer"
  using assms(1)
proof (induction buffer rule: TryParseInline.induct)
  case (1 s)
  note unfold = TryParseInline.simps [of s]
  show ?case
  proof (cases "split_newline s")
    case None
    then show ?thesis using "1.prems" unfold by (simp split: if_splits)
  next
    case (Some lr)
    obtain line r where lr: "split_newline s = Some (line, r)" using Some by (cases lr) auto
    show ?thesis
    proof (cases "tokens (strip_cr line)")
      case Nil
      then have "TryParseInline s = TryParseInline r" using unfold lr by simp
      then show ?thesis using assms(3) [OF lr Nil] "1.IH" [OF lr refl Nil] "1.prems" by simp
    next
      case (Cons t ts)
      then have "args = t # ts" "rest = r" using "1.prems" unfold lr by simp_all
      then show ?thesis using assms(2) [of s line] lr Cons "1.prems" by simp
    qed
  qed
qed

lemma TryParseInline_consumes: "TryParseInline buffer = (KComplete args, rest) \<Longrightarrow> length rest < length buffer"
  by (induction rule: inline_complete_induct) (auto dest!: split_newline_shape)

lemma TryParseCommand_consumes:
  assumes "TryParseCommand buffer = (KComplete args, rest)"
  shows "length rest < length buffer"
proof (cases "buffer \<noteq> [] \<and> hd buffer = CHR ''*''")
  case True
  then have "TryParseMultibulk buffer = (KComplete args, rest)"
    using assms by (simp add: TryParseCommand_def)
  then obtain line r n where "split_crlf (tl buffer) = Some (line, r)" "bulk_loop n r [] = BDone args rest"
    by (auto simp: TryParseMultibulk_def split: option.splits if_splits bulk_result.splits)
  then show ?thesis
    using split_crlf_consumes bulk_loop_consumes by fastforce
next
  case False
  then show ?thesis
    using assms TryParseInline_consumes by (auto simp: TryParseCommand_def split: if_splits)
qed

text \<open>Parsing until the buffer holds no further command: the commands, the last status, the rest.\<close>

function drain :: "string \<Rightarrow> string list list \<times> status \<times> string" where
  "drain buffer =
     (case TryParseCommand buffer of
        (KComplete args, rest) \<Rightarrow> (case drain rest of (cmds, st, rest') \<Rightarrow> (args # cmds, st, rest'))
      | (st, rest) \<Rightarrow> ([], st, rest))"
  by pat_completeness auto
termination
  by (relation "measure length") (auto dest: TryParseCommand_consumes [OF sym])

declare drain.simps [simp del]

text \<open>A connection that receives the chunks one after the other, until a protocol error ends it.\<close>

fun receive :: "string list \<Rightarrow> string \<Rightarrow> string list list \<times> status \<times> string" where
  "receive [] buffer = ([], KIncomplete, buffer)"
| "receive (chunk # chunks) buffer =
     (case drain (Feed chunk buffer) of
        (cmds, KIncomplete, rest) \<Rightarrow> (case receive chunks rest of (cmds', r) \<Rightarrow> (cmds @ cmds', r))
      | (cmds, st, rest) \<Rightarrow> (cmds, st, rest))"

section \<open>The form clients send\<close>

definition encode_bulk :: "string \<Rightarrow> string" where
  "encode_bulk arg = ''$'' @ to_string (int (length arg)) @ CRLF @ arg @ CRLF"

definition encode_command :: "string list \<Rightarrow> string" where
  "encode_command args = ''*'' @ to_string (int (length args)) @ CRLF @ concat (map encode_bulk args)"

lemma encode_command_Encode: "encode_command args = Encode (Array (map BulkString args))"
  by (simp add: encode_command_def encode_bulk_def [abs_def] Array_def BulkString_def o_def)

definition sendable :: "string list \<Rightarrow> bool" where
  "sendable args \<longleftrightarrow> args \<noteq> [] \<and> int (length args) \<le> kMaxArgs
     \<and> list_all (\<lambda>arg. int (length arg) \<le> kMaxBulkLen) args"

lemma parse_size [wire_simps]: "n < 2 ^ 63 \<Longrightarrow> ParseInt64 (to_string (int n)) = Some (int n)"
  by (rule ParseInt64_to_string) auto

lemma bulk_loop_encoded:
  assumes "list_all (\<lambda>arg. int (length arg) \<le> kMaxBulkLen) args"
  shows "bulk_loop (length args) (concat (map encode_bulk args) @ rest) acc = BDone (acc @ args) rest"
  using assms
proof (induction args arbitrary: acc)
  case (Cons arg args)
  then have len: "int (length arg) \<le> kMaxBulkLen" "length arg < 2 ^ 63"
    by (auto simp: kMaxBulkLen_def)
  show ?case
    using Cons len split_crlf_line [of "to_string (int (length arg))" "arg @ CRLF @ concat (map encode_bulk args) @ rest"]
    by (simp add: encode_bulk_def [of arg] wire_simps)
qed simp

lemma TryParse_encoded:
  assumes "sendable args"
  shows "TryParseCommand (encode_command args @ rest) = (KComplete args, rest)"
proof -
  have n: "0 < length args" "int (length args) \<le> kMaxArgs" "length args < 2 ^ 63"
    using assms by (auto simp: sendable_def kMaxArgs_def)
  have "split_crlf (to_string (int (length args)) @ CRLF @ concat (map encode_bulk args) @ rest)
      = Some (to_string (int (length args)), concat (map encode_bulk args) @ rest)"
    by (rule split_crlf_line) simp
  then show ?thesis
    using n assms bulk_loop_encoded [of args rest "[]"]
    by (simp add: TryParseCommand_def TryParseMultibulk_def encode_command_def wire_simps sendable_def)
qed

section \<open>Incomplete requests\<close>

lemma split_crlf_prefix:
  assumes "p @ q = line @ CRLF" and "q \<noteq> []" and "one_line line"
  shows "split_crlf p = None"
proof (cases "split_crlf p")
  case (Some lr)
  then obtain l r where "split_crlf p = Some (l, r)" by (cases lr) auto
  then have "split_crlf (p @ q) = Some (l, r @ q)" by (rule split_crlf_append)
  moreover have "split_crlf (line @ CRLF) = Some (line, [])"
    using split_crlf_line [OF assms(3), of "[]"] by simp
  ultimately show ?thesis using assms(1,2) by simp
qed

lemma bulk_loop_prefix:
  assumes "p @ q = concat (map encode_bulk args)" and "q \<noteq> []"
    and "list_all (\<lambda>arg. int (length arg) \<le> kMaxBulkLen) args"
  shows "bulk_loop (length args) p acc = BIncomplete"
  using assms
proof (induction args arbitrary: p acc)
  case (Cons arg args)
  let ?n = "to_string (int (length arg))"
  let ?rest = "concat (map encode_bulk args)"
  have len: "int (length arg) \<le> kMaxBulkLen" "length arg < 2 ^ 63"
    using Cons.prems(3) by (auto simp: kMaxBulkLen_def)
  show ?case
  proof (cases p)
    case (Cons c p')
    then have c: "c = CHR ''$''" and p': "p' @ q = (?n @ CRLF) @ ((arg @ CRLF) @ ?rest)"
      using Cons.prems(1) by (simp_all add: encode_bulk_def [of arg])
    from p' show ?thesis
    proof (cases rule: append_split)
      case (inside q')
      then show ?thesis using split_crlf_prefix [OF inside] by (simp add: \<open>p = c # p'\<close> c)
    next
      case (beyond b)
      have split: "split_crlf p' = Some (?n, b)"
        unfolding beyond(1) append.assoc by (rule split_crlf_line) simp
      show ?thesis
      proof (cases "length b < length arg + 2")
        case True
        then show ?thesis using len by (simp add: \<open>p = c # p'\<close> c split wire_simps)
      next
        case False
        from beyond(2) obtain b' where b': "b = (arg @ CRLF) @ b'" "b' @ q = ?rest"
        proof (cases rule: append_split)
          case (inside q')
          then have "length b < length (arg @ CRLF)" by (metis length_append length_greater_0_conv less_add_same_cancel1)
          then show thesis using False by simp
        qed (use that in blast)
        have "bulk_loop (length args) b' (acc @ [arg]) = BIncomplete"
          using Cons.IH [OF b'(2)] Cons.prems(2,3) by simp
        then show ?thesis using len by (simp add: \<open>p = c # p'\<close> c split wire_simps b'(1))
      qed
    qed
  qed simp
qed simp

lemma TryParse_prefix:
  assumes "p @ q = encode_command args" and "q \<noteq> []" and "sendable args"
  shows "TryParseCommand p = (KIncomplete, p)"
proof (cases p)
  case (Cons c p')
  let ?n = "to_string (int (length args))"
  have n: "0 < length args" "int (length args) \<le> kMaxArgs" "length args < 2 ^ 63"
    using assms by (auto simp: sendable_def kMaxArgs_def)
  have c: "c = CHR ''*''" and p': "p' @ q = (?n @ CRLF) @ concat (map encode_bulk args)"
    using assms(1) by (simp_all add: Cons encode_command_def)
  from p' show ?thesis
  proof (cases rule: append_split)
    case (inside q')
    then show ?thesis
      using split_crlf_prefix [OF inside] by (simp add: TryParseCommand_def TryParseMultibulk_def Cons c)
  next
    case (beyond b)
    have "split_crlf p' = Some (?n, b)"
      unfolding beyond(1) append.assoc by (rule split_crlf_line) simp
    moreover have "bulk_loop (length args) b [] = BIncomplete"
      using beyond(2) assms(2,3) by (intro bulk_loop_prefix) (simp_all add: sendable_def)
    ultimately show ?thesis
      using n by (simp add: TryParseCommand_def TryParseMultibulk_def Cons c wire_simps)
  qed
qed (simp add: TryParseCommand_def)

lemma drain_encoded:
  assumes "p @ q = concat (map encode_command cmds)" and "list_all sendable cmds"
  shows "\<exists>done todo rest. cmds = done @ todo \<and> drain p = (done, KIncomplete, rest)
    \<and> rest @ q = concat (map encode_command todo) \<and> (q = [] \<longrightarrow> todo = [])"
  using assms
proof (induction cmds arbitrary: p)
  case Nil
  then show ?case by (simp add: drain.simps TryParseCommand_def)
next
  case (Cons cmd cmds)
  have "p @ q = encode_command cmd @ concat (map encode_command cmds)" using Cons.prems(1) by simp
  then show ?case
  proof (cases rule: append_split)
    case (inside q')
    then have "drain p = ([], KIncomplete, p)"
      using TryParse_prefix [OF inside] Cons.prems(2) by (subst drain.simps) simp
    moreover have "q \<noteq> []"
      using arg_cong [OF Cons.prems(1), of length] arg_cong [OF inside(1), of length] inside(2) by auto
    ultimately show ?thesis
      using Cons.prems(1) by (intro exI [of _ "[]"] exI [of _ "cmd # cmds"] exI [of _ p]) simp
  next
    case (beyond b)
    obtain "done" todo rest where IH: "cmds = done @ todo" "drain b = (done, KIncomplete, rest)"
        "rest @ q = concat (map encode_command todo)" "q = [] \<longrightarrow> todo = []"
      using Cons.IH [OF beyond(2)] Cons.prems(2) by auto
    have "drain p = (cmd # done, KIncomplete, rest)"
      using TryParse_encoded [of cmd b] Cons.prems(2) IH(2) by (subst drain.simps) (simp add: beyond(1))
    then show ?thesis
      using IH by (intro exI [of _ "cmd # done"] exI [of _ todo] exI [of _ rest]) simp
  qed
qed

lemma receive_encoded:
  assumes "buffer @ concat chunks = concat (map encode_command cmds)" and "list_all sendable cmds"
    and "chunks \<noteq> []"
  shows "receive chunks buffer = (cmds, KIncomplete, [])"
  using assms
proof (induction chunks arbitrary: buffer cmds)
  case (Cons chunk chunks)
  have "(buffer @ chunk) @ concat chunks = concat (map encode_command cmds)"
    using Cons.prems(1) by simp
  then obtain "done" todo rest where d: "cmds = done @ todo" "drain (buffer @ chunk) = (done, KIncomplete, rest)"
      "rest @ concat chunks = concat (map encode_command todo)" "concat chunks = [] \<longrightarrow> todo = []"
    using drain_encoded Cons.prems(2) by blast
  show ?case
  proof (cases "chunks = []")
    case True
    then show ?thesis using d by (simp add: Feed_def)
  next
    case False
    then have "receive chunks rest = (todo, KIncomplete, [])"
      using Cons.IH [OF d(3)] Cons.prems(2) d(1) by simp
    then show ?thesis using d by (simp add: Feed_def)
  qed
qed simp

section \<open>More input\<close>

lemma bulk_loop_more:
  "bulk_loop n s args = BDone args' rest \<Longrightarrow> bulk_loop n (s @ more) args = BDone args' (rest @ more)"
proof (induction n s args rule: bulk_loop.induct)
  case (3 n c rest args)
  then show ?case
    using split_crlf_append [of rest _ _ more]
    by (auto split: if_splits option.splits)
qed simp_all

lemma split_newline_more:
  "split_newline s = Some (line, rest) \<Longrightarrow> split_newline (s @ more) = Some (line, rest @ more)"
proof -
  assume "split_newline s = Some (line, rest)"
  then have "s = line @ LF # rest" "LF \<notin> set line" by (auto dest: split_newline_shape)
  then show ?thesis
    by (auto simp: split_newline_def takeWhile_append dropWhile_append intro: takeWhile_eq_all_conv [THEN iffD2])
qed

lemma TryParseInline_more:
  "TryParseInline s = (KComplete args, rest) \<Longrightarrow> TryParseInline (s @ more) = (KComplete args, rest @ more)"
proof (induction rule: inline_complete_induct)
  case (command s line)
  then show ?case
    using split_newline_more [OF command(1), of more] TryParseInline.simps [of "s @ more"]
    by (simp split: list.split)
next
  case (blank s line r)
  then show ?case
    using split_newline_more [OF blank(1), of more] TryParseInline.simps [of "s @ more"] by simp
qed

section \<open>Limits\<close>

lemma bulk_loop_limits:
  assumes "bulk_loop n s args = BDone args' rest"
  shows "\<exists>new. args' = args @ new \<and> length new = n \<and> list_all (\<lambda>arg. int (length arg) \<le> kMaxBulkLen) new"
  using assms
proof (induction n s args rule: bulk_loop.induct)
  case (3 n c rest args)
  then show ?case
    by (fastforce split: if_splits option.splits)
qed simp_all

lemma tokens_nonblank: "t \<in> set (tokens line) \<Longrightarrow> t \<noteq> [] \<and> list_all (\<lambda>c. \<not> isspace c) t"
proof (induction line rule: tokens.induct)
  case (1 line)
  show ?case
  proof (cases "dropWhile isspace line")
    case Nil
    then have "tokens line = []" by (subst tokens.simps) (simp del: dropWhile_eq_Nil_conv)
    then show ?thesis using "1.prems" by simp
  next
    case (Cons c cs)
    let ?word = "c # takeWhile (\<lambda>c. \<not> isspace c) cs"
    have "tokens line = ?word # tokens (dropWhile (\<lambda>c. \<not> isspace c) cs)"
      using Cons by (subst tokens.simps) simp
    then consider "t = ?word" | "t \<in> set (tokens (dropWhile (\<lambda>c. \<not> isspace c) cs))"
      using "1.prems" by auto
    then show ?thesis
    proof cases
      case 1
      have "\<not> isspace c" using Cons hd_dropWhile [of isspace line] by simp
      then show ?thesis using 1 by (auto simp: list_all_iff dest: set_takeWhileD)
    next
      case 2
      then show ?thesis using "1.IH" [OF Cons] by simp
    qed
  qed
qed

lemma TryParseInline_tokens:
  "TryParseInline s = (KComplete args, rest) \<Longrightarrow> args \<noteq> [] \<and> (\<exists>line. args = tokens line)"
  by (induction rule: inline_complete_induct) auto

section \<open>Properties\<close>

text \<open>
  C33: The parser recovers every command a client sends in RESP form, with any bytes in its
  arguments, and leaves exactly the bytes after it in the buffer; given less than the whole
  command it reports an incomplete request and keeps the buffer as it is.
\<close>

theorem parser_roundtrip:
  assumes "sendable args"
  shows "TryParseCommand (encode_command args @ rest) = (KComplete args, rest)
    \<and> (\<forall>p q. p @ q = encode_command args \<longrightarrow> q \<noteq> [] \<longrightarrow> TryParseCommand p = (KIncomplete, p))"
  using TryParse_encoded [OF assms] TryParse_prefix [OF _ _ assms] by blast

theorem parser_roundtrip_witness:
  "TryParseCommand (encode_command [''SET'', ''k'', [CR, LF]] @ ''*1'') = (KComplete [''SET'', ''k'', [CR, LF]], ''*1'')"
  using parser_roundtrip [of "[''SET'', ''k'', [CR, LF]]" "''*1''"]
  by (simp add: sendable_def kMaxArgs_def kMaxBulkLen_def)

text \<open>
  C17: A stream of RESP commands is parsed to the same commands however the network cuts it into
  chunks: each command is delivered once, in order, and nothing is left over.
\<close>

theorem parser_chunking:
  assumes "concat chunks = concat (map encode_command cmds)" and "list_all sendable cmds" and "chunks \<noteq> []"
  shows "receive chunks [] = (cmds, KIncomplete, [])"
  using assms receive_encoded [of "[]"] by simp

theorem parser_chunking_witness:
  "receive [''*1'' @ CRLF @ ''$4'', CRLF @ ''PI'', ''NG'' @ CRLF @ encode_command [''GET'', ''k'']] []
     = ([[''PING''], [''GET'', ''k'']], KIncomplete, [])"
proof (rule parser_chunking)
  show "concat [''*1'' @ CRLF @ ''$4'', CRLF @ ''PI'', ''NG'' @ CRLF @ encode_command [''GET'', ''k'']]
      = concat (map encode_command [[''PING''], [''GET'', ''k'']])"
    by code_simp
qed (simp_all add: sendable_def kMaxArgs_def kMaxBulkLen_def)

text \<open>
  Bytes that arrive later never change a command that is already complete, for RESP and for
  inline requests; they only extend what is left in the buffer.
\<close>

theorem parser_stable:
  assumes "TryParseCommand s = (KComplete args, rest)"
  shows "TryParseCommand (s @ more) = (KComplete args, rest @ more)"
proof (cases "s \<noteq> [] \<and> hd s = CHR ''*''")
  case True
  then have "TryParseMultibulk s = (KComplete args, rest)"
    using assms by (simp add: TryParseCommand_def)
  then obtain line r n where "split_crlf (tl s) = Some (line, r)" "ParseInt64 line = Some n" "\<not> (n \<le> 0 \<or> n > kMaxArgs)"
      "bulk_loop (nat n) r [] = BDone args rest"
    by (auto simp: TryParseMultibulk_def split: option.splits if_splits bulk_result.splits)
  then show ?thesis
    using True split_crlf_append [of "tl s" line r more] bulk_loop_more [of "nat n" r "[]" args rest more]
    by (simp add: TryParseCommand_def TryParseMultibulk_def)
next
  case False
  then have "s \<noteq> []" "hd s \<noteq> CHR ''*''" using assms by (auto simp: TryParseCommand_def)
  then show ?thesis
    using assms TryParseInline_more [of s args rest more] by (simp add: TryParseCommand_def)
qed

theorem parser_stable_witness:
  "TryParseCommand (''PING'' @ [LF] @ ''GET'') = (KComplete [''PING''], ''GET'')"
proof -
  have "TryParseCommand (''PING'' @ [LF]) = (KComplete [''PING''], [])" by code_simp
  then show ?thesis using parser_stable [of "''PING'' @ [LF]" "[''PING'']" "[]" "''GET''"] by simp
qed



text \<open>
  The chunking does show after a blank line: the loop that skips it goes on reading inline
  requests, so a RESP command that arrives in the same read is torn into lines, while in a read
  of its own it is one command.
\<close>

theorem blank_line_tears_command:
  "receive [CRLF, encode_command [''PING'']] [] = ([[''PING'']], KIncomplete, [])
   \<and> receive [CRLF @ encode_command [''PING'']] [] = ([[''*1''], [''$4''], [''PING'']], KIncomplete, [])"
  by code_simp

text \<open>
  The header of a RESP request has no length limit: a client that sends an asterisk and
  then never ends the line is told to go on, whatever the size of the buffer.
\<close>

theorem multibulk_header_unbounded:
  "TryParseCommand (CHR ''*'' # replicate n (CHR ''1'')) = (KIncomplete, CHR ''*'' # replicate n (CHR ''1''))"
proof -
  have "split_crlf s = None" if "CR \<notin> set s" for s
  proof (rule ccontr)
    assume "split_crlf s \<noteq> None"
    then obtain line rest where "s = line @ CRLF @ rest" by (auto dest: split_crlf_shape)
    then show False using that by (simp add: CRLF_def)
  qed
  moreover have "CR \<notin> set (replicate n (CHR ''1''))" by (simp add: CR_def)
  ultimately show ?thesis by (simp add: TryParseCommand_def TryParseMultibulk_def)
qed

end
