(* ===== verification/Rdb.thy ===== *)
theory Rdb
  imports Store_Lifecycle
begin

text \<open>
  Snapshot files: \<^verbatim>\<open>src/src/persistence/rdb.cpp\<close>. The byte writer, the byte reader, the checksum,
  \<^verbatim>\<open>SaveRdb\<close> and \<^verbatim>\<open>LoadRdb\<close>.

  A writer is the string it has built. A reader is the part of its buffer not yet read
  (\<^verbatim>\<open>buf_\<close> from \<^verbatim>\<open>pos_\<close> on), so \<^verbatim>\<open>pos_ + n > buf_.size()\<close> is \<open>length r < n\<close>; a read that
  returns false is \<open>None\<close>.

  The file system is a map from paths to contents. What the operating system decides is a
  parameter: for \<^verbatim>\<open>SaveRdb\<close> the record \<open>save_env\<close>, for \<^verbatim>\<open>LoadRdb\<close> the sizes for which
  \<^verbatim>\<open>std::vector::reserve\<close> succeeds; a size it refuses makes \<^verbatim>\<open>LoadRdb\<close> leave by an exception,
  which nothing in the program catches.
\<close>

section \<open>Writing\<close>

definition kMagic :: string where
  "kMagic = ''GRDB''"

definition kFormatVersion :: u32 where
  "kFormatVersion = 2"

definition kTypeString :: u8 where
  "kTypeString = 0"

definition kTypeList :: u8 where
  "kTypeList = 1"

definition kTypeHash :: u8 where
  "kTypeHash = 2"

text \<open>Byte \<open>i\<close> of a number: \<^verbatim>\<open>static_cast<char>((v >> (8 * i)) & 0xFF)\<close>.\<close>

definition byte_at :: "'a::len word \<Rightarrow> nat \<Rightarrow> char" where
  "byte_at v i = char_of (unat (drop_bit (8 * i) v AND 0xFF))"

definition WriteBytes :: "bytes \<Rightarrow> bytes \<Rightarrow> bytes" where
  "WriteBytes dat buf = buf @ dat"

definition WriteU8 :: "u8 \<Rightarrow> bytes \<Rightarrow> bytes" where
  "WriteU8 v buf = buf @ [byte_at v 0]"

definition WriteU32 :: "u32 \<Rightarrow> bytes \<Rightarrow> bytes" where
  "WriteU32 v buf = buf @ map (byte_at v) [0..<4]"

definition WriteU64 :: "u64 \<Rightarrow> bytes \<Rightarrow> bytes" where
  "WriteU64 v buf = buf @ map (byte_at v) [0..<8]"

definition WriteI64 :: "int \<Rightarrow> bytes \<Rightarrow> bytes" where
  "WriteI64 v buf = WriteU64 (word_of_int v) buf"

definition WriteString :: "string \<Rightarrow> bytes \<Rightarrow> bytes" where
  "WriteString s buf = WriteU32 (of_nat (length s)) buf @ s"

section \<open>Reading\<close>

fun join_loop :: "nat \<Rightarrow> bytes \<Rightarrow> 'a::len word \<Rightarrow> 'a word" where
  "join_loop i [] v = v"
| "join_loop i (c # cs) v = join_loop (Suc i) cs (v OR push_bit (8 * i) (of_char c))"

definition ReadBytes :: "nat \<Rightarrow> bytes \<Rightarrow> (bytes \<times> bytes) option" where
  "ReadBytes n r = (if length r < n then None else Some (take n r, drop n r))"

definition ReadU8 :: "bytes \<Rightarrow> (u8 \<times> bytes) option" where
  "ReadU8 r = (case r of [] \<Rightarrow> None | c # r1 \<Rightarrow> Some (of_char c, r1))"

definition ReadU32 :: "bytes \<Rightarrow> (u32 \<times> bytes) option" where
  "ReadU32 r = (if length r < 4 then None else Some (join_loop 0 (take 4 r) 0, drop 4 r))"

definition ReadU64 :: "bytes \<Rightarrow> (u64 \<times> bytes) option" where
  "ReadU64 r = (if length r < 8 then None else Some (join_loop 0 (take 8 r) 0, drop 8 r))"

definition ReadI64 :: "bytes \<Rightarrow> (int \<times> bytes) option" where
  "ReadI64 r = map_option (\<lambda>(v, r1). (sint v, r1)) (ReadU64 r)"

definition ReadString :: "bytes \<Rightarrow> (string \<times> bytes) option" where
  "ReadString r =
     (case ReadU32 r of
        None \<Rightarrow> None
      | Some (len, r1) \<Rightarrow> if length r1 < unat len then None else Some (take (unat len) r1, drop (unat len) r1))"

definition Fnv1a64 :: "bytes \<Rightarrow> u64" where
  "Fnv1a64 dat = foldl (\<lambda>hash c. (hash XOR of_char c) * 1099511628211) 14695981039346656037 dat"

section \<open>Saving\<close>

definition type_byte :: "value_type \<Rightarrow> u8" where
  "type_byte ty = (case ty of KString \<Rightarrow> kTypeString | KList \<Rightarrow> kTypeList | KHash \<Rightarrow> kTypeHash)"

definition write_contents :: "snapshot_entry \<Rightarrow> bytes \<Rightarrow> bytes" where
  "write_contents entry buf =
     (case se_type entry of
        KList \<Rightarrow> fold WriteString (se_list entry) (WriteU32 (of_nat (length (se_list entry))) buf)
      | KHash \<Rightarrow> fold (\<lambda>(field, val) b. WriteString val (WriteString field b)) (se_hash entry)
                   (WriteU32 (of_nat (length (se_hash entry))) buf)
      | KString \<Rightarrow> WriteString (se_str entry) buf)"

definition write_entry :: "snapshot_entry \<Rightarrow> bytes \<Rightarrow> bytes" where
  "write_entry entry buf =
     (let b1 = WriteU8 (type_byte (se_type entry)) (WriteString (se_key entry) buf);
          b2 = (case se_expires_at_wall entry of
                  None \<Rightarrow> WriteU8 0 b1
                | Some t \<Rightarrow> WriteI64 (t sdiv ns_per_ms) (WriteU8 1 b1))
      in write_contents entry b2)"

definition rdb_payload :: "snapshot_entry list \<Rightarrow> bytes" where
  "rdb_payload entries =
     fold write_entry entries (WriteU64 (of_nat (length entries)) (WriteU32 kFormatVersion (WriteBytes kMagic [])))"

definition rdb_image :: "snapshot_entry list \<Rightarrow> bytes" where
  "rdb_image entries = WriteU64 (Fnv1a64 (rdb_payload entries)) (rdb_payload entries)"

text \<open>
  What happens to the temporary file: whether it opens, whether \<^verbatim>\<open>write\<close> reports a failure, how
  many bytes have reached it once the stream is closed, and whether the rename succeeds. The
  stream buffers, so bytes \<^verbatim>\<open>write\<close> has accepted can still be lost when the destructor flushes
  them, and nobody asks.
\<close>

record save_env =
  opens :: bool
  write_ok :: bool
  reached :: nat
  renames :: bool

type_synonym files = "string \<rightharpoonup> bytes"

definition SaveRdb :: "env \<Rightarrow> save_env \<Rightarrow> store \<Rightarrow> string \<Rightarrow> files \<Rightarrow> bool \<times> files" where
  "SaveRdb e io s path fs =
     (let image = rdb_image (Snapshot e s); tmp_path = path @ ''.tmp'' in
      if \<not> opens io then (False, fs)
      else
        (let fs1 = fs(tmp_path \<mapsto> take (reached io) image) in
         if \<not> write_ok io then (False, fs1(tmp_path := None))
         else if \<not> renames io then (False, fs1(tmp_path := None))
         else (True, fs1(path := fs1 tmp_path, tmp_path := None))))"

section \<open>Loading\<close>

datatype vec = VEntries | VElems | VFields

datatype 'a parsed = Got 'a bytes | Malformed | Throws

fun read_strings :: "nat \<Rightarrow> bytes \<Rightarrow> (string list \<times> bytes) option" where
  "read_strings 0 r = Some ([], r)"
| "read_strings (Suc n) r =
     (case ReadString r of
        None \<Rightarrow> None
      | Some (elem, r1) \<Rightarrow> map_option (\<lambda>(elems, r2). (elem # elems, r2)) (read_strings n r1))"

fun read_fields :: "nat \<Rightarrow> bytes \<Rightarrow> ((string \<times> string) list \<times> bytes) option" where
  "read_fields 0 r = Some ([], r)"
| "read_fields (Suc n) r =
     (case ReadString r of
        None \<Rightarrow> None
      | Some (field, r1) \<Rightarrow>
          (case ReadString r1 of
             None \<Rightarrow> None
           | Some (val, r2) \<Rightarrow> map_option (\<lambda>(fvs, r3). ((field, val) # fvs, r3)) (read_fields n r2)))"

definition parsed_of :: "('a \<times> bytes) option \<Rightarrow> 'a parsed" where
  "parsed_of x = (case x of None \<Rightarrow> Malformed | Some (a, r) \<Rightarrow> Got a r)"

text \<open>The value part of an entry whose other fields are already set.\<close>

definition read_contents :: "(vec \<Rightarrow> nat \<Rightarrow> bool) \<Rightarrow> snapshot_entry \<Rightarrow> bytes \<Rightarrow> snapshot_entry parsed" where
  "read_contents reserves entry r =
     (case se_type entry of
        KList \<Rightarrow>
          (case ReadU32 r of
             None \<Rightarrow> Malformed
           | Some (n, r1) \<Rightarrow>
               if \<not> reserves VElems (unat n) then Throws
               else parsed_of (map_option (\<lambda>(xs, r2). (entry\<lparr>se_list := xs\<rparr>, r2)) (read_strings (unat n) r1)))
      | KHash \<Rightarrow>
          (case ReadU32 r of
             None \<Rightarrow> Malformed
           | Some (n, r1) \<Rightarrow>
               if \<not> reserves VFields (unat n) then Throws
               else parsed_of (map_option (\<lambda>(xs, r2). (entry\<lparr>se_hash := xs\<rparr>, r2)) (read_fields (unat n) r1)))
      | KString \<Rightarrow> parsed_of (map_option (\<lambda>(x, r1). (entry\<lparr>se_str := x\<rparr>, r1)) (ReadString r)))"

definition value_type_of :: "u8 \<Rightarrow> value_type" where
  "value_type_of b = (if b = kTypeList then KList else if b = kTypeHash then KHash else KString)"

definition blank_entry :: "string \<Rightarrow> value_type \<Rightarrow> int option \<Rightarrow> snapshot_entry" where
  "blank_entry key ty t =
     \<lparr>se_key = key, se_type = ty, se_str = [], se_list = [], se_hash = [], se_expires_at_wall = t\<rparr>"

text \<open>The deadline of an entry: absent, or an instant in nanoseconds.\<close>

definition read_ttl :: "bytes \<Rightarrow> (int option \<times> bytes) option" where
  "read_ttl r =
     (case ReadU8 r of
        None \<Rightarrow> None
      | Some (has_ttl, r1) \<Rightarrow>
          if has_ttl = 0 then Some (None, r1)
          else (case ReadI64 r1 of
                  None \<Rightarrow> None
                | Some (ms, r2) \<Rightarrow> Some (Some (wrap64 (ms * ns_per_ms)), r2)))"

text \<open>
  One round of the loop. An entry already expired at \<open>wall_now\<close> is read to its end, its
  \<^verbatim>\<open>expires_at_wall\<close> stays unset, and it is not kept.
\<close>

definition read_entry :: "(vec \<Rightarrow> nat \<Rightarrow> bool) \<Rightarrow> int \<Rightarrow> bytes \<Rightarrow> snapshot_entry option parsed" where
  "read_entry reserves wall_now r =
     (case ReadString r of
        None \<Rightarrow> Malformed
      | Some (key, r1) \<Rightarrow>
      (case ReadU8 r1 of
        None \<Rightarrow> Malformed
      | Some (ty, r2) \<Rightarrow>
      (case read_ttl r2 of
        None \<Rightarrow> Malformed
      | Some (t, r3) \<Rightarrow>
          (let already_expired = (case t of None \<Rightarrow> False | Some w \<Rightarrow> w \<le> wall_now);
               entry = blank_entry key (value_type_of ty) (if already_expired then None else t)
           in case read_contents reserves entry r3 of
                Got entry' r4 \<Rightarrow> Got (if already_expired then None else Some entry') r4
              | Malformed \<Rightarrow> Malformed
              | Throws \<Rightarrow> Throws))))"

fun read_entries :: "(vec \<Rightarrow> nat \<Rightarrow> bool) \<Rightarrow> int \<Rightarrow> nat \<Rightarrow> bytes \<Rightarrow> snapshot_entry list parsed" where
  "read_entries reserves wall_now 0 r = Got [] r"
| "read_entries reserves wall_now (Suc n) r =
     (case read_entry reserves wall_now r of
        Got kept r1 \<Rightarrow>
          (case read_entries reserves wall_now n r1 of
             Got ens r2 \<Rightarrow> Got (case kept of None \<Rightarrow> ens | Some en \<Rightarrow> en # ens) r2
           | Malformed \<Rightarrow> Malformed
           | Throws \<Rightarrow> Throws)
      | Malformed \<Rightarrow> Malformed
      | Throws \<Rightarrow> Throws)"

definition read_payload :: "(vec \<Rightarrow> nat \<Rightarrow> bool) \<Rightarrow> int \<Rightarrow> bytes \<Rightarrow> snapshot_entry list parsed" where
  "read_payload reserves wall_now payload =
     (case ReadBytes (length kMagic) payload of
        None \<Rightarrow> Malformed
      | Some (magic, r1) \<Rightarrow> if magic \<noteq> kMagic then Malformed else
      (case ReadU32 r1 of
        None \<Rightarrow> Malformed
      | Some (version, r2) \<Rightarrow> if version \<noteq> kFormatVersion then Malformed else
      (case ReadU64 r2 of
        None \<Rightarrow> Malformed
      | Some (n, r3) \<Rightarrow>
          if \<not> reserves VEntries (unat n) then Throws else read_entries reserves wall_now (unat n) r3)))"

definition checked_payload :: "bytes \<Rightarrow> bytes option" where
  "checked_payload buf =
     (if length buf < 24 then None
      else
        (let payload = take (length buf - 8) buf in
         case ReadU64 (drop (length buf - 8) buf) of
           None \<Rightarrow> None
         | Some (stored_checksum, _) \<Rightarrow> if stored_checksum \<noteq> Fnv1a64 payload then None else Some payload))"

text \<open>The result \<open>None\<close> is an exception.\<close>

definition LoadRdb ::
    "(vec \<Rightarrow> nat \<Rightarrow> bool) \<Rightarrow> int \<Rightarrow> env \<Rightarrow> store \<Rightarrow> string \<Rightarrow> files \<Rightarrow> (bool \<times> store) option" where
  "LoadRdb reserves wall_now e s path fs =
     (case fs path of
        None \<Rightarrow> Some (False, s)
      | Some buf \<Rightarrow>
          (case checked_payload buf of
             None \<Rightarrow> Some (False, s)
           | Some payload \<Rightarrow>
               (case read_payload reserves wall_now payload of
                  Got entries _ \<Rightarrow> Some (True, LoadSnapshot e entries s)
                | Malformed \<Rightarrow> Some (False, s)
                | Throws \<Rightarrow> None)))"

section \<open>Bytes\<close>

lemma join_loop_snoc: "join_loop i (cs @ [c]) v = join_loop i cs v OR push_bit (8 * (i + length cs)) (of_char c)"
  by (induction cs arbitrary: i v) (simp_all add: algebra_simps)

lemma of_char_byte_at: "of_char (byte_at v i) = (take_bit 8 (drop_bit (8 * i) v) :: 'a::len word)"
proof -
  have "of_char (byte_at v i) = (of_nat (of_char (byte_at v i)) :: 'a word)"
    by (simp add: of_nat_of_char)
  also have "(of_char (byte_at v i) :: nat) = unat (drop_bit (8 * i) v AND 0xFF) mod 256"
    by (simp add: byte_at_def)
  also have "\<dots> = take_bit 8 (unat (drop_bit (8 * i) v AND 0xFF))"
    by (simp add: take_bit_eq_mod)
  also have "(of_nat (take_bit 8 (unat (drop_bit (8 * i) v AND 0xFF))) :: 'a word) = take_bit 8 (drop_bit (8 * i) v AND 0xFF)"
    by (simp add: of_nat_take_bit)
  also have "(0xFF :: 'a word) = mask 8" by (simp add: mask_eq_exp_minus_1)
  finally show ?thesis by (simp add: take_bit_eq_mask [symmetric] flip: take_bit_eq_mask)
qed

lemma join_bytes: "join_loop 0 (map (byte_at v) [0..<n]) 0 = (take_bit (8 * n) v :: 'a::len word)"
proof (induction n)
  case (Suc n)
  have "take_bit (8 * n) v OR push_bit (8 * n) (take_bit 8 (drop_bit (8 * n) v)) = take_bit (8 * Suc n) v"
    by (rule bit_word_eqI) (auto simp: bit_simps)
  then show ?case
    using Suc by (simp add: join_loop_snoc of_char_byte_at del: mult_Suc_right)
qed simp

lemma read_written_words [wire_simps]:
  "ReadU8 (byte_at b 0 # r) = Some (b, r)"
  "ReadU32 (map (byte_at v) [0..<4] @ r) = Some (v, r)"
  "ReadU64 (map (byte_at w) [0..<8] @ r) = Some (w, r)"
  using join_bytes [of v 4] join_bytes [of w 8]
  by (simp_all add: ReadU8_def ReadU32_def ReadU64_def of_char_byte_at take_bit_word_eq_self)

section \<open>Entries\<close>

text \<open>Every writer appends to what is there.\<close>

lemma writes_append:
  "WriteU8 b buf = buf @ [byte_at b 0]" "WriteU32 v buf = buf @ map (byte_at v) [0..<4]"
  "WriteU64 w buf = buf @ map (byte_at w) [0..<8]" "WriteI64 i buf = buf @ map (byte_at (word_of_int i :: u64)) [0..<8]"
  "WriteString s buf = buf @ WriteString s []" "WriteBytes dat buf = buf @ dat"
  by (simp_all add: WriteBytes_def WriteU8_def WriteU32_def WriteU64_def WriteI64_def WriteString_def)

lemma fold_append:
  assumes "\<And>x buf. x \<in> set xs \<Longrightarrow> f x buf = buf @ g x"
  shows "fold f xs buf = buf @ concat (map g xs)"
  using assms by (induction xs arbitrary: buf) simp_all

definition field_bytes :: "string \<times> string \<Rightarrow> bytes" where
  "field_bytes fv = WriteString (fst fv) [] @ WriteString (snd fv) []"

definition ttl_bytes :: "int option \<Rightarrow> bytes" where
  "ttl_bytes t = (case t of None \<Rightarrow> [byte_at (0 :: u8) 0]
     | Some w \<Rightarrow> byte_at (1 :: u8) 0 # map (byte_at (word_of_int (w sdiv ns_per_ms) :: u64)) [0..<8])"

lemma write_contents_append:
  "write_contents en buf = buf @
     (case se_type en of
        KList \<Rightarrow> map (byte_at (of_nat (length (se_list en)) :: u32)) [0..<4]
                   @ concat (map (\<lambda>x. WriteString x []) (se_list en))
      | KHash \<Rightarrow> map (byte_at (of_nat (length (se_hash en)) :: u32)) [0..<4]
                   @ concat (map field_bytes (se_hash en))
      | KString \<Rightarrow> WriteString (se_str en) [])"
proof -
  have elems: "fold WriteString xs b = b @ concat (map (\<lambda>x. WriteString x []) xs)" for xs b
    by (rule fold_append) (rule writes_append)
  have "WriteString val (WriteString field b) = b @ field_bytes (field, val)" for val field b
    using writes_append(5) [of val "WriteString field b"] writes_append(5) [of field b] by (simp add: field_bytes_def)
  then have fields: "fold (\<lambda>(field, val) b. WriteString val (WriteString field b)) fvs b = b @ concat (map field_bytes fvs)"
    for fvs b
    by (intro fold_append) auto
  show ?thesis
    using writes_append(5) [of "se_str en" buf]
    by (cases "se_type en") (simp_all add: write_contents_def elems fields writes_append(2))
qed

lemma write_entry_append:
  "write_entry en buf = buf @ WriteString (se_key en) [] @ byte_at (type_byte (se_type en)) 0 #
     ttl_bytes (se_expires_at_wall en) @ write_contents en []"
  using writes_append(5) [of "se_key en" buf] write_contents_append [of en]
  by (simp add: write_entry_def writes_append(1,4) Let_def ttl_bytes_def split: option.split)

lemma size_words [wire_simps]:
  "n < 2 ^ 32 \<Longrightarrow> unat (of_nat n :: u32) = n" "n < 2 ^ 64 \<Longrightarrow> unat (of_nat n :: u64) = n"
  by (simp_all add: unsigned_of_nat take_bit_nat_eq_self)

lemma read_string [wire_simps]: "length x < 2 ^ 32 \<Longrightarrow> ReadString (WriteString x [] @ r) = Some (x, r)"
  by (simp add: ReadString_def WriteString_def WriteU32_def wire_simps)

lemma read_strings_written [wire_simps]:
  "\<forall>x \<in> set xs. length x < 2 ^ 32 \<Longrightarrow>
     read_strings (length xs) (concat (map (\<lambda>x. WriteString x []) xs) @ r) = Some (xs, r)"
  by (induction xs) (simp_all add: wire_simps)

lemma read_fields_written [wire_simps]:
  "\<forall>(f, x) \<in> set fvs. length f < 2 ^ 32 \<and> length x < 2 ^ 32 \<Longrightarrow>
     read_fields (length fvs) (concat (map field_bytes fvs) @ r) = Some (fvs, r)"
  by (induction fvs) (auto simp: field_bytes_def wire_simps)

text \<open>
  The sizes of an entry fit the 32-bit counts of the file, and its deadline is a representable
  instant after the epoch.
\<close>

definition storable :: "snapshot_entry \<Rightarrow> bool" where
  "storable en \<longleftrightarrow> length (se_key en) < 2 ^ 32 \<and> length (se_str en) < 2 ^ 32
     \<and> length (se_list en) < 2 ^ 32 \<and> length (se_hash en) < 2 ^ 32
     \<and> (\<forall>x \<in> set (se_list en). length x < 2 ^ 32)
     \<and> (\<forall>(f, x) \<in> set (se_hash en). length f < 2 ^ 32 \<and> length x < 2 ^ 32)
     \<and> (\<forall>t. se_expires_at_wall en = Some t \<longrightarrow> 0 \<le> t \<and> t < 2 ^ 63)"

text \<open>What the file keeps of an entry: the value of its type, the deadline in milliseconds.\<close>

definition whole_ms :: "int \<Rightarrow> int" where
  "whole_ms t = t div ns_per_ms * ns_per_ms"

definition filed :: "snapshot_entry \<Rightarrow> snapshot_entry" where
  "filed en = \<lparr>se_key = se_key en, se_type = se_type en,
     se_str = (if se_type en = KString then se_str en else []),
     se_list = (if se_type en = KList then se_list en else []),
     se_hash = (if se_type en = KHash then se_hash en else []),
     se_expires_at_wall = map_option whole_ms (se_expires_at_wall en)\<rparr>"

definition past :: "int \<Rightarrow> snapshot_entry \<Rightarrow> bool" where
  "past wall_now en = (case se_expires_at_wall en of None \<Rightarrow> False | Some w \<Rightarrow> whole_ms w \<le> wall_now)"

lemma read_ttl_written [wire_simps]:
  assumes "\<forall>w. t = Some w \<longrightarrow> 0 \<le> w \<and> w < 2 ^ 63"
  shows "read_ttl (ttl_bytes t @ r) = Some (map_option whole_ms t, r)"
proof (cases t)
  case (Some w)
  have small: "0 \<le> w div ns_per_ms" "w div ns_per_ms * ns_per_ms \<le> w" "w div ns_per_ms \<le> w"
    using assms Some by (auto simp: ns_per_ms_def pos_imp_zdiv_nonneg_iff)
  have "sint (word_of_int (w div ns_per_ms) :: u64) = w div ns_per_ms"
    using wrap64_id [of "w div ns_per_ms"] small assms Some unfolding wrap64_def by auto
  moreover have "wrap64 (w div ns_per_ms * ns_per_ms) = w div ns_per_ms * ns_per_ms"
    using small assms Some by (intro wrap64_id) (auto simp: ns_per_ms_def)
  ultimately show ?thesis
    using Some assms
    by (simp add: read_ttl_def ttl_bytes_def ReadI64_def wire_simps whole_ms_def sdiv_nonneg ns_per_ms_def)
qed (simp add: read_ttl_def ttl_bytes_def wire_simps)

text \<open>The vectors of an entry, and of a list of entries, can be allocated.\<close>

definition allocates :: "(vec \<Rightarrow> nat \<Rightarrow> bool) \<Rightarrow> snapshot_entry \<Rightarrow> bool" where
  "allocates reserves en \<longleftrightarrow> reserves VElems (length (se_list en)) \<and> reserves VFields (length (se_hash en))"

lemma read_contents_written:
  assumes "storable en" and "allocates reserves en"
  shows "read_contents reserves (blank_entry key (se_type en) t) (write_contents en [] @ r)
    = Got ((filed en)\<lparr>se_key := key, se_expires_at_wall := t\<rparr>) r"
  using assms
  by (cases "se_type en")
    (simp_all add: read_contents_def blank_entry_def write_contents_append storable_def allocates_def filed_def parsed_of_def
      wire_simps)

lemma value_type_of_byte [simp]: "value_type_of (type_byte ty) = ty"
  by (cases ty) (simp_all add: value_type_of_def type_byte_def kTypeString_def kTypeList_def kTypeHash_def)

lemma read_entry_written:
  assumes "storable en" and "allocates reserves en"
  shows "read_entry reserves wall_now (write_entry en [] @ r)
    = Got (if past wall_now en then None else Some (filed en)) r"
proof -
  have "length (se_key en) < 2 ^ 32" "\<forall>w. se_expires_at_wall en = Some w \<longrightarrow> 0 \<le> w \<and> w < 2 ^ 63"
    using assms(1) by (auto simp: storable_def)
  then show ?thesis
    by (cases "se_expires_at_wall en")
      (simp_all add: read_entry_def write_entry_append wire_simps past_def Let_def read_contents_written [OF assms]
        filed_def)
qed

lemma read_entries_written:
  assumes "\<forall>en \<in> set ens. storable en \<and> allocates reserves en"
  shows "read_entries reserves wall_now (length ens) (concat (map (\<lambda>en. write_entry en []) ens) @ r)
    = Got (map filed (filter (\<lambda>en. \<not> past wall_now en) ens)) r"
  using assms by (induction ens) (simp_all add: read_entry_written)

lemma rdb_payload_append:
  "rdb_payload ens = kMagic @ map (byte_at kFormatVersion) [0..<4] @ map (byte_at (of_nat (length ens) :: u64)) [0..<8]
     @ concat (map (\<lambda>en. write_entry en []) ens)"
proof -
  have "fold write_entry ens b = b @ concat (map (\<lambda>en. write_entry en []) ens)" for b
  proof (rule fold_append)
    show "write_entry x buf = buf @ write_entry x []" for x buf
      using write_entry_append [of x buf] write_entry_append [of x "[]"] by simp
  qed
  then show ?thesis by (simp add: rdb_payload_def writes_append(2,3,6))
qed

definition loadable :: "(vec \<Rightarrow> nat \<Rightarrow> bool) \<Rightarrow> snapshot_entry list \<Rightarrow> bool" where
  "loadable reserves ens \<longleftrightarrow> length ens < 2 ^ 64 \<and> reserves VEntries (length ens)
     \<and> (\<forall>en \<in> set ens. storable en \<and> allocates reserves en)"

lemma read_payload_written:
  assumes "loadable reserves ens"
  shows "read_payload reserves wall_now (rdb_payload ens) = Got (map filed (filter (\<lambda>en. \<not> past wall_now en) ens)) []"
  using assms read_entries_written [of ens reserves wall_now "[]"]
  by (simp add: loadable_def read_payload_def rdb_payload_append ReadBytes_def wire_simps)

lemma checked_image: "checked_payload (rdb_image ens) = Some (rdb_payload ens)"
proof -
  have "length (rdb_payload ens) \<ge> 16" by (simp add: rdb_payload_append kMagic_def)
  moreover have "ReadU64 (map (byte_at w) [0..<8]) = Some (w, [])" for w
    using read_written_words(3) [of w "[]"] by simp
  ultimately show ?thesis by (simp add: checked_payload_def rdb_image_def WriteU64_def)
qed

lemma LoadRdb_image:
  assumes "fs path = Some (rdb_image ens)" and "loadable reserves ens"
  shows "LoadRdb reserves wall_now e s path fs
    = Some (True, LoadSnapshot e (map filed (filter (\<lambda>en. \<not> past wall_now en) ens)) s)"
  by (simp add: LoadRdb_def assms checked_image read_payload_written)

section \<open>The checksum\<close>

lemma Fnv1a64_HashKey: "Fnv1a64 = HashKey"
  by (rule ext) (simp add: Fnv1a64_def HashKey_def fnv_step_def [abs_def] kOffsetBasis_def kPrime_def)

text \<open>The prime is odd, so multiplying with it can be undone modulo \<open>2\<^sup>6\<^sup>4\<close>.\<close>

lemma times_prime_inject: "x * 1099511628211 = y * 1099511628211 \<longleftrightarrow> x = (y :: u64)"
proof
  assume eq: "x * 1099511628211 = y * 1099511628211"
  have inv: "(1099511628211 :: u64) * 0xCE965057AFF6957B = 1" by simp
  have "x = x * 1099511628211 * 0xCE965057AFF6957B" by (simp only: mult.assoc inv mult_1_right)
  also have "\<dots> = y * 1099511628211 * 0xCE965057AFF6957B" by (simp only: eq)
  also have "\<dots> = y" by (simp only: mult.assoc inv mult_1_right)
  finally show "x = y" .
qed (rule arg_cong)

lemma xor_cancel: "a XOR x = a XOR y \<longleftrightarrow> x = (y :: u64)" "x XOR a = y XOR a \<longleftrightarrow> x = (y :: u64)"
proof -
  have "x = y" if "a XOR x = a XOR y" for a x y :: u64
  proof -
    have "x = a XOR (a XOR x)" by (simp add: xor.assoc [symmetric])
    also have "\<dots> = a XOR (a XOR y)" by (simp only: that)
    also have "\<dots> = y" by (simp add: xor.assoc [symmetric])
    finally show ?thesis .
  qed
  then show left: "a XOR x = a XOR y \<longleftrightarrow> x = y" by blast
  then show "x XOR a = y XOR a \<longleftrightarrow> x = y" by (simp only: xor.commute [of _ a])
qed

lemma of_char_u64: "(of_char c :: u64) = of_char d \<longleftrightarrow> c = d"
proof
  assume eq: "(of_char c :: u64) = of_char d"
  have "unat (of_nat (of_char x) :: u64) = of_char x" for x :: char
  proof (rule size_words(2))
    have "(of_char x :: nat) mod 256 < 256" by (rule mod_less_divisor) simp
    then have "(of_char x :: nat) < 256" by (simp only: of_char_mod_256)
    then show "(of_char x :: nat) < 2 ^ 64" by (rule order.strict_trans) simp
  qed
  then show "c = d"
    using eq by (metis of_char_eq_iff of_nat_of_char)
qed simp

definition fnv_from :: "u64 \<Rightarrow> bytes \<Rightarrow> u64" where
  "fnv_from h xs = foldl (\<lambda>hash c. (hash XOR of_char c) * 1099511628211) h xs"

lemma fnv_from_inject: "fnv_from a xs = fnv_from b xs \<longleftrightarrow> a = b"
  by (induction xs arbitrary: a b) (simp_all add: fnv_from_def times_prime_inject xor_cancel)

lemma Fnv1a64_change:
  assumes "i < length xs" and "c \<noteq> xs ! i"
  shows "Fnv1a64 (xs[i := c]) \<noteq> Fnv1a64 xs"
proof -
  define h where "h = fnv_from 14695981039346656037 (take i xs)"
  have split: "Fnv1a64 (take i xs @ d # drop (Suc i) xs) = fnv_from ((h XOR of_char d) * 1099511628211) (drop (Suc i) xs)" for d
    by (simp add: Fnv1a64_def h_def fnv_from_def)
  have "Fnv1a64 xs = fnv_from ((h XOR of_char (xs ! i)) * 1099511628211) (drop (Suc i) xs)"
    using split [of "xs ! i"] assms(1) by (simp add: id_take_nth_drop [symmetric])
  moreover have "Fnv1a64 (xs[i := c]) = fnv_from ((h XOR of_char c) * 1099511628211) (drop (Suc i) xs)"
    using split [of c] assms(1) by (simp add: upd_conv_take_nth_drop)
  ultimately show ?thesis
    using assms(2) by (simp add: fnv_from_inject times_prime_inject xor_cancel of_char_u64)
qed

text \<open>Eight bytes are determined by the number they encode.\<close>

lemma of_char_take_bit: "take_bit 8 (of_char c :: u64) = of_char c"
proof -
  have "take_bit 8 (of_char c :: nat) = of_char c"
    by (simp add: take_bit_eq_mod of_char_mod_256)
  then show ?thesis by (metis of_nat_of_char of_nat_take_bit)
qed

lemma join_bounded: "take_bit (8 * length xs) (join_loop 0 xs 0) = (join_loop 0 xs 0 :: u64)"
proof (induction xs rule: rev_induct)
  case (snoc c xs)
  have "take_bit (8 * n + 8) (v OR push_bit (8 * n) w) = v OR push_bit (8 * n) w"
    if "take_bit (8 * n) v = v" "take_bit 8 w = w" for n and v w :: u64
  proof -
    have "bit v i \<longrightarrow> i < 8 * n" "bit w i \<longrightarrow> i < 8" for i
      using that by (metis bit_take_bit_iff)+
    then show ?thesis by (intro bit_word_eqI) (fastforce simp: bit_simps)
  qed
  from this [OF snoc of_char_take_bit] show ?case by (simp add: join_loop_snoc add.commute)
qed simp

lemma or_push_inject:
  assumes "take_bit n v = v" "take_bit n v' = v'" "take_bit 8 w = w" "take_bit 8 w' = w'" "n + 8 \<le> 64"
    and eq: "v OR push_bit n w = v' OR push_bit n (w' :: u64)"
  shows "v = v' \<and> w = w'"
proof -
  have "take_bit n (v OR push_bit n w) = take_bit n v" "drop_bit n (v OR push_bit n w) = w"
    if "take_bit n v = v" "take_bit 8 w = w" for v w :: u64
  proof -
    have b: "bit v i \<longrightarrow> i < n" "bit w i \<longrightarrow> i < 8" for i
      using that by (metis bit_take_bit_iff)+
    show "take_bit n (v OR push_bit n w) = take_bit n v" by (rule bit_word_eqI) (auto simp: bit_simps)
    show "drop_bit n (v OR push_bit n w) = w"
      using b assms(5) by (intro bit_word_eqI) (fastforce simp: bit_simps)
  qed
  then show ?thesis using assms by metis
qed

lemma join_inject:
  assumes "length xs = length ys" and "length xs \<le> 8" and "join_loop 0 xs 0 = (join_loop 0 ys 0 :: u64)"
  shows "xs = ys"
  using assms
proof (induction xs arbitrary: ys rule: rev_induct)
  case (snoc c xs)
  from snoc.prems(1) obtain zs d where ys: "ys = zs @ [d]" by (cases ys rule: rev_cases) auto
  with snoc.prems have "length xs = length zs"
    and "join_loop 0 xs 0 OR push_bit (8 * length xs) (of_char c) = join_loop 0 zs 0 OR push_bit (8 * length xs) (of_char d :: u64)"
    by (simp_all add: join_loop_snoc)
  with or_push_inject [OF join_bounded _ of_char_take_bit of_char_take_bit _ this(2)] join_bounded [of zs] snoc.prems(2)
  have "join_loop 0 xs 0 = (join_loop 0 zs 0 :: u64)" "(of_char c :: u64) = of_char d" by auto
  with snoc ys \<open>length xs = length zs\<close> show ?case by (simp add: of_char_u64)
qed simp

lemma checked_payload_iff:
  "checked_payload buf = Some payload \<longleftrightarrow> length buf \<ge> 24 \<and> payload = take (length buf - 8) buf
     \<and> join_loop 0 (drop (length buf - 8) buf) 0 = Fnv1a64 payload"
  by (auto simp: checked_payload_def ReadU64_def Let_def split: if_splits)

lemma short_unchecked: "length buf < 24 \<Longrightarrow> checked_payload buf = None"
  by (simp add: checked_payload_def)

lemma checked_payload_change:
  assumes ok: "checked_payload buf = Some payload" and i: "i < length buf" and c: "c \<noteq> buf ! i"
  shows "checked_payload (buf[i := c]) = None"
proof (rule ccontr)
  define n where "n = length buf - 8"
  assume "checked_payload (buf[i := c]) \<noteq> None"
  then have sums: "join_loop 0 (drop n (buf[i := c])) 0 = Fnv1a64 (take n (buf[i := c]))"
      "join_loop 0 (drop n buf) 0 = Fnv1a64 (take n buf)" and len: "length buf \<ge> 24"
    using ok by (auto simp: checked_payload_iff n_def)
  show False
  proof (cases "i < n")
    case True
    then show False
      using sums Fnv1a64_change [of i "take n buf" c] c i by (simp add: take_update_swap)
  next
    case False
    then have "join_loop 0 (drop n (buf[i := c])) 0 = (join_loop 0 (drop n buf) 0 :: u64)"
      using sums by simp
    then have "drop n (buf[i := c]) = drop n buf"
      using len by (intro join_inject) (simp_all add: n_def)
    then have "drop n (buf[i := c]) ! (i - n) = drop n buf ! (i - n)" by simp
    then show False using False i c by (simp add: nth_drop)
  qed
qed

section \<open>Reloading a saved store\<close>

lemma filed_fields [simp]:
  "se_key (filed en) = se_key en" "se_expires_at_wall (filed en) = map_option whole_ms (se_expires_at_wall en)"
  by (simp_all add: filed_def)

lemma payload_filed: "payload_of (value_of_snapshot a b (filed en)) = payload_of (value_of_snapshot a b en)"
  by (cases "se_type en") (simp_all add: filed_def value_of_snapshot_def payload_of_def)

lemma whole_ms_bounds: "0 \<le> t \<Longrightarrow> 0 \<le> whole_ms t" "whole_ms t \<le> t"
  by (auto simp: whole_ms_def ns_per_ms_def)

text \<open>
  What a key of the saved store is after the reload: the deadline is the wall-clock one in
  whole milliseconds, and a key is dropped when that has passed at either clock reading of
  the load.
\<close>

definition reloaded :: "int \<Rightarrow> env \<Rightarrow> env \<Rightarrow> payload \<times> int option \<Rightarrow> (payload \<times> int option) option" where
  "reloaded wall_now e e' = (\<lambda>(p, t). case t of
       None \<Rightarrow> Some (p, None)
     | Some d \<Rightarrow>
         (let w = whole_ms (wall_deadline (clk e 0) (wall e 0) d) in
          if w \<le> wall_now \<or> w \<le> wall e' 0 then None else Some (p, Some (clk e' 0 + (w - wall e' 0)))))"

lemma restore_filed:
  assumes v: "ht_inv (hash_value v)" and d: "case expires_at v of None \<Rightarrow> True | Some d \<Rightarrow> clock_fits d \<and> clk e 0 < d"
    and fits: "clock_fits (clk e 0)" "clock_fits (wall e 0)" "clock_fits (clk e' 0)" "clock_fits (wall e' 0)"
    and en_def: "en = snapshot_of (clk e 0) (wall e 0) k v"
  shows "(if past wall_now en then None else restore (clk e' 0) (wall e' 0) (filed en)) = reloaded wall_now e e' (abs_value v)"
proof (cases "expires_at v")
  case None
  then show ?thesis
    by (simp add: en_def past_def restore_def reloaded_def abs_value_def restored_payload [OF v] payload_filed deadlines)
next
  case (Some d)
  note w = snapshot_deadline [OF fits(1,2) _ _ Some]
  have "restore (clk e' 0) (wall e' 0) (filed en) =
    (if whole_ms (wall_deadline (clk e 0) (wall e 0) d) \<le> wall e' 0 then None
     else Some (payload_of v, Some (clk e' 0 + (whole_ms (wall_deadline (clk e 0) (wall e 0) d) - wall e' 0))))"
    using w d Some whole_ms_bounds [of "wall_deadline (clk e 0) (wall e 0) d"] fits(3,4)
      restore_deadline [of "filed en" "whole_ms (wall_deadline (clk e 0) (wall e 0) d)" e']
    by (simp add: en_def payload_filed restored_payload [OF v])
  then show ?thesis
    using Some w(1) d by (simp add: en_def past_def reloaded_def abs_value_def Let_def)
qed

lemma SaveRdb_done:
  assumes "opens io" "write_ok io" "renames io"
  shows "SaveRdb e io s path fs =
    (True, fs(path \<mapsto> take (reached io) (rdb_image (Snapshot e s)), path @ ''.tmp'' := None))"
  using assms by (simp add: SaveRdb_def Let_def fun_eq_iff)

text \<open>Saving and loading compose to \<open>reloaded\<close> on every live key.\<close>

lemma save_load:
  assumes inv: "store_inv s" and unlimited: "max_memory_bytes s' = 0"
    and mono: "mono (clk e)" and t1: "\<forall>i. clk e i \<le> t1"
    and fits: "clock_fits (clk e 0)" "clock_fits (wall e 0)" "clock_fits (clk e' 0)" "clock_fits (wall e' 0)"
    and deadlines_fit: "\<forall>k p d. keyspace_of s k = Some (p, Some d) \<longrightarrow> clock_fits d"
    and io: "opens io" "write_ok io" "renames io" "reached io \<ge> length (rdb_image (Snapshot e s))"
    and sizes: "loadable reserves (Snapshot e s)"
  shows "fst (SaveRdb e io s path fs)
    \<and> (\<exists>s''. LoadRdb reserves wall_now e' s' path (snd (SaveRdb e io s path fs)) = Some (True, s'')
        \<and> (\<forall>k pt. live t1 (keyspace_of s) k = Some pt \<longrightarrow> keyspace_of s'' k = reloaded wall_now e e' pt)
        \<and> (\<forall>k. live (clk e 0) (keyspace_of s) k = None \<longrightarrow> keyspace_of s'' k = None))"
proof -
  define ens where "ens = map filed (filter (\<lambda>en. \<not> past wall_now en) (Snapshot e s))"
  have keys: "distinct (map se_key ens)" "se_key ` set ens \<subseteq> se_key ` set (Snapshot e s)"
    using snapshot_contents(1) [OF inv, of e] by (auto simp: ens_def o_def distinct_map inj_on_def)
  note load = LoadSnapshot_keyspace [OF keys(1) unlimited, where e = e']
  have "keyspace_of (LoadSnapshot e' ens s') k = reloaded wall_now e e' pt"
    if live: "live t1 (keyspace_of s) k = Some pt" for k pt
  proof -
    obtain v where v: "HT_Get (data s) k = Some v" "pt = abs_value v" "\<forall>i. \<not> IsExpired (clk e i) v"
        "snapshot_of (clk e 0) (wall e 0) k v \<in> set (Snapshot e s)"
      using snapshot_contents(2) [OF inv t1 live] by blast
    let ?en = "snapshot_of (clk e 0) (wall e 0) k v"
    have uniq: "en = ?en" if "en \<in> set (Snapshot e s)" "se_key en = k" for en
      using that v(4) snapshot_contents(1) [OF inv, of e] inj_onD [of se_key "set (Snapshot e s)" en ?en]
      by (simp add: distinct_map)
    have "keyspace_of (LoadSnapshot e' ens s') k =
        (if past wall_now ?en then None else restore (clk e' 0) (wall e' 0) (filed ?en))"
    proof (cases "past wall_now ?en")
      case True
      then have "k \<notin> se_key ` set ens" using uniq by (auto simp: ens_def)
      then show ?thesis using load(2) True by simp
    next
      case False
      then have "filed ?en \<in> set ens" using v(4) by (simp add: ens_def)
      then show ?thesis using load(1) [of "filed ?en"] False by simp
    qed
    also have "\<dots> = reloaded wall_now e e' (abs_value v)"
      using store_invD(2) [OF inv v(1)] fits spec [OF v(3), of 0] deadlines_fit v(1)
      by (intro restore_filed refl) (auto simp: IsExpired_def keyspace_of_apply abs_value_def split: option.splits)
    finally show ?thesis by (simp add: v)
  qed
  moreover have "keyspace_of (LoadSnapshot e' ens s') k = None"
    if "live (clk e 0) (keyspace_of s) k = None" for k
    using load(2) keys(2) snapshot_contents(3) [OF inv mono that] by blast
  ultimately show ?thesis
    using io LoadRdb_image [OF _ sizes, of "snd (SaveRdb e io s path fs)" path wall_now e' s']
    by (simp add: SaveRdb_done ens_def)
qed

section \<open>Properties\<close>

text \<open>
  C12: Restarting from a snapshot file loses nothing. When the operating system carries out the
  save, \<^verbatim>\<open>SaveRdb\<close> reports success and \<^verbatim>\<open>LoadRdb\<close> on a store without a budget accepts the file and
  restores every key that was live throughout the save: the same payload, no deadline where
  there was none, and otherwise the deadline at the same wall-clock time in whole
  milliseconds. A key past its deadline at the load, or expired when the save began, is absent.
\<close>

theorem rdb_restart:
  assumes inv: "store_inv s" and unlimited: "max_memory_bytes s' = 0"
    and mono: "mono (clk e)" and t1: "\<forall>i. clk e i \<le> t1"
    and fits: "clock_fits (clk e 0)" "clock_fits (wall e 0)" "clock_fits (clk e' 0)" "clock_fits (wall e' 0)"
    and deadlines_fit: "\<forall>k p d. keyspace_of s k = Some (p, Some d) \<longrightarrow> clock_fits d"
    and io: "opens io" "write_ok io" "renames io" "reached io \<ge> length (rdb_image (Snapshot e s))"
    and sizes: "loadable reserves (Snapshot e s)"
  shows "fst (SaveRdb e io s path fs)
    \<and> (\<exists>s''. LoadRdb reserves wall_now e' s' path (snd (SaveRdb e io s path fs)) = Some (True, s'')
        \<and> (\<forall>k pt. live t1 (keyspace_of s) k = Some pt \<longrightarrow> keyspace_of s'' k = reloaded wall_now e e' pt)
        \<and> (\<forall>k. live (clk e 0) (keyspace_of s) k = None \<longrightarrow> keyspace_of s'' k = None))"
  using save_load [OF assms] .

text \<open>A save that goes through, and allocation without limits.\<close>

definition good_disk :: save_env where
  "good_disk = \<lparr>opens = True, write_ok = True, reached = 1000, renames = True\<rparr>"

lemma saved_list_example:
  "Snapshot (still 5) (snd (RPush (still 0) ''h'' [''x''] new_store)) =
     [\<lparr>se_key = ''h'', se_type = KList, se_str = [], se_list = [''x''], se_hash = [], se_expires_at_wall = None\<rparr>]"
  "length (rdb_image (Snapshot (still 5) (snd (RPush (still 0) ''h'' [''x''] new_store)))) \<le> 1000"
  by code_simp+

theorem rdb_restart_witness:
  "\<exists>s''. LoadRdb (\<lambda>_ _. True) 7 (still 7) new_store ''dump''
       (snd (SaveRdb (still 5) good_disk (snd (RPush (still 0) ''h'' [''x''] new_store)) ''dump'' Map.empty)) = Some (True, s'')
     \<and> keyspace_of s'' ''h'' = Some (PList [''x''], None)"
proof -
  let ?s = "snd (RPush (still 0) ''h'' [''x''] new_store)"
  have sizes: "loadable (\<lambda>_ _. True) (Snapshot (still 5) ?s)"
    unfolding saved_list_example by (simp add: loadable_def storable_def allocates_def)
  have "live 5 (keyspace_of ?s) ''h'' = Some (PList [''x''], None)"
    by (simp add: new_store_rpush(2) live_def expired_at_def)
  then show ?thesis
    using rdb_restart [OF new_store_rpush(1), of new_store "still 5" 5 "still 7" "still 0" "''h''" "[''x'']" good_disk
        "\<lambda>_ _. True" "''dump''" Map.empty 7] sizes saved_list_example(2) new_store_rpush(2) [of "still 0" "''h''" "[''x'']"]
    by (force simp: clock_fits_def mono_def reloaded_def good_disk_def new_store_def split: if_splits)
qed

text \<open>
  C20: The checksum catches every single damaged byte. If a file is accepted, then with any one
  byte of it changed, in the header, the entries or the checksum itself, it is rejected, and
  the store is left as it was.
\<close>

theorem rdb_detects_damage:
  assumes "fs path = Some file" and "LoadRdb reserves wall_now e s path fs = Some (True, s')"
    and "i < length file" and "c \<noteq> file ! i"
  shows "LoadRdb reserves wall_now e s path (fs(path \<mapsto> file[i := c])) = Some (False, s)"
proof -
  from assms(1,2) obtain payload where "checked_payload file = Some payload"
    by (auto simp: LoadRdb_def split: option.splits)
  then have "checked_payload (file[i := c]) = None" using assms(3,4) by (rule checked_payload_change)
  then show ?thesis by (simp add: LoadRdb_def)
qed

theorem rdb_detects_damage_witness:
  "LoadRdb (\<lambda>_ _. True) 0 (still 0) new_store ''dump'' [''dump'' \<mapsto> (rdb_image [])[5 := CHR ''x'']] = Some (False, new_store)"
proof -
  have "LoadRdb (\<lambda>_ _. True) 0 (still 0) new_store ''dump'' [''dump'' \<mapsto> rdb_image []]
      = Some (True, LoadSnapshot (still 0) [] new_store)"
    using LoadRdb_image [of "[''dump'' \<mapsto> rdb_image []]" "''dump''" "[]"] by (simp add: loadable_def)
  moreover have "5 < length (rdb_image []) \<and> CHR ''x'' \<noteq> rdb_image [] ! 5" by code_simp
  ultimately show ?thesis
    using rdb_detects_damage [of "[''dump'' \<mapsto> rdb_image []]" "''dump''" "rdb_image []" "\<lambda>_ _. True" 0 "still 0" new_store _ 5
        "CHR ''x''"] by simp
qed


text \<open>
  But success may be reported for a file that did not reach the disk whole. Bytes the stream
  still holds when \<^verbatim>\<open>write\<close> returns are flushed by the destructor, whose failure is not looked
  at: then the previous snapshot is replaced by a file the next start rejects, and the dataset is lost.
\<close>

theorem rdb_silent_truncation:
  assumes "opens io" "write_ok io" "renames io" and short: "reached io < 24"
  shows "fst (SaveRdb e io s path fs)
    \<and> LoadRdb reserves wall_now e' s' path (snd (SaveRdb e io s path fs)) = Some (False, s')"
proof -
  have "checked_payload (take (reached io) (rdb_image (Snapshot e s))) = None"
    using short by (intro short_unchecked) simp
  then show ?thesis using assms by (simp add: SaveRdb_done LoadRdb_def)
qed

theorem rdb_silent_truncation_witness:
  "LoadRdb (\<lambda>_ _. True) 0 (still 0) new_store ''dump''
     (snd (SaveRdb (still 0) (good_disk\<lparr>reached := 0\<rparr>) new_store ''dump'' [''dump'' \<mapsto> rdb_image []])) = Some (False, new_store)"
  using rdb_silent_truncation [of "good_disk\<lparr>reached := 0\<rparr>" "still 0" new_store "''dump''" "[''dump'' \<mapsto> rdb_image []]"
      "\<lambda>_ _. True" 0 "still 0" new_store] by (simp add: good_disk_def)

text \<open>
  The number of entries is taken from the file before any of them is read: a file with a valid
  checksum and a count \<^verbatim>\<open>reserve\<close> refuses ends the program by an exception.
\<close>

theorem rdb_count_exception:
  assumes "\<not> reserves VEntries (unat n)"
    and "payload = WriteU64 n (WriteU32 kFormatVersion kMagic)" and "fs path = Some (WriteU64 (Fnv1a64 payload) payload)"
  shows "LoadRdb reserves wall_now e s path fs = None"
proof -
  have "ReadU64 (map (byte_at w) [0..<8]) = Some (w, [])" for w
    using read_written_words(3) [of w "[]"] by simp
  then show ?thesis
    using assms
    by (simp add: LoadRdb_def checked_payload_def read_payload_def ReadBytes_def writes_append kMagic_def wire_simps)
qed

end
