(* ===== verification/Aof.thy ===== *)
theory Aof
  imports Dispatch_Spec CommandParser Rdb
begin

text \<open>
  The append-only file: \<^verbatim>\<open>src/src/server/aof.cpp\<close>. The writer, the replay, and how the log and
  the store evolve together when commands are served.

  What \<^verbatim>\<open>write\<close> returns is a parameter: the list of the results of successive calls. The kernel
  accepts at most what it was given, so \<open>Wrote n\<close> moves the first \<open>n\<close> bytes of the rest, or all
  of them when there are fewer.
\<close>

section \<open>The writer\<close>

datatype write_result = Wrote nat | Interrupted | WriteError

text \<open>\<^verbatim>\<open>AofWriter(path)\<close>: whether the descriptor is valid, and the files after \<^verbatim>\<open>O_CREAT\<close>.\<close>

definition AofWriter :: "bool \<Rightarrow> string \<Rightarrow> files \<Rightarrow> bool \<times> files" where
  "AofWriter opened path fs =
     (if opened then (True, fs(path \<mapsto> (case fs path of None \<Rightarrow> [] | Some buf \<Rightarrow> buf))) else (False, fs))"

text \<open>The write loop of \<^verbatim>\<open>Append\<close>; \<open>None\<close> when it has not returned within the given calls.\<close>

fun write_loop :: "write_result list \<Rightarrow> bytes \<Rightarrow> bytes \<Rightarrow> (bool \<times> bytes) option" where
  "write_loop ws [] disk = Some (True, disk)"
| "write_loop [] (c # dat) disk = None"
| "write_loop (Wrote n # ws) (c # dat) disk = write_loop ws (drop n (c # dat)) (disk @ take n (c # dat))"
| "write_loop (Interrupted # ws) (c # dat) disk = write_loop ws (c # dat) disk"
| "write_loop (WriteError # ws) (c # dat) disk = Some (False, disk)"

definition Append :: "bool \<Rightarrow> write_result list \<Rightarrow> bool \<Rightarrow> string list \<Rightarrow> bytes \<Rightarrow> (bool \<times> bytes) option" where
  "Append opened ws synced args disk =
     (if \<not> opened then Some (False, disk)
      else case write_loop ws (Encode (Array (map BulkString args))) disk of
        None \<Rightarrow> None
      | Some (ok, disk') \<Rightarrow> Some (ok \<and> synced, disk'))"

section \<open>The replay\<close>

function replay :: "(nat \<Rightarrow> nat \<Rightarrow> env) \<Rightarrow> bytes \<Rightarrow> store \<Rightarrow> bool \<times> store" where
  "replay es buf s =
     (case TryParseCommand buf of
        (KIncomplete, _) \<Rightarrow> (True, s)
      | (KProtocolError _, _) \<Rightarrow> (False, s)
      | (KComplete args, rest) \<Rightarrow> replay (\<lambda>i. es (Suc i)) rest (new_state (Dispatch (es 0) args s)))"
  by pat_completeness auto
termination
  by (relation "measure (\<lambda>(_, buf, _). length buf)") (auto dest: TryParseCommand_consumes [OF sym])

declare replay.simps [simp del]

definition LoadAof :: "(nat \<Rightarrow> nat \<Rightarrow> env) \<Rightarrow> store \<Rightarrow> string \<Rightarrow> files \<Rightarrow> bool \<times> store" where
  "LoadAof es s path fs = (case fs path of None \<Rightarrow> (False, s) | Some buf \<Rightarrow> replay es (Feed buf []) s)"

section \<open>Serving with a log\<close>

text \<open>
  Commands served one after the other, each with its surroundings; what a command hands to
  \<open>Append\<close> is appended whole before the next one runs.
\<close>

fun serve :: "((nat \<Rightarrow> env) \<times> string list) list \<Rightarrow> bytes \<Rightarrow> store \<Rightarrow> bytes \<times> store" where
  "serve [] disk s = (disk, s)"
| "serve ((es, args) # hist) disk s =
     (let out = Dispatch es args s;
          disk' = (case logged out of None \<Rightarrow> disk | Some args' \<Rightarrow> disk @ Encode (Array (map BulkString args')))
      in serve hist disk' (new_state out))"

text \<open>
  Several clients: a handler thread changes the store in one step and appends to the log in
  another, each under a lock of its own; \<open>waiting i\<close> is what the thread of client \<open>i\<close> has executed
  and not yet appended.
\<close>

record logging_server =
  srv_store :: store
  srv_log :: bytes
  waiting :: "nat \<Rightarrow> string list option"

inductive log_step :: "logging_server \<Rightarrow> logging_server \<Rightarrow> bool" where
  execute_step: "waiting m i = None \<Longrightarrow>
     log_step m (m\<lparr>srv_store := new_state (Dispatch es args (srv_store m)),
                    waiting := (waiting m)(i := logged (Dispatch es args (srv_store m)))\<rparr>)"
| append_step: "waiting m i = Some args \<Longrightarrow>
     log_step m (m\<lparr>srv_log := srv_log m @ Encode (Array (map BulkString args)), waiting := (waiting m)(i := None)\<rparr>)"

definition idle_server :: logging_server where
  "idle_server = \<lparr>srv_store = new_store, srv_log = [], waiting = (\<lambda>_. None)\<rparr>"

inductive_cases log_step_cases: "log_step m m'"

section \<open>Lemmas on the writer\<close>

lemma write_loop_prefix:
  "write_loop ws dat disk = Some (ok, disk') \<Longrightarrow>
     \<exists>p q. p @ q = dat \<and> disk' = disk @ p \<and> (ok \<longleftrightarrow> q = [])"
proof (induction ws dat disk rule: write_loop.induct)
  case (3 n ws c dat disk)
  then obtain p q where "p @ q = drop n (c # dat)" "disk' = (disk @ take n (c # dat)) @ p" "ok \<longleftrightarrow> q = []"
    by auto
  then show ?case by (intro exI [of _ "take n (c # dat) @ p"] exI [of _ q]) simp
qed auto

fun written :: "write_result list \<Rightarrow> nat" where
  "written [] = 0"
| "written (Wrote n # ws) = n + written ws"
| "written (w # ws) = written ws"

lemma write_loop_returns: "length dat \<le> written ws \<Longrightarrow> \<exists>r. write_loop ws dat disk = Some r"
  by (induction ws dat disk rule: write_loop.induct) auto

section \<open>The replay and the parser\<close>

fun execute :: "(nat \<Rightarrow> nat \<Rightarrow> env) \<Rightarrow> string list list \<Rightarrow> store \<Rightarrow> store" where
  "execute es [] s = s"
| "execute es (args # cmds) s = execute (\<lambda>i. es (Suc i)) cmds (new_state (Dispatch (es 0) args s))"

lemma replay_drain: "drain buf = (cmds, KIncomplete, rest) \<Longrightarrow> replay es buf s = (True, execute es cmds s)"
proof (induction es buf s arbitrary: cmds rule: replay.induct)
  case (1 es buf s)
  then show ?case
    by (subst replay.simps, subst (asm) (3) drain.simps)
      (auto split: prod.splits status.splits)
qed

section \<open>Deadline-free key spaces\<close>

definition deadline_free :: "keyspace \<Rightarrow> bool" where
  "deadline_free m \<longleftrightarrow> (\<forall>k p d. m k \<noteq> Some (p, Some d))"

lemma live_deadline_free: "deadline_free m \<Longrightarrow> live t m = m"
  by (auto simp: deadline_free_def live_def expired_at_def fun_eq_iff split: option.split)

lemma live_later: "t \<le> t' \<Longrightarrow> live t' (live t m) = live t' m"
  by (auto simp: live_def expired_at_def fun_eq_iff split: option.split)

fun lasting :: "command \<Rightarrow> bool" where
  "lasting (CSetEx k v n) = False"
| "lasting (CExpire k n) = False"
| "lasting c = True"

text \<open>Without deadlines the outcome of a command does not depend on when it is carried out.\<close>

lemma deadline_free_changes:
  assumes "deadline_free m"
  shows "deadline_free (m(k := None))" "deadline_free (m(k \<mapsto> (p, None)))" "deadline_free (m |` A)"
    and "m k = Some (p, d) \<Longrightarrow> deadline_free (m(k \<mapsto> (q, d)))"
  using assms by (auto simp: deadline_free_def restrict_map_def) (cases d; simp)

lemma serves_hdel:
  "serves t (CHDel k fs) m r m' \<Longrightarrow>
     m' = (case m k of Some (PHash h, d) \<Rightarrow>
             if h |` (- set fs) = Map.empty then m(k := None) else m(k \<mapsto> (PHash (h |` (- set fs)), d))
           | _ \<Rightarrow> m)"
proof (cases "m k")
  case (Some pd)
  assume "serves t (CHDel k fs) m r m'"
  then show ?thesis using Some by (cases pd; cases "fst pd") (auto simp: Let_def)
qed simp

lemma serves_deadline_free:
  assumes "serves t c m r m'" and free: "deadline_free m" and "lasting c"
  shows "deadline_free m'"
proof -
  note changes = deadline_free_changes [OF free]
  have "deadline_free Map.empty" by (simp add: deadline_free_def)
  then show ?thesis
    using assms
    by (cases c)
      (auto simp: change_def changes split: option.splits payload.splits dest!: serves_hdel simp del: serves.simps(18))
qed

lemma serves_unique:
  assumes "serves t c m r m'" "serves t2 c m r2 m2" "lasting c"
  shows "m' = m2"
  using assms
  by (cases c) (auto simp: change_def split: option.splits dest!: serves_hdel simp del: serves.simps(18))

section \<open>One command against the log\<close>

lemma Dispatch_logged: "logged (Dispatch es args s) = None \<or> logged (Dispatch es args s) = Some args"
  by (rule Dispatch_cases)
    (auto simp: command_defs write_outcome_def case_prod_beta Let_def split: option.splits)

lemma del_loop_budget [simp]: "max_memory_bytes (snd (del_loop now keys n s)) = max_memory_bytes s"
  by (induction now keys n s rule: del_loop.induct) (auto split: option.split)

lemma SweepDelete_budget [simp]: "max_memory_bytes (SweepDelete now keys s) = max_memory_bytes s"
  by (induction now keys s rule: SweepDelete.induct) simp_all

lemma read_typed_budget [simp]: "max_memory_bytes (snd (read_typed e ty missing answer k s)) = max_memory_bytes s"
  by (simp add: read_typed_def split: option.split)

lemma other_methods_budget [simp]:
  "max_memory_bytes (snd (Store_Del e ks s)) = max_memory_bytes s"
  "max_memory_bytes (snd (Expire e k n s)) = max_memory_bytes s"
  "max_memory_bytes (snd (TTL e k s)) = max_memory_bytes s"
  "max_memory_bytes (snd (HDel e k fs s)) = max_memory_bytes s"
  "max_memory_bytes (FlushAll s) = max_memory_bytes s"
  "max_memory_bytes (snd (Store_Exists e ks s)) = max_memory_bytes s"
  "max_memory_bytes (snd (Store_Keys e s)) = max_memory_bytes s"
  by (simp_all add: Store_Del_def Expire_def TTL_def HDel_def FlushAll_def Store_Exists_def Store_Keys_def Let_def
      case_prod_beta split: option.split)

lemma Dispatch_budget [simp]: "max_memory_bytes (new_state (Dispatch es args s)) = max_memory_bytes s"
  by (rule Dispatch_cases)
    (simp_all add: command_defs case_prod_beta Let_def pushes_push_with Store_Get_def LLen_def LRange_def HGet_def HGetAll_def
      HLen_def HExists_def HKeys_def HVals_def split: option.split)

definition plain :: "string list \<Rightarrow> bool" where
  "plain args = (case parse_command args of Inl err \<Rightarrow> True | Inr c \<Rightarrow> lasting c)"

text \<open>At \<open>t\<close> and later the live part of the store is \<open>m\<close>.\<close>

definition holds :: "int \<Rightarrow> keyspace \<Rightarrow> store \<Rightarrow> bool" where
  "holds t m s \<longleftrightarrow> store_inv s \<and> max_memory_bytes s = 0 \<and> live t (keyspace_of s) = m \<and> deadline_free m"

lemma holds_later: "holds t m s \<Longrightarrow> t \<le> t' \<Longrightarrow> holds t' m s"
  using live_later [of t t' "keyspace_of s"] by (auto simp: holds_def live_deadline_free)

lemma holds_new: "holds t Map.empty new_store"
  by (simp add: holds_def deadline_free_def store_inv_new) (simp add: live_def fun_eq_iff)

lemma unlogged_step:
  assumes "holds t m s" "frozen t es" "logged (Dispatch es args s) = None"
  shows "holds t m (new_state (Dispatch es args s))"
  using assms Dispatch_unlogged_live [of s t es args] frozen_settled [of t es]
  by (simp add: holds_def Dispatch_inv)

lemma parse_lrange_name: "parse_command args = Inr (CLRange k a b) \<Longrightarrow> ToUpper (hd args) = ''LRANGE''"
  unfolding parse_command_def Let_def
  by (auto simp: parse_PING_def parse_SET_def parse_HSET_def one_arg_def two_args_def key_and_args_def with_int_def
      split: if_splits list.splits option.splits)

lemma lrange_unlogged:
  assumes "parse_command args = Inr (CLRange k a b)" and "args \<noteq> []"
  shows "logged (Dispatch es args s) = None"
proof -
  have "ToUpper (args ! 0) = ''LRANGE''" using assms(2) parse_lrange_name [OF assms(1)] by (simp add: hd_conv_nth)
  then show ?thesis by (simp add: Dispatch_def cmd_LRANGE_def split: option.split)
qed

lemma in_range_lasting: "lasting c \<Longrightarrow> deadline_free m \<Longrightarrow> \<forall>k a b. c \<noteq> CLRange k a b \<Longrightarrow> in_range t c m"
  by (cases c) (auto simp: deadline_free_def)

lemma serves_step:
  assumes "holds t m s" "frozen t es" "args \<noteq> []" "parse_command args = Inr c" "lasting c" "\<forall>k a b. c \<noteq> CLRange k a b"
  shows "\<exists>r m'. serves t c m r m' \<and> holds t m' (new_state (Dispatch es args s))"
proof -
  have "calm t es s" using assms(1,2) by (simp add: holds_def calm_def)
  from Dispatch_implements [OF this, of "hd args" "tl args"] assms in_range_lasting [of c m t]
  have "serves t c m (reply (Dispatch es args s)) (live t (keyspace_of (new_state (Dispatch es args s))))"
    by (simp add: holds_def)
  then show ?thesis
    using assms(1,5) serves_deadline_free by (fastforce simp: holds_def Dispatch_inv)
qed

lemma logged_step:
  assumes "holds t m s" "frozen t es" "plain args" "args \<noteq> []" "logged (Dispatch es args s) = Some a"
  shows "\<exists>m'. holds t m' (new_state (Dispatch es args s))
    \<and> (\<forall>t2 es2 s2. holds t2 m s2 \<longrightarrow> frozen t2 es2 \<longrightarrow> holds t2 m' (new_state (Dispatch es2 args s2)))"
proof (cases "parse_command args")
  case (Inl err)
  have "calm t es s" using assms(1,2) by (simp add: holds_def calm_def)
  from Dispatch_implements [OF this, of "hd args" "tl args"] assms(4,5) Inl show ?thesis by simp
next
  case (Inr c)
  then have c: "lasting c" "\<forall>k a b. c \<noteq> CLRange k a b"
    using assms(3-5) lrange_unlogged [of args _ _ _ es s] by (auto simp: plain_def)
  obtain r m' where m': "serves t c m r m'" "holds t m' (new_state (Dispatch es args s))"
    using serves_step [OF assms(1,2,4) Inr c] by blast
  have "holds t2 m' (new_state (Dispatch es2 args s2))" if "holds t2 m s2" "frozen t2 es2" for t2 es2 s2
    using serves_step [OF that assms(4) Inr c] serves_unique [OF m'(1) _ c(1)] by blast
  with m' show ?thesis by blast
qed

section \<open>Histories against the log\<close>

text \<open>A history served at non-decreasing instants, of commands that set no deadline.\<close>

fun steady :: "int \<Rightarrow> ((nat \<Rightarrow> env) \<times> string list) list \<Rightarrow> bool" where
  "steady t [] \<longleftrightarrow> True"
| "steady t ((es, args) # hist) \<longleftrightarrow>
     (let t' = clk (es 0) 0 in t \<le> t' \<and> frozen t' es \<and> sendable args \<and> plain args \<and> steady t' hist)"

definition after :: "((nat \<Rightarrow> env) \<times> string list) list \<Rightarrow> int \<Rightarrow> bool" where
  "after hist now \<longleftrightarrow> (\<forall>(es, args) \<in> set hist. clk (es 0) 0 \<le> now)"

text \<open>The surroundings of a replay: each command at an instant, the instants non-decreasing and by \<open>now\<close>.\<close>

definition replay_clock :: "(nat \<Rightarrow> nat \<Rightarrow> env) \<Rightarrow> int \<Rightarrow> int \<Rightarrow> bool" where
  "replay_clock es t now \<longleftrightarrow>
     (\<forall>i. frozen (clk (es i 0) 0) (es i) \<and> t \<le> clk (es i 0) 0 \<and> clk (es i 0) 0 \<le> now) \<and> mono (\<lambda>i. clk (es i 0) 0)"

lemma replay_clock_Suc: "replay_clock es t now \<Longrightarrow> replay_clock (\<lambda>i. es (Suc i)) (clk (es 0 0) 0) now"
  by (simp add: replay_clock_def mono_def)

lemma serve_disk: "serve hist disk s = (disk @ fst (serve hist [] s), snd (serve hist [] s))"
proof (induction hist arbitrary: disk s)
  case (Cons x hist)
  obtain es args where x: "x = (es, args)" by (cases x)
  define b where "b = (case logged (Dispatch es args s) of None \<Rightarrow> [] | Some a \<Rightarrow> Encode (Array (map BulkString a)))"
  have step: "serve (x # hist) d s = serve hist (d @ b) (new_state (Dispatch es args s))" for d
    by (simp add: x b_def Let_def split: option.split)
  show ?case
    unfolding step using Cons [of "disk @ b"] Cons [of "[] @ b"] by simp
qed simp

lemma serve_store: "NO_MATCH [] disk \<Longrightarrow> snd (serve hist disk s) = snd (serve hist [] s)"
  by (subst serve_disk) simp

lemma serve_replays:
  assumes "steady t hist" and "holds t m s"
  shows "\<exists>cmds m'. fst (serve hist [] s) = concat (map encode_command cmds) \<and> list_all sendable cmds
    \<and> (\<forall>now. t \<le> now \<longrightarrow> after hist now \<longrightarrow> holds now m' (snd (serve hist [] s)))
    \<and> (\<forall>es2 t2 s2 now. holds t2 m s2 \<longrightarrow> t2 \<le> now \<longrightarrow> replay_clock es2 t2 now \<longrightarrow> holds now m' (execute es2 cmds s2))"
  using assms
proof (induction hist arbitrary: t m s)
  case Nil
  then show ?case by (intro exI [of _ "[]"] exI [of _ m]) (auto intro: holds_later)
next
  case (Cons x hist)
  obtain es args where x: "x = (es, args)" by (cases x)
  define t1 where "t1 = clk (es 0) 0"
  have ok: "t \<le> t1" "frozen t1 es" "sendable args" "plain args" "steady t1 hist"
    using Cons.prems(1) by (simp_all add: x t1_def Let_def)
  have now: "holds t1 m s" using Cons.prems(2) ok(1) by (rule holds_later)
  let ?s = "new_state (Dispatch es args s)"
  have later: "after (x # hist) now \<longleftrightarrow> t1 \<le> now \<and> after hist now" for now by (simp add: after_def x t1_def)
  show ?case
  proof (cases "logged (Dispatch es args s)")
    case None
    have "serve (x # hist) [] s = serve hist [] ?s" by (simp add: x None)
    with Cons.IH [OF ok(5) unlogged_step [OF now ok(2) None]] show ?thesis
      unfolding later by (elim ex_forward) simp
  next
    case (Some a)
    have a: "a = args" using Some Dispatch_logged [of es args s] by simp
    have "args \<noteq> []" using ok(3) by (simp add: sendable_def)
    from logged_step [OF now ok(2,4) this Some] obtain m1 where m1: "holds t1 m1 ?s"
        "\<forall>t2 es2 s2. holds t2 m s2 \<longrightarrow> frozen t2 es2 \<longrightarrow> holds t2 m1 (new_state (Dispatch es2 args s2))"
      by blast
    from Cons.IH [OF ok(5) m1(1)] obtain cmds m' where IH: "fst (serve hist [] ?s) = concat (map encode_command cmds)"
        "list_all sendable cmds" "\<forall>now. t1 \<le> now \<longrightarrow> after hist now \<longrightarrow> holds now m' (snd (serve hist [] ?s))"
        "\<forall>es2 t2 s2 now. holds t2 m1 s2 \<longrightarrow> t2 \<le> now \<longrightarrow> replay_clock es2 t2 now \<longrightarrow> holds now m' (execute es2 cmds s2)"
      by blast
    have "holds now m' (execute es2 (args # cmds) s2)"
      if "holds t2 m s2" "replay_clock es2 t2 now" for es2 t2 s2 now
    proof -
      let ?u = "clk (es2 0 0) 0"
      have u: "frozen ?u (es2 0)" "t2 \<le> ?u" "?u \<le> now" using that(2) by (simp_all add: replay_clock_def)
      then have "holds ?u m1 (new_state (Dispatch (es2 0) args s2))" using m1(2) holds_later [OF that(1)] by blast
      then show ?thesis using IH(4) u(3) replay_clock_Suc [OF that(2)] by simp
    qed
    moreover have "serve (x # hist) [] s = (encode_command args @ fst (serve hist [] ?s), snd (serve hist [] ?s))"
      using serve_disk [of hist "encode_command args" ?s] by (simp add: x Some a encode_command_Encode Let_def)
    ultimately show ?thesis
      unfolding later using IH(1-3) ok(3) by (intro exI [of _ "args # cmds"] exI [of _ m']) simp
  qed
qed

section \<open>Where a crash can cut the log\<close>

lemma drain_torn:
  assumes "list_all sendable cmds" and "torn = [] \<or> (\<exists>q c. q \<noteq> [] \<and> torn @ q = encode_command c \<and> sendable c)"
  shows "drain (concat (map encode_command cmds) @ torn) = (cmds, KIncomplete, torn)"
  using assms(1)
proof (induction cmds)
  case Nil
  have "TryParseCommand torn = (KIncomplete, torn)"
  proof (cases "torn = []")
    case False
    with assms(2) show ?thesis using TryParse_prefix by blast
  qed (simp add: TryParseCommand_def)
  then show ?case by (subst drain.simps) simp
next
  case (Cons cmd cmds)
  then show ?case by (subst drain.simps) (simp add: TryParse_encoded)
qed

lemma longest_prefix:
  assumes "L [] \<le> (n :: nat)"
  shows "\<exists>h1 h2. hist = h1 @ h2 \<and> L h1 \<le> n \<and> (h2 = [] \<or> n < L (h1 @ [hd h2]))"
proof (induction hist rule: rev_induct)
  case (snoc x hist)
  then obtain h1 h2 where h: "hist = h1 @ h2" "L h1 \<le> n" "h2 = [] \<or> n < L (h1 @ [hd h2])" by blast
  show ?case
  proof (cases "h2 = [] \<and> L (hist @ [x]) \<le> n")
    case True
    then show ?thesis by (intro exI [of _ "hist @ [x]"] exI [of _ "[]"]) simp
  next
    case False
    then show ?thesis using h by (intro exI [of _ h1] exI [of _ "h2 @ [x]"]) (cases h2; auto)
  qed
qed (use assms in simp)

lemma serve_append: "serve (h1 @ h2) disk s = serve h2 (fst (serve h1 disk s)) (snd (serve h1 disk s))"
  by (induction h1 arbitrary: disk s) (auto simp: Let_def)

lemma steady_append: "steady t (h1 @ h2) \<Longrightarrow> steady t h1"
  by (induction h1 arbitrary: t) (auto simp: Let_def)

lemma steady_sendable: "steady t hist \<Longrightarrow> (es, args) \<in> set hist \<Longrightarrow> sendable args"
  by (induction hist arbitrary: t) (auto simp: Let_def)

text \<open>The first \<open>n\<close> bytes of a log: whole commands of a part of the history, then a torn one.\<close>

lemma cut_log:
  assumes h: "hist = h1 @ h2" "length (fst (serve h1 [] s)) \<le> n" "h2 = [] \<or> n < length (fst (serve (h1 @ [hd h2]) [] s))"
    and "steady t hist"
  shows "\<exists>torn. take n (fst (serve hist [] s)) = fst (serve h1 [] s) @ torn
    \<and> (torn = [] \<or> (\<exists>q c. q \<noteq> [] \<and> torn @ q = encode_command c \<and> sendable c))"
proof (cases h2)
  case Nil
  then show ?thesis using h by simp
next
  case (Cons x h3)
  obtain es args where x: "x = (es, args)" by (cases x)
  let ?s = "snd (serve h1 [] s)" and ?d = "fst (serve h1 [] s)"
  have short: "n < length (fst (serve [x] ?d ?s))" using h(3) Cons by (simp add: serve_append)
  then have "logged (Dispatch es args ?s) \<noteq> None" using h(2) by (auto simp: x Let_def split: option.splits)
  then have log: "logged (Dispatch es args ?s) = Some args" using Dispatch_logged [of es args ?s] by auto
  have ok: "sendable args" using steady_sendable [OF assms(4)] h(1) Cons x by auto
  define k where "k = n - length ?d"
  have k: "k < length (encode_command args)"
    using short h(2) by (simp add: x log k_def encode_command_Encode Let_def)
  have "fst (serve hist [] s) = ?d @ encode_command args @ fst (serve h3 [] (new_state (Dispatch es args ?s)))"
    using serve_disk [of h3 "?d @ encode_command args" "new_state (Dispatch es args ?s)"]
    by (simp add: h(1) Cons x serve_append log encode_command_Encode Let_def)
  then have "take n (fst (serve hist [] s)) = ?d @ take k (encode_command args)"
    using h(2) k by (simp add: k_def)
  then show ?thesis
    using k ok append_take_drop_id [of k "encode_command args"]
    by (intro exI [of _ "take k (encode_command args)"] conjI disjI2 exI [of _ "drop k (encode_command args)"] exI [of _ args])
      auto
qed

text \<open>The replay of any part of a log, from its beginning.\<close>

lemma replay_cut_log:
  assumes "steady t hist" and "after hist now" "t \<le> now" and "replay_clock es' t' now" "t' \<le> now"
  shows "\<exists>h1 h2 s'. hist = h1 @ h2
    \<and> length (fst (serve h1 [] new_store)) \<le> n
    \<and> (h2 = [] \<or> n < length (fst (serve (h1 @ [hd h2]) [] new_store)))
    \<and> LoadAof es' new_store path [path \<mapsto> take n (fst (serve hist [] new_store))] = (True, s')
    \<and> live now (keyspace_of s') = live now (keyspace_of (snd (serve h1 [] new_store)))"
proof -
  obtain h1 h2 where h: "hist = h1 @ h2" "length (fst (serve h1 [] new_store)) \<le> n"
      "h2 = [] \<or> n < length (fst (serve (h1 @ [hd h2]) [] new_store))"
    using longest_prefix [of "\<lambda>h. length (fst (serve h [] new_store))" n hist] by auto
  obtain torn where torn: "take n (fst (serve hist [] new_store)) = fst (serve h1 [] new_store) @ torn"
      "torn = [] \<or> (\<exists>q c. q \<noteq> [] \<and> torn @ q = encode_command c \<and> sendable c)"
    using cut_log [OF h assms(1)] by blast
  obtain cmds m' where c: "fst (serve h1 [] new_store) = concat (map encode_command cmds)" "list_all sendable cmds"
      "\<forall>now. t \<le> now \<longrightarrow> after h1 now \<longrightarrow> holds now m' (snd (serve h1 [] new_store))"
      "\<forall>es2 t2 s2 now. holds t2 Map.empty s2 \<longrightarrow> t2 \<le> now \<longrightarrow> replay_clock es2 t2 now \<longrightarrow> holds now m' (execute es2 cmds s2)"
    using serve_replays [OF steady_append [of t h1 h2] holds_new] assms(1) h(1) by blast
  have "LoadAof es' new_store path [path \<mapsto> take n (fst (serve hist [] new_store))] = (True, execute es' cmds new_store)"
    unfolding LoadAof_def torn(1) c(1) using replay_drain [OF drain_torn [OF c(2) torn(2)]] by (simp add: Feed_def)
  moreover have "holds now m' (execute es' cmds new_store)" using c(4) holds_new assms(4,5) by blast
  moreover have "holds now m' (snd (serve h1 [] new_store))" using c(3) assms(2,3) h(1) by (auto simp: after_def)
  ultimately show ?thesis using h by (intro exI [of _ h1] exI [of _ h2]) (simp add: holds_def)
qed

section \<open>Properties\<close>

text \<open>
  \<^verbatim>\<open>Append\<close> writes the command whole or reports failure. Whatever partial writes and
  interruptions the kernel answers with, the file afterwards is the file before followed by the
  command in RESP form, or by a part of it and then the result is false; and the loop returns
  as soon as the calls have accepted the length of the command.
\<close>

theorem aof_append_writes:
  "(\<forall>ok disk'. Append opened ws synced args disk = Some (ok, disk') \<longrightarrow>
      (\<exists>p q. p @ q = encode_command args \<and> disk' = disk @ p \<and> (ok \<longrightarrow> opened \<and> synced \<and> q = [])))
    \<and> (length (encode_command args) \<le> written ws \<longrightarrow> (\<exists>r. Append opened ws synced args disk = Some r))"
proof -
  have "\<exists>p q. p @ q = encode_command args \<and> disk' = disk @ p \<and> (ok \<longrightarrow> opened \<and> synced \<and> q = [])"
    if "Append opened ws synced args disk = Some (ok, disk')" for ok disk'
  proof (cases opened)
    case True
    with that obtain ok' where "write_loop ws (encode_command args) disk = Some (ok', disk')" "ok \<longleftrightarrow> ok' \<and> synced"
      by (auto simp: Append_def encode_command_Encode split: option.splits)
    then show ?thesis using write_loop_prefix True by metis
  qed (use that in \<open>auto simp: Append_def\<close>)
  moreover have "\<exists>r. Append opened ws synced args disk = Some r" if "length (encode_command args) \<le> written ws"
    using write_loop_returns [OF that, of disk] by (auto simp: Append_def encode_command_Encode split: option.split)
  ultimately show ?thesis by blast
qed

theorem aof_append_writes_witness:
  "\<exists>r. Append True [Wrote 3, Interrupted, Wrote 40] True [''FLUSHALL''] [] = Some r"
proof -
  have "length (encode_command [''FLUSHALL'']) \<le> written [Wrote 3, Interrupted, Wrote 40]" by code_simp
  then show ?thesis using aof_append_writes [of True "[Wrote 3, Interrupted, Wrote 40]" True "[''FLUSHALL'']" "[]"] by blast
qed

text \<open>
  C5: A restart after a crash recovers exactly the commands whose record was complete. However
  many bytes of the log have reached the disk, the replay of what is there succeeds and gives,
  at every later instant, the live key space the server had after the longest part of its
  history whose log fits into these bytes. (Commands that set deadlines are not covered: a
  replay counts them from its own clock.)
\<close>

theorem aof_crash_recovery:
  assumes "steady t hist" and "after hist now" "t \<le> now" and "replay_clock es' t' now" "t' \<le> now"
  shows "\<exists>h1 h2 s'. hist = h1 @ h2
    \<and> length (fst (serve h1 [] new_store)) \<le> n
    \<and> (h2 = [] \<or> n < length (fst (serve (h1 @ [hd h2]) [] new_store)))
    \<and> LoadAof es' new_store path [path \<mapsto> take n (fst (serve hist [] new_store))] = (True, s')
    \<and> live now (keyspace_of s') = live now (keyspace_of (snd (serve h1 [] new_store)))"
  using replay_cut_log [OF assms] .

definition crash_history :: "((nat \<Rightarrow> env) \<times> string list) list" where
  "crash_history = [(\<lambda>_. still 1, [''SET'', ''k'', ''v'']), (\<lambda>_. still 2, [''GET'', ''k'']), (\<lambda>_. still 3, [''DEL'', ''k''])]"

lemma crash_history_steady: "steady 0 crash_history" "after crash_history 9"
proof -
  have "plain [''SET'', ''k'', ''v''] \<and> plain [''GET'', ''k''] \<and> plain [''DEL'', ''k'']" by code_simp
  then show "steady 0 crash_history"
    by (simp add: crash_history_def frozen_def sendable_def kMaxArgs_def kMaxBulkLen_def Let_def)
qed (simp add: after_def crash_history_def)

theorem aof_crash_recovery_witness:
  "\<exists>h1 h2 s'. crash_history = h1 @ h2
    \<and> length (fst (serve h1 [] new_store)) \<le> 30 \<and> (h2 = [] \<or> 30 < length (fst (serve (h1 @ [hd h2]) [] new_store)))
    \<and> LoadAof (\<lambda>_ _. still 9) new_store ''log'' [''log'' \<mapsto> take 30 (fst (serve crash_history [] new_store))] = (True, s')
    \<and> live 9 (keyspace_of s') = live 9 (keyspace_of (snd (serve h1 [] new_store)))"
  by (rule aof_crash_recovery [OF crash_history_steady, of "\<lambda>_ _. still 9" 9])
    (simp_all add: replay_clock_def frozen_def mono_def)

text \<open>
  A torn record is not cut off. The replay accepts it as the end of the log, the writer then
  appends behind it, and the next replay stops there with an error: the commands logged after
  the crash are lost although each was acknowledged and synced.
\<close>

theorem aof_torn_record_poisons:
  "let torn = encode_command [''SET'', ''a'', ''1''] @ take 20 (encode_command [''SET'', ''b'', ''2'']);
       before = LoadAof (\<lambda>_ _. still 0) new_store ''log'' [''log'' \<mapsto> torn];
       full = the (Append True [Wrote 100] True [''SET'', ''c'', ''3''] torn);
       restarted = LoadAof (\<lambda>_ _. still 0) new_store ''log'' [''log'' \<mapsto> snd full]
   in fst before \<and> fst full \<and> \<not> fst restarted \<and> fst (Store_Get (still 0) ''c'' (snd restarted)) = not_found"
  by code_simp

lemma race_run:
  fixes c1 c2
  defines "c1 \<equiv> [''SET'', ''k'', ''1'']" and "c2 \<equiv> [''SET'', ''k'', ''2'']"
  shows "log_step\<^sup>*\<^sup>* idle_server
    \<lparr>srv_store = new_state (Dispatch (\<lambda>_. still 0) c2 (new_state (Dispatch (\<lambda>_. still 0) c1 new_store))),
     srv_log = encode_command c2 @ encode_command c1, waiting = (\<lambda>_. None)\<rparr>"
proof -
  let ?s1 = "new_state (Dispatch (\<lambda>_. still 0) c1 new_store)"
  let ?s2 = "new_state (Dispatch (\<lambda>_. still 0) c2 ?s1)"
  have log: "logged (Dispatch es c s) = Some c" if "c = c1 \<or> c = c2" for es c s
  proof -
    have "ToUpper ''SET'' = ''SET''" by code_simp
    then show ?thesis using that by (auto simp: c1_def c2_def Dispatch_def cmd_SET_def)
  qed
  have "log_step idle_server \<lparr>srv_store = ?s1, srv_log = [], waiting = (\<lambda>_. None)(0 := Some c1)\<rparr>"
    using execute_step [of idle_server 0 "\<lambda>_. still 0" c1] by (simp add: idle_server_def log)
  moreover have "log_step \<lparr>srv_store = ?s1, srv_log = [], waiting = (\<lambda>_. None)(0 := Some c1)\<rparr>
      \<lparr>srv_store = ?s2, srv_log = [], waiting = (\<lambda>_. None)(0 := Some c1, 1 := Some c2)\<rparr>"
    using execute_step [of "\<lparr>srv_store = ?s1, srv_log = [], waiting = (\<lambda>_. None)(0 := Some c1)\<rparr>" 1 "\<lambda>_. still 0" c2]
    by (simp add: log)
  moreover have "log_step \<lparr>srv_store = ?s2, srv_log = [], waiting = (\<lambda>_. None)(0 := Some c1, 1 := Some c2)\<rparr>
      \<lparr>srv_store = ?s2, srv_log = encode_command c2, waiting = (\<lambda>_. None)(0 := Some c1)\<rparr>"
    using append_step [of "\<lparr>srv_store = ?s2, srv_log = [], waiting = (\<lambda>_. None)(0 := Some c1, 1 := Some c2)\<rparr>" 1 c2]
    by (simp add: encode_command_Encode fun_upd_twist)
  moreover have "log_step \<lparr>srv_store = ?s2, srv_log = encode_command c2, waiting = (\<lambda>_. None)(0 := Some c1)\<rparr>
      \<lparr>srv_store = ?s2, srv_log = encode_command c2 @ encode_command c1, waiting = (\<lambda>_. None)\<rparr>"
    using append_step [of "\<lparr>srv_store = ?s2, srv_log = encode_command c2, waiting = (\<lambda>_. None)(0 := Some c1)\<rparr>" 0 c1]
    by (simp add: encode_command_Encode)
  ultimately show ?thesis by (meson converse_rtranclp_into_rtranclp rtranclp.rtrancl_refl)
qed

text \<open>
  C40: The log can disagree with the store. The lock of the log is taken only after that of the
  store is released, so two clients that set the same key can be logged in the opposite order:
  the server answers with the second value, and after a restart from its log with the first.
\<close>

theorem aof_log_order_race:
  "\<exists>m. log_step\<^sup>*\<^sup>* idle_server m \<and> waiting m = (\<lambda>_. None)
     \<and> fst (Store_Get (still 0) ''k'' (srv_store m)) = found ''2''
     \<and> fst (Store_Get (still 0) ''k'' (snd (LoadAof (\<lambda>_ _. still 0) new_store ''log'' [''log'' \<mapsto> srv_log m]))) = found ''1''"
proof -
  have "fst (Store_Get (still 0) ''k'' (new_state (Dispatch (\<lambda>_. still 0) [''SET'', ''k'', ''2'']
      (new_state (Dispatch (\<lambda>_. still 0) [''SET'', ''k'', ''1''] new_store))))) = found ''2''
    \<and> fst (Store_Get (still 0) ''k'' (snd (LoadAof (\<lambda>_ _. still 0) new_store ''log''
      [''log'' \<mapsto> encode_command [''SET'', ''k'', ''2''] @ encode_command [''SET'', ''k'', ''1'']]))) = found ''1''"
    by code_simp
  then show ?thesis using race_run by (intro exI conjI) (assumption | simp)+
qed

lemma tokens_blank: "tokens (CHR '' '' # cs) = tokens cs"
  by (simp add: tokens.simps [of "CHR '' '' # cs"] tokens.simps [of cs] isspace_def)

lemma tokens_word:
  assumes "list_all (\<lambda>c. \<not> isspace c) w" "w \<noteq> []"
  shows "tokens (w @ CHR '' '' # cs) = w # tokens cs" "tokens w = [w]"
proof -
  obtain c w' where w: "w = c # w'" using assms(2) by (cases w) auto
  have c: "\<not> isspace c" and w': "\<forall>c \<in> set w'. \<not> isspace c" and blank: "isspace (CHR '' '')"
    using assms(1) by (simp_all add: w list_all_iff isspace_def)
  have "takeWhile (\<lambda>c. \<not> isspace c) w' = w'" "dropWhile (\<lambda>c. \<not> isspace c) w' = []"
    using w' by (simp_all add: takeWhile_eq_all_conv)
  moreover have "takeWhile (\<lambda>c. \<not> isspace c) (w' @ CHR '' '' # cs) = w'"
    "dropWhile (\<lambda>c. \<not> isspace c) (w' @ CHR '' '' # cs) = CHR '' '' # cs"
    using w' blank by (simp_all add: takeWhile_append2 dropWhile_append2)
  moreover have "tokens [] = []" by (simp add: tokens.simps)
  ultimately show "tokens (w @ CHR '' '' # cs) = w # tokens cs" "tokens w = [w]"
    using c tokens_blank [of cs]
    by (simp_all add: tokens.simps [of "c # w' @ CHR '' '' # cs"] tokens.simps [of "c # w'"] w
        del: takeWhile_eq_all_conv dropWhile_eq_Nil_conv)
qed

lemma tokens_repeated: "tokens (''DEL'' @ concat (replicate n '' k'')) = ''DEL'' # replicate n ''k''"
proof -
  have k: "tokens (''k'' @ concat (replicate n '' k'')) = replicate (Suc n) ''k''" for n
  proof (induction n)
    case (Suc n)
    have "''k'' @ concat (replicate (Suc n) '' k'') = ''k'' @ CHR '' '' # (''k'' @ concat (replicate n '' k''))" by simp
    then show ?case using Suc tokens_word(1) [of "''k''"] by (simp only: ) (simp add: isspace_def)
  qed (simp add: tokens_word(2) isspace_def)
  show ?thesis
  proof (cases n)
    case (Suc n')
    have "''DEL'' @ concat (replicate n '' k'') = ''DEL'' @ CHR '' '' # (''k'' @ concat (replicate n' '' k''))" by (simp add: Suc)
    then show ?thesis using k [of n'] tokens_word(1) [of "''DEL''"] by (simp only: ) (simp add: isspace_def Suc)
  qed (simp add: tokens_word(2) isspace_def)
qed

lemma oversized_record:
  assumes "int (length args) > kMaxArgs" "length args < 2 ^ 63"
  shows "TryParseCommand (encode_command args @ rest) = (KProtocolError ''invalid multibulk length'', encode_command args @ rest)"
proof -
  have "split_crlf (to_string (int (length args)) @ CRLF @ concat (map encode_bulk args) @ rest)
      = Some (to_string (int (length args)), concat (map encode_bulk args) @ rest)"
    by (rule split_crlf_line) simp
  then show ?thesis
    using assms by (simp add: TryParseCommand_def TryParseMultibulk_def encode_command_def wire_simps)
qed

text \<open>
  An inline request has no limit on its arguments, but its log record has: one with more than
  1024 arguments is carried out and logged, and the replay stops at it with an error, so that
  whatever was logged later is lost.
\<close>

theorem aof_oversized_record:
  assumes n: "1024 \<le> n" "n < 2 ^ 62" and args: "args = ''DEL'' # replicate n ''k''"
  shows "TryParseCommand (''DEL'' @ concat (replicate n '' k'') @ [LF]) = (KComplete args, [])"
    and "logged (Dispatch es args s) = Some args"
    and "LoadAof es' s' path [path \<mapsto> encode_command args @ later] = (False, s')"
proof -
  define line where "line = ''DEL'' @ concat (replicate n '' k'')"
  have chars: "LF \<notin> set line" "CR \<notin> set line" by (auto simp: line_def LF_def CR_def)
  have line: "line \<noteq> []" "hd line \<noteq> CHR ''*''" by (simp_all add: line_def)
  have plain_line: "\<forall>c \<in> set line. c \<noteq> LF" "last line \<noteq> CR" using chars last_in_set [OF line(1)] by metis+
  then have "takeWhile (\<lambda>c. c \<noteq> LF) (line @ [LF]) = line" "dropWhile (\<lambda>c. c \<noteq> LF) (line @ [LF]) = [LF]"
    by (simp_all add: takeWhile_append2 dropWhile_append2)
  then have "split_newline (line @ [LF]) = Some (line, [])" "strip_cr line = line"
    using plain_line(2) by (simp_all add: split_newline_def strip_cr_def)
  moreover have "tokens line = args" by (simp add: line_def tokens_repeated args del: append.simps)
  ultimately have "TryParseInline (line @ [LF]) = (KComplete args, [])"
    by (subst TryParseInline.simps) (simp add: args)
  then have "TryParseCommand (line @ [LF]) = (KComplete args, [])"
    using line by (simp add: TryParseCommand_def)
  then show "TryParseCommand (''DEL'' @ concat (replicate n '' k'') @ [LF]) = (KComplete args, [])"
    by (simp add: line_def)
  have "ToUpper ''DEL'' = ''DEL''" by code_simp
  then show "logged (Dispatch es args s) = Some args"
    using n by (simp add: args Dispatch_def cmd_DEL_def case_prod_beta)
  have "int (length args) > kMaxArgs" "length args < 2 ^ 63" using n by (simp_all add: args kMaxArgs_def)
  then show "LoadAof es' s' path [path \<mapsto> encode_command args @ later] = (False, s')"
    by (simp add: LoadAof_def Feed_def replay.simps oversized_record)
qed

end
