(* ===== verification/TcpServer.thy ===== *)
theory TcpServer
  imports Aof
begin

text \<open>
  One connection of the server: \<^verbatim>\<open>SendAll\<close> and \<^verbatim>\<open>TcpServer::HandleClient\<close> of
  \<^verbatim>\<open>src/src/server/tcp_server.cpp\<close>, composed of the parser, the dispatcher, the log and the encoder.

  The network is a parameter: the chunks that successive calls of \<^verbatim>\<open>recv\<close> deliver (the list ends
  where \<^verbatim>\<open>recv\<close> returns zero or an error), and the results of successive calls of \<^verbatim>\<open>send\<close>. The
  kernel accepts at most what it was given, so a positive result \<open>n\<close> moves the first \<open>n\<close> bytes of
  the rest, or all of them when there are fewer. The cleanup of the guard and the threads are the
  subject of the theory on connections.
\<close>

section \<open>Sending\<close>

function SendAll :: "(nat \<Rightarrow> int) \<Rightarrow> bytes \<Rightarrow> bool \<times> bytes \<times> (nat \<Rightarrow> int)" where
  "SendAll sends dat =
     (if dat = [] then (True, [], sends)
      else let n = sends 0; later = (\<lambda>i. sends (Suc i)) in
        if n \<le> 0 then (False, [], later)
        else case SendAll later (drop (nat n) dat) of
          (ok, out, sends') \<Rightarrow> (ok, take (nat n) dat @ out, sends'))"
  by pat_completeness auto
termination
  by (relation "measure (\<lambda>(_, dat). length dat)") auto

declare SendAll.simps [simp del]

section \<open>A connection\<close>

text \<open>
  The store and the log are shared with other connections; here they change by this one only.
  \<open>sess_envs i\<close> are the surroundings of the \<open>i\<close>-th command from now on, \<open>sess_out\<close> is what the
  client has been sent. No log is configured when \<open>sess_log\<close> is \<open>None\<close>.
\<close>

record session =
  sess_store :: store
  sess_log :: "bytes option"
  sess_envs :: "nat \<Rightarrow> nat \<Rightarrow> env"
  sess_sends :: "nat \<Rightarrow> int"
  sess_out :: bytes

definition send_reply :: "resp_value \<Rightarrow> session \<Rightarrow> bool \<times> session" where
  "send_reply r c =
     (case SendAll (sess_sends c) (Encode r) of
        (ok, out, sends') \<Rightarrow> (ok, c\<lparr>sess_sends := sends', sess_out := sess_out c @ out\<rparr>))"

definition dispatch_logged :: "string list \<Rightarrow> session \<Rightarrow> resp_value \<times> session" where
  "dispatch_logged args c =
     (let out = Dispatch (sess_envs c 0) args (sess_store c)
      in (reply out,
          c\<lparr>sess_store := new_state out,
            sess_log := map_option (\<lambda>disk. disk @ (case logged out of None \<Rightarrow> []
                          | Some args' \<Rightarrow> Encode (Array (map BulkString args')))) (sess_log c),
            sess_envs := (\<lambda>i. sess_envs c (Suc i))\<rparr>))"

datatype loop_exit = SendFailed | NeedMore | Violation string

function command_loop :: "bytes \<Rightarrow> session \<Rightarrow> loop_exit \<times> bytes \<times> session" where
  "command_loop buf c =
     (case TryParseCommand buf of
        (KComplete args, rest) \<Rightarrow>
          (case dispatch_logged args c of
             (r, c1) \<Rightarrow>
               (case send_reply r c1 of
                  (ok, c2) \<Rightarrow> if \<not> ok then (SendFailed, rest, c2) else command_loop rest c2))
      | (KIncomplete, rest) \<Rightarrow> (NeedMore, rest, c)
      | (KProtocolError parse_error, rest) \<Rightarrow> (Violation parse_error, rest, c))"
  by pat_completeness auto
termination
  by (relation "measure (\<lambda>(buf, _). length buf)") (auto dest: TryParseCommand_consumes [OF sym])

declare command_loop.simps [simp del]

fun HandleClient :: "bytes list \<Rightarrow> bytes \<Rightarrow> session \<Rightarrow> session" where
  "HandleClient [] buf c = c"
| "HandleClient (chunk # chunks) buf c =
     (case command_loop (Feed chunk buf) c of
        (SendFailed, _, c1) \<Rightarrow> c1
      | (Violation parse_error, _, c1) \<Rightarrow> snd (send_reply (Error (''ERR Protocol error: '' @ parse_error)) c1)
      | (NeedMore, rest, c1) \<Rightarrow> HandleClient chunks rest c1)"

section \<open>What a connection should do\<close>

text \<open>The commands with their surroundings, and the replies to them, one after the other.\<close>

fun history :: "(nat \<Rightarrow> nat \<Rightarrow> env) \<Rightarrow> string list list \<Rightarrow> ((nat \<Rightarrow> env) \<times> string list) list" where
  "history es [] = []"
| "history es (args # cmds) = (es 0, args) # history (\<lambda>i. es (Suc i)) cmds"

fun replies :: "(nat \<Rightarrow> nat \<Rightarrow> env) \<Rightarrow> string list list \<Rightarrow> store \<Rightarrow> resp_value list" where
  "replies es [] s = []"
| "replies es (args # cmds) s =
     (let out = Dispatch (es 0) args s in reply out # replies (\<lambda>i. es (Suc i)) cmds (new_state out))"

definition farewell :: "status \<Rightarrow> bytes" where
  "farewell st = (case st of KProtocolError e \<Rightarrow> Encode (Error (''ERR Protocol error: '' @ e)) | _ \<Rightarrow> [])"

text \<open>The store and the log after the commands.\<close>

definition carried_out :: "session \<Rightarrow> string list list \<Rightarrow> session \<Rightarrow> bool" where
  "carried_out c cmds c' \<longleftrightarrow>
     (let run = serve (history (sess_envs c) cmds) [] (sess_store c) in
      sess_store c' = snd run \<and> sess_log c' = map_option (\<lambda>disk. disk @ fst run) (sess_log c)
      \<and> sess_envs c' = (\<lambda>i. sess_envs c (length cmds + i)))"

section \<open>Lemmas\<close>

lemma SendAll_prefix:
  "SendAll sends dat = (ok, out, sends') \<Longrightarrow>
     (\<exists>q. out @ q = dat \<and> (ok \<longleftrightarrow> q = [])) \<and> ((\<forall>i. 0 < sends i) \<longrightarrow> ok \<and> (\<forall>i. 0 < sends' i))"
proof (induction sends dat arbitrary: ok out sends' rule: SendAll.induct)
  case (1 sends dat)
  show ?case
  proof (cases "dat = [] \<or> sends 0 \<le> 0")
    case True
    with "1.prems" show ?thesis by (subst (asm) SendAll.simps) (auto simp: Let_def not_le [symmetric] split: if_splits)
  next
    case False
    then obtain out' where rec: "SendAll (\<lambda>i. sends (Suc i)) (drop (nat (sends 0)) dat) = (ok, out', sends')"
        and out: "out = take (nat (sends 0)) dat @ out'"
      using "1.prems" by (subst (asm) SendAll.simps) (auto simp: Let_def split: prod.splits)
    from "1.IH" [OF _ refl refl _ rec] False obtain q where "out' @ q = drop (nat (sends 0)) dat" "ok \<longleftrightarrow> q = []"
        "(\<forall>i. 0 < sends (Suc i)) \<longrightarrow> ok \<and> (\<forall>i. 0 < sends' i)"
      by auto
    then show ?thesis using out by (intro conjI exI [of _ q]) simp_all
  qed
qed

lemma send_reply_prefix:
  assumes "send_reply r c = (ok, c')"
  shows "sess_store c' = sess_store c" "sess_log c' = sess_log c" "sess_envs c' = sess_envs c"
    and "\<exists>q. sess_out c' @ q = sess_out c @ Encode r \<and> (ok \<longleftrightarrow> q = [])"
    and "\<forall>i. 0 < sess_sends c i \<Longrightarrow> ok" "\<forall>i. 0 < sess_sends c i \<Longrightarrow> \<forall>i. 0 < sess_sends c' i"
proof -
  obtain out sends' where s: "SendAll (sess_sends c) (Encode r) = (ok, out, sends')"
    and c': "c' = c\<lparr>sess_sends := sends', sess_out := sess_out c @ out\<rparr>"
    using assms by (auto simp: send_reply_def split: prod.splits)
  show "sess_store c' = sess_store c" "sess_log c' = sess_log c" "sess_envs c' = sess_envs c"
    by (simp_all add: c')
  show "\<exists>q. sess_out c' @ q = sess_out c @ Encode r \<and> (ok \<longleftrightarrow> q = [])"
    using SendAll_prefix [OF s] by (auto simp: c')
  show "\<forall>i. 0 < sess_sends c i \<Longrightarrow> ok" "\<forall>i. 0 < sess_sends c i \<Longrightarrow> \<forall>i. 0 < sess_sends c' i"
    using SendAll_prefix [OF s] by (simp_all add: c')
qed

lemma carried_out_nil [simp]: "carried_out c [] c"
  by (cases "sess_log c") (simp_all add: carried_out_def)

lemma carried_out_append:
  assumes "carried_out c cmds c1" and "carried_out c2 cmds' c3"
    and "sess_store c2 = sess_store c1" "sess_log c2 = sess_log c1" "sess_envs c2 = sess_envs c1"
  shows "carried_out c (cmds @ cmds') c3"
proof -
  have "history es (cmds @ cmds') = history es cmds @ history (\<lambda>i. es (length cmds + i)) cmds'" for es
    by (induction cmds arbitrary: es) simp_all
  then show ?thesis
    using assms serve_disk [of "history (sess_envs c2) cmds'" "fst (serve (history (sess_envs c) cmds) [] (sess_store c))"
        "sess_store c2"]
    by (auto simp: carried_out_def Let_def serve_append option.map_comp o_def add.assoc)
qed

lemma replies_append:
  "replies es (cmds @ cmds') s =
     replies es cmds s @ replies (\<lambda>i. es (length cmds + i)) cmds' (snd (serve (history es cmds) [] s))"
proof (induction cmds arbitrary: es s)
  case (Cons args cmds)
  show ?case
    using Cons by (simp add: Let_def serve_store)
qed simp

lemma dispatch_logged_carried:
  assumes "dispatch_logged args c = (r, c1)"
  shows "carried_out c [args] c1" "replies (sess_envs c) [args] (sess_store c) = [r]"
    "sess_out c1 = sess_out c" "sess_sends c1 = sess_sends c"
  using assms
  by (auto simp: dispatch_logged_def carried_out_def Let_def fun_eq_iff split: option.split intro!: option.map_cong0)

text \<open>
  The outcome of a part of a connection: it has carried out the commands \<open>done\<close> of those it was
  sent; of the replies to them the bytes \<open>q\<close> at the end are missing.
\<close>

definition answered_to :: "session \<Rightarrow> string list list \<Rightarrow> bytes \<Rightarrow> session \<Rightarrow> bool" where
  "answered_to c done q c' \<longleftrightarrow> carried_out c done c'
     \<and> sess_out c' @ q = sess_out c @ concat (map Encode (replies (sess_envs c) done (sess_store c)))"

lemma answered_to_trans:
  assumes "answered_to c cmds [] c1" and "answered_to c1 cmds' q c2"
  shows "answered_to c (cmds @ cmds') q c2"
proof -
  have "sess_envs c1 = (\<lambda>i. sess_envs c (length cmds + i))"
    "sess_store c1 = snd (serve (history (sess_envs c) cmds) [] (sess_store c))"
    using assms(1) by (simp_all add: answered_to_def carried_out_def Let_def)
  then show ?thesis
    using assms carried_out_append [of c cmds c1 c1 cmds' c2]
    by (simp add: answered_to_def replies_append)
qed

lemma one_command_answered:
  assumes "dispatch_logged args c = (r, c1)" and "send_reply r c1 = (ok, c2)"
  shows "\<exists>q. answered_to c [args] q c2 \<and> (ok \<longleftrightarrow> q = [])"
proof -
  note d = dispatch_logged_carried [OF assms(1)] and s = send_reply_prefix [OF assms(2)]
  have "carried_out c [args] c2" using d(1) s(1-3) by (simp add: carried_out_def)
  with s(4) d(2,3) show ?thesis by (auto simp: answered_to_def)
qed

definition exit_of :: "status \<Rightarrow> loop_exit" where
  "exit_of st = (case st of KProtocolError e \<Rightarrow> Violation e | _ \<Rightarrow> NeedMore)"

lemma command_loop_answers:
  assumes "drain buf = (cmds, st, rest)" and "command_loop buf c = (e, rest', c')"
  shows "\<exists>done todo q. cmds = done @ todo \<and> answered_to c done q c'
      \<and> (e \<noteq> SendFailed \<longrightarrow> todo = [] \<and> q = [] \<and> rest' = rest \<and> e = exit_of st)"
    and "\<forall>i. 0 < sess_sends c i \<Longrightarrow> e \<noteq> SendFailed \<and> (\<forall>i. 0 < sess_sends c' i)"
proof -
  have "(\<exists>done todo q. cmds = done @ todo \<and> answered_to c done q c'
      \<and> (e \<noteq> SendFailed \<longrightarrow> todo = [] \<and> q = [] \<and> rest' = rest \<and> e = exit_of st))
    \<and> ((\<forall>i. 0 < sess_sends c i) \<longrightarrow> e \<noteq> SendFailed \<and> (\<forall>i. 0 < sess_sends c' i))"
    using assms
  proof (induction buf c arbitrary: cmds rule: command_loop.induct)
    case (1 buf c)
    obtain st1 r1 where t: "TryParseCommand buf = (st1, r1)" by (cases "TryParseCommand buf")
    show ?case
    proof (cases st1)
      case (KComplete args)
      obtain cmds1 where cmds: "cmds = args # cmds1" "drain r1 = (cmds1, st, rest)"
        using "1.prems"(1) by (subst (asm) drain.simps) (auto simp: t KComplete split: prod.splits)
      obtain r c1 where d: "dispatch_logged args c = (r, c1)" by (cases "dispatch_logged args c")
      obtain ok c2 where s: "send_reply r c1 = (ok, c2)" by (cases "send_reply r c1")
      obtain q where q: "answered_to c [args] q c2" "ok \<longleftrightarrow> q = []" using one_command_answered [OF d s] by blast
      have sends: "(\<forall>i. 0 < sess_sends c i) \<longrightarrow> ok \<and> (\<forall>i. 0 < sess_sends c2 i)"
        using send_reply_prefix(5,6) [OF s] dispatch_logged_carried(4) [OF d] by simp
      have loop: "command_loop buf c = (if \<not> ok then (SendFailed, r1, c2) else command_loop r1 c2)"
        by (subst command_loop.simps) (simp add: t KComplete d s)
      show ?thesis
      proof (cases ok)
        case False
        then have "e = SendFailed" "c' = c2" using "1.prems"(2) loop by auto
        then show ?thesis
          using q sends False cmds(1) by (intro conjI exI [of _ "[args]"] exI [of _ cmds1] exI [of _ q]) auto
      next
        case True
        then have next_loop: "command_loop r1 c2 = (e, rest', c')" using "1.prems"(2) loop by simp
        from "1.IH" [OF t [symmetric] KComplete d [symmetric] s [symmetric] _ cmds(2) next_loop] True
        obtain don todo q' where IH: "cmds1 = don @ todo" "answered_to c2 don q' c'"
            "e \<noteq> SendFailed \<longrightarrow> todo = [] \<and> q' = [] \<and> rest' = rest \<and> e = exit_of st"
          and pos: "(\<forall>i. 0 < sess_sends c2 i) \<longrightarrow> e \<noteq> SendFailed \<and> (\<forall>i. 0 < sess_sends c' i)"
          by auto
        have "answered_to c ([args] @ don) q' c'"
          using q True IH(2) by (intro answered_to_trans) auto
        then show ?thesis
          using IH pos sends cmds(1) by (intro conjI exI [of _ "args # don"] exI [of _ todo] exI [of _ q']) auto
      qed
    next
      case KIncomplete
      then show ?thesis using "1.prems"
        by (subst (asm) drain.simps, subst (asm) command_loop.simps) (auto simp: t exit_of_def answered_to_def)
    next
      case (KProtocolError m)
      then show ?thesis using "1.prems"
        by (subst (asm) drain.simps, subst (asm) command_loop.simps) (auto simp: t exit_of_def answered_to_def)
    qed
  qed
  then show "\<exists>done todo q. cmds = done @ todo \<and> answered_to c done q c'
      \<and> (e \<noteq> SendFailed \<longrightarrow> todo = [] \<and> q = [] \<and> rest' = rest \<and> e = exit_of st)"
    and "\<forall>i. 0 < sess_sends c i \<Longrightarrow> e \<noteq> SendFailed \<and> (\<forall>i. 0 < sess_sends c' i)"
    by blast+
qed

text \<open>The whole connection: as above, followed by \<open>p\<close>, the farewell after a protocol error or nothing.\<close>

definition conversation :: "session \<Rightarrow> string list list \<Rightarrow> bytes \<Rightarrow> bytes \<Rightarrow> session \<Rightarrow> bool" where
  "conversation c done p q c' \<longleftrightarrow> carried_out c done c'
     \<and> sess_out c' @ q = sess_out c @ concat (map Encode (replies (sess_envs c) done (sess_store c))) @ p"

lemma conversation_end: "answered_to c done q c' \<Longrightarrow> conversation c done [] q c'"
  by (simp add: answered_to_def conversation_def)

lemma conversation_farewell:
  assumes "answered_to c done [] c1" and "send_reply r c1 = (ok, c')"
  shows "\<exists>q. conversation c done (Encode r) q c' \<and> (ok \<longleftrightarrow> q = [])"
  using assms(1) send_reply_prefix(1-4) [OF assms(2)] by (auto simp: answered_to_def conversation_def carried_out_def)

lemma conversation_trans:
  assumes "answered_to c cmds [] c1" and "conversation c1 cmds' p q c2"
  shows "conversation c (cmds @ cmds') p q c2"
proof -
  have "sess_envs c1 = (\<lambda>i. sess_envs c (length cmds + i))"
    "sess_store c1 = snd (serve (history (sess_envs c) cmds) [] (sess_store c))"
    using assms(1) by (simp_all add: answered_to_def carried_out_def Let_def)
  then show ?thesis
    using assms carried_out_append [of c cmds c1 c1 cmds' c2]
    by (simp add: answered_to_def conversation_def replies_append)
qed

text \<open>A connection that was sent the commands and ended with the status \<open>st\<close> of the parser.\<close>

definition served :: "session \<Rightarrow> string list list \<Rightarrow> status \<Rightarrow> session \<Rightarrow> bool" where
  "served c cmds st c' \<longleftrightarrow>
     (\<exists>done todo p q. cmds = done @ todo \<and> conversation c done p q c'
       \<and> (p = [] \<or> todo = [] \<and> p = farewell st)
       \<and> ((\<forall>i. 0 < sess_sends c i) \<longrightarrow> todo = [] \<and> q = [] \<and> p = farewell st))"

lemma servedI:
  assumes "cmds = done @ todo" and "conversation c done p q c'" and "p = [] \<or> todo = [] \<and> p = farewell st"
    and "\<forall>i. 0 < sess_sends c i \<Longrightarrow> todo = [] \<and> q = [] \<and> p = farewell st"
  shows "served c cmds st c'"
  unfolding served_def using assms by blast

lemma served_trans:
  assumes "answered_to c cmds [] c1" and "served c1 cmds' st c'" and "\<forall>i. 0 < sess_sends c i \<Longrightarrow> \<forall>i. 0 < sess_sends c1 i"
  shows "served c (cmds @ cmds') st c'"
  using assms(2) conversation_trans [OF assms(1)] assms(3) unfolding served_def by (metis append.assoc)

lemma drain_not_complete: "drain buf = (cmds, st, rest) \<Longrightarrow> st \<noteq> KComplete args"
proof (induction buf arbitrary: cmds rule: drain.induct)
  case (1 buf)
  then show ?case by (subst (asm) (2) drain.simps) (auto split: prod.splits status.splits)
qed

lemma HandleClient_served: "receive chunks buf = (cmds, st, rest) \<Longrightarrow> served c cmds st (HandleClient chunks buf c)"
proof (induction chunks buf arbitrary: cmds c rule: receive.induct)
  case (1 buf)
  have "answered_to c [] [] c" by (simp add: answered_to_def)
  then show ?case using 1 by (intro servedI [OF _ conversation_end]) (auto simp: farewell_def)
next
  case (2 chunk chunks buf)
  obtain cmds1 st1 rest1 where d: "drain (Feed chunk buf) = (cmds1, st1, rest1)" by (cases "drain (Feed chunk buf)")
  obtain e rest2 c1 where l: "command_loop (Feed chunk buf) c = (e, rest2, c1)" by (cases "command_loop (Feed chunk buf) c")
  obtain don todo q where a: "cmds1 = don @ todo" "answered_to c don q c1"
      "e \<noteq> SendFailed \<longrightarrow> todo = [] \<and> q = [] \<and> rest2 = rest1 \<and> e = exit_of st1"
    using command_loop_answers(1) [OF d l] by blast
  note pos = command_loop_answers(2) [OF d l]
  show ?case
  proof (cases e)
    case SendFailed
    have "\<exists>cmds2. cmds = cmds1 @ cmds2" using "2.prems" d by (auto split: status.splits prod.splits)
    then obtain cmds2 where "cmds = don @ (todo @ cmds2)" using a(1) by auto
    then show ?thesis using conversation_end [OF a(2)] pos l SendFailed by (intro servedI) auto
  next
    case (Violation m)
    then have st: "st = KProtocolError m" "cmds = don" "q = []"
      using a "2.prems" d by (auto simp: exit_of_def split: status.splits prod.splits)
    obtain ok c2 where s: "send_reply (Error (''ERR Protocol error: '' @ m)) c1 = (ok, c2)"
      by (cases "send_reply (Error (''ERR Protocol error: '' @ m)) c1")
    have "answered_to c don [] c1" using a(2) st(3) by simp
    from conversation_farewell [OF this s] obtain q' where "conversation c don (farewell st) q' c2" "ok \<longleftrightarrow> q' = []"
      by (auto simp: farewell_def st)
    then show ?thesis
      using st(2) pos send_reply_prefix(5) [OF s] l s Violation by (intro servedI [of _ don "[]" _ "farewell st" q']) auto
  next
    case NeedMore
    then have n: "todo = []" "q = []" "rest2 = rest1" "\<forall>m. st1 \<noteq> KProtocolError m"
      using a(3) by (auto simp: exit_of_def split: status.splits)
    then have st1: "st1 = KIncomplete" using drain_not_complete [OF d] by (cases st1) auto
    obtain cmds2 where c2: "receive chunks rest1 = (cmds2, st, rest)" "cmds = cmds1 @ cmds2"
      using "2.prems" d st1 by (auto split: prod.splits)
    from "2.IH" [OF d [symmetric] refl st1 c2(1)] served_trans [of c don c1 cmds2 st] show ?thesis
      using a(1,2) n(1-3) c2(2) pos l NeedMore by simp
  qed
qed

section \<open>Properties\<close>

text \<open>
  C9: A connection is served like its commands in sequence. Whatever bytes arrive and however
  they are cut into chunks, the store and the log end up as if the commands the parser finds in
  the stream, or a first part of them when the connection breaks, were dispatched one after the
  other, and the client is sent the encoded replies in that order, after a protocol error
  the message and nothing more. When no send fails, all commands are carried out and every byte
  of the replies is sent.
\<close>

theorem handle_client_serves:
  assumes "receive chunks [] = (cmds, st, rest)"
  shows "\<exists>done todo p q. cmds = done @ todo
    \<and> (let c' = HandleClient chunks [] c; run = serve (history (sess_envs c) done) [] (sess_store c) in
        sess_store c' = snd run \<and> sess_log c' = map_option (\<lambda>disk. disk @ fst run) (sess_log c)
        \<and> sess_out c' @ q = sess_out c @ concat (map Encode (replies (sess_envs c) done (sess_store c))) @ p)
    \<and> (p = [] \<or> todo = [] \<and> p = farewell st)
    \<and> ((\<forall>i. 0 < sess_sends c i) \<longrightarrow> todo = [] \<and> q = [] \<and> p = farewell st)"
  using HandleClient_served [OF assms, of c]
  unfolding served_def conversation_def carried_out_def by (simp add: Let_def) blast

definition fresh_session :: session where
  "fresh_session = \<lparr>sess_store = new_store, sess_log = Some [], sess_envs = (\<lambda>_ _. still 0), sess_sends = (\<lambda>_. 3), sess_out = []\<rparr>"

theorem handle_client_serves_witness:
  "sess_out (HandleClient [''PI'', ''NG'' @ [LF] @ ''*0'' @ CRLF] [] fresh_session)
     = ''+PONG'' @ CRLF @ ''-ERR Protocol error: invalid multibulk length'' @ CRLF"
proof -
  have r: "receive [''PI'', ''NG'' @ [LF] @ ''*0'' @ CRLF] []
      = ([[''PING'']], KProtocolError ''invalid multibulk length'', ''*0'' @ CRLF)"
    by code_simp
  have "concat (map Encode (replies (\<lambda>_ _. still 0) [[''PING'']] new_store)) = ''+PONG'' @ CRLF" by code_simp
  moreover have "farewell (KProtocolError ''invalid multibulk length'')
      = ''-ERR Protocol error: invalid multibulk length'' @ CRLF" by code_simp
  ultimately show ?thesis
    using handle_client_serves [OF r, of fresh_session] by (auto simp: fresh_session_def Let_def)
qed

end
