(* ===== verification/ServerMain.thy ===== *)
theory ServerMain
  imports TcpServer Connections
begin

text \<open>
  The program: \<^verbatim>\<open>src/src/main.cpp\<close>. Command line, choice of the persistence mode, loading, serving
  and the final save, with the messages on the terminal. The signal and the threads are the subject of the theory on the
  main thread: here serving is a sequence of commands, and the shutdown follows it.
\<close>

section \<open>Command line\<close>

record options =
  opt_port :: int
  rdb_path :: string
  aof_path :: string
  opt_max_memory :: u64

definition default_options :: options where
  "default_options = \<lparr>opt_port = 6380, rdb_path = ''dump.grdb'', aof_path = [], opt_max_memory = 0\<rparr>"

text \<open>
  \<^verbatim>\<open>std::atoll\<close>: leading white space, a sign, then digits up to the first other character; zero when
  there are none. Out of range the C library saturates. \<^verbatim>\<open>std::atoi\<close> is the same cut to an \<^verbatim>\<open>int\<close>.
\<close>

definition digits_value :: "string \<Rightarrow> int" where
  "digits_value s = foldl (\<lambda>n c. n * 10 + (of_char c - 48)) 0 (takeWhile (\<lambda>c. (48 :: nat) \<le> of_char c \<and> of_char c \<le> (57 :: nat)) s)"

definition atoll :: "string \<Rightarrow> int" where
  "atoll s =
     (let t = dropWhile isspace s;
          v = (case t of
                 [] \<Rightarrow> 0
               | c # cs \<Rightarrow> if c = CHR ''-'' then - digits_value cs
                           else if c = CHR ''+'' then digits_value cs else digits_value t)
      in max (- (2 ^ 63)) (min (2 ^ 63 - 1) v))"

definition atoi :: "string \<Rightarrow> int" where
  "atoi s = wrap32 (atoll s)"

definition next_value :: "string list \<Rightarrow> string \<times> string list" where
  "next_value rest = (case rest of [] \<Rightarrow> ([], []) | v # rest' \<Rightarrow> (v, rest'))"

lemma next_value_shorter: "length (snd (next_value rest)) \<le> length rest"
  by (simp add: next_value_def split: list.split)

function parse_loop :: "string list \<Rightarrow> options \<Rightarrow> options" where
  "parse_loop [] opts = opts"
| "parse_loop (arg # rest) opts =
     (let v = fst (next_value rest); rest' = snd (next_value rest) in
      if arg = ''--port'' then parse_loop rest' (opts\<lparr>opt_port := atoi v\<rparr>)
      else if arg = ''--rdb'' then parse_loop rest' (opts\<lparr>rdb_path := v\<rparr>)
      else if arg = ''--aof'' then parse_loop rest' (opts\<lparr>aof_path := v\<rparr>)
      else if arg = ''--maxmemory'' then parse_loop rest' (opts\<lparr>opt_max_memory := word_of_int (atoll v)\<rparr>)
      else parse_loop rest opts)"
  by pat_completeness auto
termination
  by (relation "measure (\<lambda>(args, _). length args)") (auto simp: le_imp_less_Suc next_value_shorter)

definition ParseArgs :: "string list \<Rightarrow> options" where
  "ParseArgs argv = parse_loop (tl argv) default_options"

section \<open>The life of the process\<close>

text \<open>What the surroundings decide while the process starts.\<close>

record boot_env =
  boot_limit :: env
  boot_reserves :: "vec \<Rightarrow> nat \<Rightarrow> bool"
  boot_wall :: int
  boot_load :: env
  boot_replay :: "nat \<Rightarrow> nat \<Rightarrow> env"
  boot_aof_opens :: bool

text \<open>
  Up to the server: the dataset, whether a log is being written, and the files. The result is
  \<open>None\<close> when loading ends in an exception.
\<close>

definition boot :: "options \<Rightarrow> boot_env \<Rightarrow> files \<Rightarrow> (store \<times> bool \<times> files) option" where
  "boot opts b fs =
     (let s = (if opt_max_memory opts > 0 then SetMaxMemory (boot_limit b) (opt_max_memory opts) new_store else new_store) in
      if aof_path opts \<noteq> [] then
        (let s1 = snd (LoadAof (boot_replay b) s (aof_path opts) fs);
             (aof_open, fs1) = AofWriter (boot_aof_opens b) (aof_path opts) fs
         in Some (s1, aof_open, fs1))
      else
        (case LoadRdb (boot_reserves b) (boot_wall b) (boot_load b) s (rdb_path opts) fs of
           None \<Rightarrow> None
         | Some (loaded, s1) \<Rightarrow> Some (s1, False, fs)))"

text \<open>Serving a history of commands, with the log when there is one.\<close>

definition work :: "options \<Rightarrow> bool \<Rightarrow> ((nat \<Rightarrow> env) \<times> string list) list \<Rightarrow> store \<Rightarrow> files \<Rightarrow> store \<times> files" where
  "work opts aof_open hist s fs =
     (let (log_bytes, s1) = serve hist [] s in
      (s1, if aof_open then fs(aof_path opts := map_option (\<lambda>disk. disk @ log_bytes) (fs (aof_path opts))) else fs))"

definition finish :: "options \<Rightarrow> bool \<Rightarrow> env \<Rightarrow> save_env \<Rightarrow> store \<Rightarrow> files \<Rightarrow> files" where
  "finish opts aof_open e io s fs = (if aof_open then fs else snd (SaveRdb e io s (rdb_path opts) fs))"

text \<open>The exit code and the files the process leaves behind.\<close>

definition main :: "string list \<Rightarrow> boot_env \<Rightarrow> start_env \<Rightarrow> ((nat \<Rightarrow> env) \<times> string list) list \<Rightarrow> env \<Rightarrow> save_env \<Rightarrow>
    files \<Rightarrow> (int \<times> files) option" where
  "main argv b io hist e save fs =
     (let opts = ParseArgs argv in
      case boot opts b fs of
        None \<Rightarrow> None
      | Some (s, aof_open, fs1) \<Rightarrow>
          (if \<not> fst (Start io (new_process (opt_port opts))) then Some (1, fs1)
           else case work opts aof_open hist s fs1 of
             (s1, fs2) \<Rightarrow> Some (0, finish opts aof_open e save s1 fs2)))"

section \<open>Messages\<close>

datatype notice = UnknownArgument string | ReplayedLog string | NoLog string | LogNotOpened string
  | LoadedDataset string | NoDataset string | StartFailed int | Listening int | ShuttingDown
  | SavedDataset string | NotSaved string

datatype stream = Stdout | Stderr

definition dash :: string where
  "dash = [CHR 0xE2, CHR 0x80, CHR 0x94]"

fun printed :: "notice \<Rightarrow> stream \<times> string" where
  "printed (UnknownArgument arg) =
     (Stderr, ''Unknown argument: '' @ arg @ '' (expected --port, --rdb, --aof, or --maxmemory)'' @ [LF])"
| "printed (ReplayedLog path) = (Stdout, ''Replayed AOF log from '' @ path @ [LF])"
| "printed (NoLog path) =
     (Stdout, ''No existing AOF log at '' @ path @ '' (or it couldn'' @ quote_mark @ ''t be read) '' @ dash @ '' starting empty.'' @ [LF])"
| "printed (LogNotOpened path) =
     (Stderr, ''Warning: couldn'' @ quote_mark @ ''t open '' @ path @ '' for AOF logging '' @ dash
        @ '' writes won'' @ quote_mark @ ''t be persisted this run.'' @ [LF])"
| "printed (LoadedDataset path) = (Stdout, ''Loaded dataset from '' @ path @ [LF])"
| "printed (NoDataset path) =
     (Stdout, ''No existing dataset at '' @ path @ '' (or it couldn'' @ quote_mark @ ''t be loaded) '' @ dash @ '' starting empty.'' @ [LF])"
| "printed (StartFailed n) = (Stderr, ''Failed to start listening on port '' @ to_string n @ [LF])"
| "printed (Listening n) = (Stdout, ''goredis listening on port '' @ to_string n @ '' (Ctrl+C to stop)'' @ [LF])"
| "printed ShuttingDown = (Stdout, LF # ''Shutting down...'' @ [LF])"
| "printed (SavedDataset path) = (Stdout, ''Saved dataset to '' @ path @ [LF])"
| "printed (NotSaved path) = (Stderr, ''Warning: failed to save dataset to '' @ path @ [LF])"

function parse_notices :: "string list \<Rightarrow> notice list" where
  "parse_notices [] = []"
| "parse_notices (arg # rest) =
     (if arg \<in> {''--port'', ''--rdb'', ''--aof'', ''--maxmemory''} then parse_notices (snd (next_value rest))
      else UnknownArgument arg # parse_notices rest)"
  by pat_completeness auto
termination
  by (relation "measure length") (auto simp: le_imp_less_Suc next_value_shorter)

definition boot_notices :: "options \<Rightarrow> boot_env \<Rightarrow> files \<Rightarrow> notice list" where
  "boot_notices opts b fs =
     (let s = (if opt_max_memory opts > 0 then SetMaxMemory (boot_limit b) (opt_max_memory opts) new_store else new_store) in
      if aof_path opts \<noteq> [] then
        (if fst (LoadAof (boot_replay b) s (aof_path opts) fs) then ReplayedLog (aof_path opts) else NoLog (aof_path opts))
        # (if fst (AofWriter (boot_aof_opens b) (aof_path opts) fs) then [] else [LogNotOpened (aof_path opts)])
      else
        (case LoadRdb (boot_reserves b) (boot_wall b) (boot_load b) s (rdb_path opts) fs of
           None \<Rightarrow> []
         | Some (loaded, s1) \<Rightarrow> [if loaded then LoadedDataset (rdb_path opts) else NoDataset (rdb_path opts)]))"

definition finish_notices :: "options \<Rightarrow> bool \<Rightarrow> env \<Rightarrow> save_env \<Rightarrow> store \<Rightarrow> files \<Rightarrow> notice list" where
  "finish_notices opts aof_open e io s fs =
     (if aof_open then []
      else [if fst (SaveRdb e io s (rdb_path opts) fs) then SavedDataset (rdb_path opts) else NotSaved (rdb_path opts)])"

definition main_notices :: "string list \<Rightarrow> boot_env \<Rightarrow> start_env \<Rightarrow> ((nat \<Rightarrow> env) \<times> string list) list \<Rightarrow> env \<Rightarrow> save_env \<Rightarrow>
    files \<Rightarrow> notice list" where
  "main_notices argv b io hist e save fs =
     (let opts = ParseArgs argv in
      parse_notices (tl argv) @ boot_notices opts b fs @
      (case boot opts b fs of
         None \<Rightarrow> []
       | Some (s, aof_open, fs1) \<Rightarrow>
           (if \<not> fst (Start io (new_process (opt_port opts))) then [StartFailed (opt_port opts)]
            else case work opts aof_open hist s fs1 of
              (s1, fs2) \<Rightarrow> Listening (opt_port opts) # ShuttingDown # finish_notices opts aof_open e save s1 fs2)))"

section \<open>Lemmas\<close>

lemma serve_inv: "store_inv s \<Longrightarrow> store_inv (snd (serve hist disk s))"
  by (induction hist disk s rule: serve.induct) (auto simp: Let_def Dispatch_inv)

lemma main_outcome:
  assumes "main argv b io hist e save fs = Some (0, fs')" and "boot (ParseArgs argv) b fs = Some (s, aof_open, fs1)"
  shows "fs' = finish (ParseArgs argv) aof_open e save (snd (serve hist [] s)) (snd (work (ParseArgs argv) aof_open hist s fs1))"
  using assms by (simp add: main_def work_def Let_def case_prod_beta split: if_splits)

lemma boot_rdb:
  assumes "aof_path opts = []" and "opt_max_memory opts = 0"
  shows "boot opts b fs = map_option (\<lambda>(ok, s). (s, False, fs))
    (LoadRdb (boot_reserves b) (boot_wall b) (boot_load b) new_store (rdb_path opts) fs)"
  using assms by (simp add: boot_def split: option.split prod.split)

lemma boot_aof:
  assumes "aof_path opts \<noteq> []" and "opt_max_memory opts = 0"
  shows "boot opts b fs = Some (snd (LoadAof (boot_replay b) new_store (aof_path opts) fs),
    AofWriter (boot_aof_opens b) (aof_path opts) fs)"
  using assms by (simp add: boot_def case_prod_beta)

section \<open>Properties\<close>

text \<open>
  C4: A clean shutdown and a restart keep the dataset. In snapshot mode, when the process ends with
  code 0 and the disk carried out the save, the next start loads the file it left and has every
  key that was live at the end, with payload and deadline as the round trip of the file gives them,
  and no key that was not.
\<close>

theorem restart_from_snapshot:
  assumes mode: "aof_path (ParseArgs argv) = []" "opt_max_memory (ParseArgs argv) = 0"
    and first: "boot (ParseArgs argv) b fs = Some (s, aof_open, fs1)" "store_inv s"
    and ended: "main argv b io hist e save fs = Some (0, fs')" and last: "s1 = snd (serve hist [] s)"
    and clocks: "mono (clk e)" "\<forall>i. clk e i \<le> t1" "clock_fits (clk e 0)" "clock_fits (wall e 0)"
      "clock_fits (clk (boot_load b2) 0)" "clock_fits (wall (boot_load b2) 0)"
      "\<forall>k p d. keyspace_of s1 k = Some (p, Some d) \<longrightarrow> clock_fits d"
    and disk: "opens save" "write_ok save" "renames save" "reached save \<ge> length (rdb_image (Snapshot e s1))"
    and sizes: "loadable (boot_reserves b2) (Snapshot e s1)"
  shows "\<exists>s2. boot (ParseArgs argv) b2 fs' = Some (s2, False, fs')
    \<and> (\<forall>k pt. live t1 (keyspace_of s1) k = Some pt \<longrightarrow> keyspace_of s2 k = reloaded (boot_wall b2) e (boot_load b2) pt)
    \<and> (\<forall>k. live (clk e 0) (keyspace_of s1) k = None \<longrightarrow> keyspace_of s2 k = None)"
proof -
  have "aof_open = False" "fs1 = fs" using first(1) by (auto simp: boot_rdb [OF mode])
  then have fs': "fs' = snd (SaveRdb e save s1 (rdb_path (ParseArgs argv)) fs)"
    using main_outcome [OF ended first(1)] last by (simp add: finish_def work_def case_prod_beta)
  have inv: "store_inv s1" using first(2) last by (simp add: serve_inv)
  have "max_memory_bytes new_store = 0" by simp
  from save_load [OF inv this clocks disk sizes, of "rdb_path (ParseArgs argv)" fs "boot_wall b2"]
  show ?thesis by (auto simp: boot_rdb [OF mode] fs')
qed

definition example_boot :: boot_env where
  "example_boot = \<lparr>boot_limit = still 0, boot_reserves = (\<lambda>_ _. True), boot_wall = 7, boot_load = still 7,
     boot_replay = (\<lambda>_ _. still 9), boot_aof_opens = True\<rparr>"

lemma example_args:
  "ParseArgs [''goredis''] = default_options"
  "ParseArgs [''goredis'', ''--aof'', ''log''] = default_options\<lparr>aof_path := ''log''\<rparr>"
  by (simp_all add: ParseArgs_def next_value_def)

definition kept_history :: "((nat \<Rightarrow> env) \<times> string list) list" where
  "kept_history = [(\<lambda>_. still 1, [''SET'', ''k'', ''v''])]"

lemma kept_run: "snd (serve kept_history [] new_store) = Store_Set (still 1) ''k'' ''v'' new_store"
proof -
  have "ToUpper ''SET'' = ''SET''" by code_simp
  then show ?thesis by (simp add: kept_history_def Dispatch_def cmd_SET_def)
qed

lemma kept_keyspace: "keyspace_of (snd (serve kept_history [] new_store)) = [''k'' \<mapsto> (PString ''v'', None)]"
  using keyspace_unlimited(1) [OF store_inv_new] by (simp add: kept_run spec_set_def)

lemma kept_snapshot:
  "Snapshot (still 5) (snd (serve kept_history [] new_store)) =
     [\<lparr>se_key = ''k'', se_type = KString, se_str = ''v'', se_list = [], se_hash = [], se_expires_at_wall = None\<rparr>]"
  "length (rdb_image (Snapshot (still 5) (snd (serve kept_history [] new_store)))) \<le> 1000"
  by code_simp+

lemma example_main:
  assumes "boot (ParseArgs argv) b fs = Some (s, aof_open, fs1)"
  shows "\<exists>fs'. main argv b example_start hist e save fs = Some (0, fs')"
  using assms by (simp add: main_def Start_def example_start_def Let_def case_prod_beta)

theorem restart_from_snapshot_witness:
  "\<exists>fs' s2. main [''goredis''] example_boot example_start kept_history (still 5) good_disk Map.empty = Some (0, fs')
     \<and> boot default_options example_boot fs' = Some (s2, False, fs') \<and> keyspace_of s2 ''k'' = Some (PString ''v'', None)"
proof -
  let ?s1 = "snd (serve kept_history [] new_store)"
  have mode: "aof_path (ParseArgs [''goredis'']) = []" "opt_max_memory (ParseArgs [''goredis'']) = 0"
    by (simp_all add: example_args default_options_def)
  have b: "boot (ParseArgs [''goredis'']) example_boot Map.empty = Some (new_store, False, Map.empty)"
    by (simp add: boot_rdb [OF mode] LoadRdb_def)
  obtain fs' where m: "main [''goredis''] example_boot example_start kept_history (still 5) good_disk Map.empty = Some (0, fs')"
    using example_main [OF b] by blast
  have sizes: "loadable (boot_reserves example_boot) (Snapshot (still 5) ?s1)"
    unfolding kept_snapshot by (simp add: loadable_def storable_def allocates_def example_boot_def)
  have "\<exists>s2. boot (ParseArgs [''goredis'']) example_boot fs' = Some (s2, False, fs')
      \<and> (\<forall>k pt. live 5 (keyspace_of ?s1) k = Some pt \<longrightarrow>
            keyspace_of s2 k = reloaded (boot_wall example_boot) (still 5) (boot_load example_boot) pt)
      \<and> (\<forall>k. live (clk (still 5) 0) (keyspace_of ?s1) k = None \<longrightarrow> keyspace_of s2 k = None)"
    by (rule restart_from_snapshot [OF mode b store_inv_new m refl, where ?t1.0 = 5])
      (use sizes kept_snapshot(2) in \<open>auto simp: mono_def clock_fits_def example_boot_def good_disk_def kept_keyspace
          split: if_splits\<close>)
  with m show ?thesis by (auto simp: kept_keyspace reloaded_def example_args)
qed

text \<open>
  C29: In log mode the same holds without any final save: after a run that started with no log and
  served commands that set no deadline, the next start replays the log the process left and
  has the live key space of the end of the run; and the snapshot file has not been touched.
\<close>

theorem restart_from_log:
  assumes mode: "aof_path (ParseArgs argv) = path" "path \<noteq> []" "opt_max_memory (ParseArgs argv) = 0"
    and first: "boot_aof_opens b" "fs path = None"
    and ended: "main argv b io hist e save fs = Some (0, fs')"
    and clocks: "steady t hist" "after hist now" "t \<le> now" "replay_clock (boot_replay b2) t' now" "t' \<le> now"
  shows "\<exists>s2. boot (ParseArgs argv) b2 fs' = Some (s2, AofWriter (boot_aof_opens b2) path fs')
    \<and> live now (keyspace_of s2) = live now (keyspace_of (snd (serve hist [] new_store)))
    \<and> (rdb_path (ParseArgs argv) \<noteq> path \<longrightarrow> fs' (rdb_path (ParseArgs argv)) = fs (rdb_path (ParseArgs argv)))"
proof -
  let ?log = "fst (serve hist [] new_store)"
  have "boot (ParseArgs argv) b fs = Some (new_store, True, fs(path \<mapsto> []))"
    using boot_aof [of "ParseArgs argv" b fs] mode first by (simp add: LoadAof_def AofWriter_def)
  from main_outcome [OF ended this] have fs': "fs' = fs(path \<mapsto> ?log)"
    using mode(1) by (simp add: finish_def work_def case_prod_beta)
  obtain h1 h2 s' where cut: "hist = h1 @ h2" "h2 = [] \<or> length ?log < length (fst (serve (h1 @ [hd h2]) [] new_store))"
      "LoadAof (boot_replay b2) new_store path [path \<mapsto> take (length ?log) ?log] = (True, s')"
      "live now (keyspace_of s') = live now (keyspace_of (snd (serve h1 [] new_store)))"
    using replay_cut_log [OF clocks, of "length ?log"] by blast
  have "length (fst (serve (h1 @ [x]) [] new_store)) \<le> length ?log" if "h2 = x # h3" for x h3
    using serve_disk [of h3 "fst (serve (h1 @ [x]) [] new_store)" "snd (serve (h1 @ [x]) [] new_store)"]
      serve_append [of "h1 @ [x]" h3 "[]" new_store] cut(1) that by simp
  then have "h2 = []" using cut(2) by (cases h2) auto
  then have "live now (keyspace_of s') = live now (keyspace_of (snd (serve hist [] new_store)))"
    using cut(1,4) by simp
  moreover have "snd (LoadAof (boot_replay b2) new_store path fs') = s'"
    using cut(3) by (simp add: LoadAof_def fs')
  ultimately show ?thesis
    using boot_aof [of "ParseArgs argv" b2 fs'] mode by (simp add: fs')
qed

theorem restart_from_log_witness:
  "\<exists>fs' s2 w. main [''goredis'', ''--aof'', ''log''] example_boot example_start kept_history (still 5) good_disk Map.empty = Some (0, fs')
     \<and> boot (ParseArgs [''goredis'', ''--aof'', ''log'']) example_boot fs' = Some (s2, w)
     \<and> live 9 (keyspace_of s2) = [''k'' \<mapsto> (PString ''v'', None)]"
proof -
  let ?argv = "[''goredis'', ''--aof'', ''log'']"
  have mode: "aof_path (ParseArgs ?argv) = ''log''" "opt_max_memory (ParseArgs ?argv) = 0"
    by (simp_all add: example_args default_options_def)
  have "boot (ParseArgs ?argv) example_boot Map.empty = Some (new_store, True, [''log'' \<mapsto> []])"
    using boot_aof [of "ParseArgs ?argv" example_boot Map.empty] mode by (simp add: LoadAof_def AofWriter_def example_boot_def)
  from example_main [OF this] obtain fs' where
    m: "main ?argv example_boot example_start kept_history (still 5) good_disk Map.empty = Some (0, fs')" by blast
  have "plain [''SET'', ''k'', ''v'']" by code_simp
  then have "steady 0 kept_history" "after kept_history 9"
    by (simp_all add: kept_history_def frozen_def sendable_def kMaxArgs_def kMaxBulkLen_def after_def)
  from restart_from_log [OF mode(1) _ mode(2) _ _ m this, of example_boot 9] m show ?thesis
    by (auto simp: example_boot_def replay_clock_def frozen_def mono_def kept_keyspace)
qed

text \<open>
  When the log cannot be opened the process goes on without one, and then takes the absence of
  a writer at shutdown for snapshot mode: it replaces the snapshot file, which it has not loaded,
  by the dataset of the log run.
\<close>

theorem unopened_log_overwrites_snapshot:
  assumes mode: "aof_path (ParseArgs argv) \<noteq> []" "opt_max_memory (ParseArgs argv) = 0"
    and failed: "\<not> boot_aof_opens b" and io: "opens save" "write_ok save" "renames save"
    and ended: "main argv b io hist e save fs = Some (0, fs')"
  shows "fs' (rdb_path (ParseArgs argv)) = Some (take (reached save) (rdb_image (Snapshot e
     (snd (serve hist [] (snd (LoadAof (boot_replay b) new_store (aof_path (ParseArgs argv)) fs)))))))"
proof -
  have "boot (ParseArgs argv) b fs = Some (snd (LoadAof (boot_replay b) new_store (aof_path (ParseArgs argv)) fs), False, fs)"
    using boot_aof [OF mode] failed by (simp add: AofWriter_def)
  from main_outcome [OF ended this] show ?thesis
    by (simp add: finish_def SaveRdb_done [OF io] work_def)
qed

theorem unopened_log_overwrites_snapshot_witness:
  "\<exists>fs'. main [''goredis'', ''--aof'', ''log''] (example_boot\<lparr>boot_aof_opens := False\<rparr>) example_start [] (still 5) good_disk
       [''dump.grdb'' \<mapsto> rdb_image (Snapshot (still 5) (snd (serve kept_history [] new_store)))] = Some (0, fs')
     \<and> fs' ''dump.grdb'' = Some (take 1000 (rdb_image (Snapshot (still 5) new_store)))"
proof -
  let ?argv = "[''goredis'', ''--aof'', ''log'']" and ?b = "example_boot\<lparr>boot_aof_opens := False\<rparr>"
  let ?fs = "[''dump.grdb'' \<mapsto> rdb_image (Snapshot (still 5) (snd (serve kept_history [] new_store)))]"
  have mode: "aof_path (ParseArgs ?argv) \<noteq> []" "opt_max_memory (ParseArgs ?argv) = 0"
    by (simp_all add: example_args default_options_def)
  have "boot (ParseArgs ?argv) ?b ?fs = Some (new_store, False, ?fs)"
    using boot_aof [OF mode] by (simp add: LoadAof_def AofWriter_def example_args default_options_def)
  from example_main [OF this] obtain fs' where
    m: "main ?argv ?b example_start [] (still 5) good_disk ?fs = Some (0, fs')" by blast
  have "fs' (rdb_path (ParseArgs ?argv)) = Some (take (reached good_disk) (rdb_image (Snapshot (still 5)
      (snd (serve [] [] (snd (LoadAof (boot_replay ?b) new_store (aof_path (ParseArgs ?argv)) ?fs)))))))"
    by (rule unopened_log_overwrites_snapshot [OF mode _ _ _ _ m]) (simp_all add: good_disk_def)
  with m show ?thesis by (auto simp: example_args default_options_def LoadAof_def good_disk_def)
qed

text \<open>
  C38: In snapshot mode the message of the start is true, for every budget and every file. When it says that the
  dataset was loaded, there was a file with the right header and checksum; when it says that the
  process starts empty, it does, and no file has changed.
\<close>

theorem startup_message_true:
  assumes "aof_path (ParseArgs argv) = []" and "boot (ParseArgs argv) b fs = Some (s, aof_open, fs1)"
  shows "case boot_notices (ParseArgs argv) b fs of
      [LoadedDataset path] \<Rightarrow> path = rdb_path (ParseArgs argv) \<and> (\<exists>buf. fs path = Some buf \<and> checked_payload buf \<noteq> None)
    | [NoDataset path] \<Rightarrow> path = rdb_path (ParseArgs argv) \<and> keyspace_of s = Map.empty \<and> fs1 = fs
    | _ \<Rightarrow> False"
proof -
  let ?opts = "ParseArgs argv"
  let ?s = "if opt_max_memory ?opts > 0 then SetMaxMemory (boot_limit b) (opt_max_memory ?opts) new_store else new_store"
  have "keyspace_of new_store = Map.empty" by (simp add: keyspace_of_def new_store_def table_simps fun_eq_iff)
  then have "keyspace_of ?s = Map.empty"
    using evicted_from_evict [of "new_store\<lparr>max_memory_bytes := opt_max_memory ?opts\<rparr>" "rnd (boot_limit b)"] store_inv_new
    by (auto simp: SetMaxMemory_def evicted_from_def intro: map_le_antisym)
  then show ?thesis
    using assms by (auto simp: boot_def boot_notices_def LoadRdb_def split: option.splits parsed.splits)
qed

theorem startup_message_true_witness:
  "boot_notices (ParseArgs [''goredis'']) example_boot Map.empty = [NoDataset ''dump.grdb'']
    \<and> keyspace_of new_store = Map.empty"
proof -
  have mode: "aof_path (ParseArgs [''goredis'']) = []" "opt_max_memory (ParseArgs [''goredis'']) = 0"
    by (simp_all add: example_args default_options_def)
  have b: "boot (ParseArgs [''goredis'']) example_boot Map.empty = Some (new_store, False, Map.empty)"
    by (simp add: boot_rdb [OF mode] LoadRdb_def)
  moreover have "boot_notices (ParseArgs [''goredis'']) example_boot Map.empty = [NoDataset ''dump.grdb'']"
    by (simp add: boot_notices_def LoadRdb_def example_args default_options_def)
  ultimately show ?thesis using startup_message_true [OF mode(1) b] by simp
qed

text \<open>
  In log mode it is not: when the log has an error in the middle, \<^verbatim>\<open>LoadAof\<close> has already carried out the
  records before it, and the message that the process starts empty is printed over a dataset that
  is not.
\<close>

definition broken_log :: bytes where
  "broken_log = Encode (Array (map BulkString [''SET'', ''k'', ''v''])) @ ''*x'' @ CRLF"

theorem broken_log_not_empty:
  "boot_notices (ParseArgs [''goredis'', ''--aof'', ''log'']) example_boot [''log'' \<mapsto> broken_log] = [NoLog ''log'']
    \<and> (\<exists>s w. boot (ParseArgs [''goredis'', ''--aof'', ''log'']) example_boot [''log'' \<mapsto> broken_log] = Some (s, w)
         \<and> keyspace_of s ''k'' = Some (PString ''v'', None))"
proof -
  have r: "fst (replay (\<lambda>_ _. still 9) (Feed broken_log []) new_store) = False"
    "map_option str_value (HT_Get (data (snd (replay (\<lambda>_ _. still 9) (Feed broken_log []) new_store))) ''k'') = Some ''v''"
    "map_option vtype (HT_Get (data (snd (replay (\<lambda>_ _. still 9) (Feed broken_log []) new_store))) ''k'') = Some KString"
    "map_option expires_at (HT_Get (data (snd (replay (\<lambda>_ _. still 9) (Feed broken_log []) new_store))) ''k'') = Some None"
    by code_simp+
  then have "keyspace_of (snd (replay (\<lambda>_ _. still 9) (Feed broken_log []) new_store)) ''k'' = Some (PString ''v'', None)"
    by (auto simp: keyspace_of_apply abs_value_def payload_of_def)
  then show ?thesis
    using r(1) by (auto simp: boot_notices_def boot_def LoadAof_def AofWriter_def example_boot_def example_args default_options_def)
qed

end
