(* ===== verification/Rdb_Cursor.thy ===== *)
theory Rdb_Cursor
  imports Rdb
begin

text \<open>
  The reader of snapshot files as the class \<^verbatim>\<open>ByteReader\<close> has it: a buffer and a 64-bit cursor
  \<^verbatim>\<open>pos_\<close>, with the guards computed in 64 bits and every access to the buffer by index. An access outside the
  buffer is the outcome \<open>Wild\<close>. The theory on snapshot files has the reader as the bytes
  not yet read; here the loader is stated once more over the cursor, and the two are shown to agree.
\<close>

section \<open>The reader\<close>

record byte_reader =
  rd_buf :: bytes
  rd_pos :: u64

text \<open>
  A read succeeds, returns false, leaves by an exception of \<^verbatim>\<open>reserve\<close>, or reads outside the buffer. After the
  first failure the loader returns, so there is no reader any more.
\<close>

datatype 'a read_outcome = Done 'a byte_reader | Short | NoMemory | Wild

definition ByteReader :: "bytes \<Rightarrow> byte_reader" where
  "ByteReader buf = \<lparr>rd_buf = buf, rd_pos = 0\<rparr>"

abbreviation bsize :: "byte_reader \<Rightarrow> u64" where
  "bsize r \<equiv> of_nat (length (rd_buf r))"

definition cur_ReadBytes :: "u64 \<Rightarrow> byte_reader \<Rightarrow> bytes read_outcome" where
  "cur_ReadBytes len r =
     (if rd_pos r + len > bsize r then Short
      else if length (rd_buf r) < unat (rd_pos r) + unat len then Wild
      else Done (take (unat len) (drop (unat (rd_pos r)) (rd_buf r))) (r\<lparr>rd_pos := rd_pos r + len\<rparr>))"

definition cur_ReadU8 :: "byte_reader \<Rightarrow> u8 read_outcome" where
  "cur_ReadU8 r =
     (if rd_pos r + 1 > bsize r then Short
      else if length (rd_buf r) \<le> unat (rd_pos r) then Wild
      else Done (of_char (rd_buf r ! unat (rd_pos r))) (r\<lparr>rd_pos := rd_pos r + 1\<rparr>))"

text \<open>\<^verbatim>\<open>v |= static_cast<uint>(buf_[pos_ + i]) << (8 * i)\<close> for each \<open>i\<close>.\<close>

fun gather :: "byte_reader \<Rightarrow> nat list \<Rightarrow> 'a::len word \<Rightarrow> 'a word option" where
  "gather r [] v = Some v"
| "gather r (i # js) v =
     (let idx = unat (rd_pos r + of_nat i) in
      if length (rd_buf r) \<le> idx then None
      else gather r js (v OR push_bit (8 * i) (of_char (rd_buf r ! idx))))"

definition cur_ReadU32 :: "byte_reader \<Rightarrow> u32 read_outcome" where
  "cur_ReadU32 r =
     (if rd_pos r + 4 > bsize r then Short
      else case gather r [0..<4] 0 of None \<Rightarrow> Wild | Some v \<Rightarrow> Done v (r\<lparr>rd_pos := rd_pos r + 4\<rparr>))"

definition cur_ReadU64 :: "byte_reader \<Rightarrow> u64 read_outcome" where
  "cur_ReadU64 r =
     (if rd_pos r + 8 > bsize r then Short
      else case gather r [0..<8] 0 of None \<Rightarrow> Wild | Some v \<Rightarrow> Done v (r\<lparr>rd_pos := rd_pos r + 8\<rparr>))"

text \<open>Going on with what has been read.\<close>

definition and_then :: "(byte_reader \<Rightarrow> 'a read_outcome) \<Rightarrow> ('a \<Rightarrow> byte_reader \<Rightarrow> 'b read_outcome) \<Rightarrow> byte_reader \<Rightarrow> 'b read_outcome" where
  "and_then f h r = (case f r of Done x r1 \<Rightarrow> h x r1 | Short \<Rightarrow> Short | NoMemory \<Rightarrow> NoMemory | Wild \<Rightarrow> Wild)"

definition cur_ReadI64 :: "byte_reader \<Rightarrow> int read_outcome" where
  "cur_ReadI64 = and_then cur_ReadU64 (\<lambda>v. Done (sint v))"

text \<open>\<^verbatim>\<open>substr\<close> with the second guard of \<^verbatim>\<open>ReadString\<close>, in which the 32-bit length is widened.\<close>

definition cur_ReadString :: "byte_reader \<Rightarrow> string read_outcome" where
  "cur_ReadString = and_then cur_ReadU32 (\<lambda>len r.
     if rd_pos r + ucast len > bsize r then Short
     else if length (rd_buf r) < unat (rd_pos r) then Wild
     else Done (take (unat len) (drop (unat (rd_pos r)) (rd_buf r))) (r\<lparr>rd_pos := rd_pos r + ucast len\<rparr>))"

section \<open>The loader\<close>

fun cur_strings :: "nat \<Rightarrow> byte_reader \<Rightarrow> string list read_outcome" where
  "cur_strings 0 = Done []"
| "cur_strings (Suc n) = and_then cur_ReadString (\<lambda>elem. and_then (cur_strings n) (\<lambda>elems. Done (elem # elems)))"

fun cur_fields :: "nat \<Rightarrow> byte_reader \<Rightarrow> (string \<times> string) list read_outcome" where
  "cur_fields 0 = Done []"
| "cur_fields (Suc n) =
     and_then cur_ReadString (\<lambda>field. and_then cur_ReadString (\<lambda>val.
       and_then (cur_fields n) (\<lambda>fvs. Done ((field, val) # fvs))))"

definition cur_contents :: "(vec \<Rightarrow> nat \<Rightarrow> bool) \<Rightarrow> snapshot_entry \<Rightarrow> byte_reader \<Rightarrow> snapshot_entry read_outcome" where
  "cur_contents reserves entry =
     (case se_type entry of
        KList \<Rightarrow> and_then cur_ReadU32 (\<lambda>n r.
          if \<not> reserves VElems (unat n) then NoMemory
          else and_then (cur_strings (unat n)) (\<lambda>xs. Done (entry\<lparr>se_list := xs\<rparr>)) r)
      | KHash \<Rightarrow> and_then cur_ReadU32 (\<lambda>n r.
          if \<not> reserves VFields (unat n) then NoMemory
          else and_then (cur_fields (unat n)) (\<lambda>xs. Done (entry\<lparr>se_hash := xs\<rparr>)) r)
      | KString \<Rightarrow> and_then cur_ReadString (\<lambda>x. Done (entry\<lparr>se_str := x\<rparr>)))"

definition cur_ttl :: "byte_reader \<Rightarrow> int option read_outcome" where
  "cur_ttl = and_then cur_ReadU8 (\<lambda>has_ttl.
     if has_ttl = 0 then Done None
     else and_then cur_ReadI64 (\<lambda>ms. Done (Some (wrap64 (ms * ns_per_ms)))))"

definition cur_entry :: "(vec \<Rightarrow> nat \<Rightarrow> bool) \<Rightarrow> int \<Rightarrow> byte_reader \<Rightarrow> snapshot_entry option read_outcome" where
  "cur_entry reserves wall_now =
     and_then cur_ReadString (\<lambda>key. and_then cur_ReadU8 (\<lambda>ty. and_then cur_ttl (\<lambda>t.
       let already_expired = (case t of None \<Rightarrow> False | Some w \<Rightarrow> w \<le> wall_now)
       in and_then (cur_contents reserves (blank_entry key (value_type_of ty) (if already_expired then None else t)))
            (\<lambda>entry. Done (if already_expired then None else Some entry)))))"

fun cur_entries :: "(vec \<Rightarrow> nat \<Rightarrow> bool) \<Rightarrow> int \<Rightarrow> nat \<Rightarrow> byte_reader \<Rightarrow> snapshot_entry list read_outcome" where
  "cur_entries reserves wall_now 0 = Done []"
| "cur_entries reserves wall_now (Suc n) =
     and_then (cur_entry reserves wall_now) (\<lambda>kept.
       and_then (cur_entries reserves wall_now n) (\<lambda>ens. Done (case kept of None \<Rightarrow> ens | Some en \<Rightarrow> en # ens)))"

definition cur_payload :: "(vec \<Rightarrow> nat \<Rightarrow> bool) \<Rightarrow> int \<Rightarrow> byte_reader \<Rightarrow> snapshot_entry list read_outcome" where
  "cur_payload reserves wall_now =
     and_then (cur_ReadBytes 4) (\<lambda>magic. if magic \<noteq> kMagic then (\<lambda>_. Short) else
     and_then cur_ReadU32 (\<lambda>version. if version \<noteq> kFormatVersion then (\<lambda>_. Short) else
     and_then cur_ReadU64 (\<lambda>n. if \<not> reserves VEntries (unat n) then (\<lambda>_. NoMemory) else cur_entries reserves wall_now (unat n))))"

datatype load_outcome = Returns bool store | Uncaught | Undefined

definition cur_LoadRdb :: "(vec \<Rightarrow> nat \<Rightarrow> bool) \<Rightarrow> int \<Rightarrow> env \<Rightarrow> store \<Rightarrow> string \<Rightarrow> files \<Rightarrow> load_outcome" where
  "cur_LoadRdb reserves wall_now e s path fs =
     (case fs path of
        None \<Rightarrow> Returns False s
      | Some buf \<Rightarrow>
          if length buf < 24 then Returns False s
          else
            (let payload = take (length buf - 8) buf in
             case cur_ReadU64 (ByteReader (drop (length buf - 8) buf)) of
               Done stored_checksum _ \<Rightarrow>
                 if stored_checksum \<noteq> Fnv1a64 payload then Returns False s
                 else (case cur_payload reserves wall_now (ByteReader payload) of
                     Done entries _ \<Rightarrow> Returns True (LoadSnapshot e entries s)
                   | Short \<Rightarrow> Returns False s
                   | NoMemory \<Rightarrow> Uncaught
                   | Wild \<Rightarrow> Undefined)
             | Short \<Rightarrow> Returns False s
             | NoMemory \<Rightarrow> Uncaught
             | Wild \<Rightarrow> Undefined))"

section \<open>The cursor and the bytes left\<close>

text \<open>The cursor is within the buffer, and the buffer is no longer than a string can be.\<close>

definition in_bounds :: "byte_reader \<Rightarrow> bool" where
  "in_bounds r \<longleftrightarrow> length (rd_buf r) < 2 ^ 63 \<and> unat (rd_pos r) \<le> length (rd_buf r)"

definition unread :: "byte_reader \<Rightarrow> bytes" where
  "unread r = drop (unat (rd_pos r)) (rd_buf r)"

text \<open>One reader does with the cursor what another does with the bytes left.\<close>

definition tracks :: "(byte_reader \<Rightarrow> 'a read_outcome) \<Rightarrow> (bytes \<Rightarrow> 'a parsed) \<Rightarrow> bool" where
  "tracks f g \<longleftrightarrow>
     (\<forall>r. in_bounds r \<longrightarrow>
        (case g (unread r) of
           Got x rest \<Rightarrow> (\<exists>r'. f r = Done x r' \<and> in_bounds r' \<and> unread r' = rest)
         | Malformed \<Rightarrow> f r = Short
         | Throws \<Rightarrow> f r = NoMemory))"

lemma advance:
  assumes "in_bounds r" and "unat n < 2 ^ 63"
  shows "rd_pos r + n > bsize r \<longleftrightarrow> length (unread r) < unat n"
    and "unat n \<le> length (unread r) \<Longrightarrow> in_bounds (r\<lparr>rd_pos := rd_pos r + n\<rparr>) \<and> unread (r\<lparr>rd_pos := rd_pos r + n\<rparr>) = drop (unat n) (unread r)"
proof -
  have len: "length (rd_buf r) < 2 ^ 64" "unat (rd_pos r) + unat n < 2 ^ 64" using assms by (auto simp: in_bounds_def)
  have sum: "unat (rd_pos r + n) = unat (rd_pos r) + unat n" using len(2) by (simp add: unat_word_ariths)
  have size: "unat (bsize r) = length (rd_buf r)" using len(1) by (simp add: unat_of_nat)
  show "rd_pos r + n > bsize r \<longleftrightarrow> length (unread r) < unat n"
    using assms(1) by (auto simp: word_less_nat_alt sum size unread_def in_bounds_def)
  show "in_bounds (r\<lparr>rd_pos := rd_pos r + n\<rparr>) \<and> unread (r\<lparr>rd_pos := rd_pos r + n\<rparr>) = drop (unat n) (unread r)" if "unat n \<le> length (unread r)"
    using that assms(1) by (auto simp: in_bounds_def unread_def sum add.commute [of "unat (rd_pos r)"])
qed

lemma gather_unread:
  assumes "in_bounds r" and "i + k \<le> length (unread r)"
  shows "gather r [i..<i + k] v = Some (join_loop i (take k (drop i (unread r))) v)"
  using assms(2)
proof (induction k arbitrary: i v)
  case (Suc k)
  have "unat (rd_pos r + of_nat i) = unat (rd_pos r) + i"
  proof -
    have "unat (rd_pos r) + i < 2 ^ 64" using Suc.prems assms(1) by (auto simp: in_bounds_def unread_def)
    then show ?thesis by (simp add: unat_word_ariths unat_of_nat)
  qed
  moreover have "drop i (unread r) = (rd_buf r ! (unat (rd_pos r) + i)) # drop (Suc i) (unread r)"
    using Suc.prems Cons_nth_drop_Suc [of i "unread r"] by (simp add: unread_def)
  moreover have upt: "[i..<i + Suc k] = i # [Suc i..<Suc i + k]" by (simp add: upt_conv_Cons)
  ultimately show ?case
    using Suc.IH [of "Suc i"] Suc.prems unfolding upt by (simp add: Let_def) (simp add: unread_def)
qed simp

lemma gather_start:
  "in_bounds r \<Longrightarrow> k \<le> length (unread r) \<Longrightarrow> gather r [0..<k] v = Some (join_loop 0 (take k (unread r)) v)"
  using gather_unread [of r 0 k v] by simp

section \<open>Agreement\<close>

lemma tracks_Done: "tracks (Done x) (Got x)"
  by (simp add: tracks_def)

lemma tracks_fails: "tracks (\<lambda>_. Short) (\<lambda>_. Malformed)" "tracks (\<lambda>_. NoMemory) (\<lambda>_. Throws)"
  by (simp_all add: tracks_def)

lemma tracks_and_then:
  assumes f: "tracks f g" and h: "\<And>x. tracks (h x) (k x)"
  shows "tracks (and_then f h) (\<lambda>r. case g r of Got x r1 \<Rightarrow> k x r1 | Malformed \<Rightarrow> Malformed | Throws \<Rightarrow> Throws)"
  unfolding tracks_def
proof (intro allI impI)
  fix r assume r: "in_bounds r"
  show "case case g (unread r) of Got x r1 \<Rightarrow> k x r1 | Malformed \<Rightarrow> Malformed | Throws \<Rightarrow> Throws of
      Got x rest \<Rightarrow> \<exists>r'. and_then f h r = Done x r' \<and> in_bounds r' \<and> unread r' = rest
    | Malformed \<Rightarrow> and_then f h r = Short | Throws \<Rightarrow> and_then f h r = NoMemory"
  proof (cases "g (unread r)")
    case (Got x rest)
    then obtain r' where r': "f r = Done x r'" "in_bounds r'" "unread r' = rest"
      using f r by (auto simp: tracks_def dest!: spec [of _ r])
    then have run: "and_then f h r = h x r'" by (simp add: and_then_def)
    show ?thesis
      unfolding run using h [of x, unfolded tracks_def, rule_format, OF r'(2)] Got r'(3) by simp
  qed (use f r in \<open>auto simp: tracks_def and_then_def dest!: spec [of _ r]\<close>)
qed

lemma tracks_option:
  assumes "tracks f (\<lambda>r. parsed_of (g r))" and "\<And>x. tracks (h x) (k x)"
  shows "tracks (and_then f h) (\<lambda>r. case g r of None \<Rightarrow> Malformed | Some (x, r1) \<Rightarrow> k x r1)"
proof -
  have "(\<lambda>r. case g r of None \<Rightarrow> Malformed | Some (x, r1) \<Rightarrow> k x r1) =
      (\<lambda>r. case parsed_of (g r) of Got x r1 \<Rightarrow> k x r1 | Malformed \<Rightarrow> Malformed | Throws \<Rightarrow> Throws)"
    by (auto simp: parsed_of_def fun_eq_iff split: option.split)
  then show ?thesis using tracks_and_then [OF assms] by simp
qed

text \<open>The same for a continuation that is itself optional.\<close>

lemma tracks_bind:
  assumes "tracks f (\<lambda>r. parsed_of (g r))" and "\<And>x. tracks (h x) (\<lambda>r. parsed_of (k x r))"
    and "\<And>r. g' r = (case g r of None \<Rightarrow> None | Some (x, r1) \<Rightarrow> k x r1)"
  shows "tracks (and_then f h) (\<lambda>r. parsed_of (g' r))"
proof -
  have "(\<lambda>r. parsed_of (g' r)) = (\<lambda>r. case g r of None \<Rightarrow> Malformed | Some (x, r1) \<Rightarrow> parsed_of (k x r1))"
    by (auto simp: assms(3) parsed_of_def fun_eq_iff split: option.split)
  then show ?thesis using tracks_option [OF assms(1,2)] by simp
qed

lemma tracks_Some: "tracks (Done x) (\<lambda>r. parsed_of (Some (x, r)))"
  by (simp add: tracks_def parsed_of_def)

lemma unread_Cons: "unread r = c # cs \<Longrightarrow> unat (rd_pos r) < length (rd_buf r) \<and> rd_buf r ! unat (rd_pos r) = c"
  unfolding unread_def by (metis drop_eq_Nil2 list.distinct(1) not_le nth_via_drop)

lemma tracks_primitives:
  "unat len < 2 ^ 63 \<Longrightarrow> tracks (cur_ReadBytes len) (\<lambda>r. parsed_of (ReadBytes (unat len) r))"
  "tracks cur_ReadU8 (\<lambda>r. parsed_of (ReadU8 r))"
  "tracks cur_ReadU32 (\<lambda>r. parsed_of (ReadU32 r))"
  "tracks cur_ReadU64 (\<lambda>r. parsed_of (ReadU64 r))"
proof -
  show "tracks (cur_ReadBytes len) (\<lambda>r. parsed_of (ReadBytes (unat len) r))" if "unat len < 2 ^ 63"
    using advance [OF _ that] by (auto simp: tracks_def parsed_of_def ReadBytes_def cur_ReadBytes_def unread_def in_bounds_def)
  show "tracks cur_ReadU8 (\<lambda>r. parsed_of (ReadU8 r))"
    using advance [where n = 1]
    by (auto simp: tracks_def parsed_of_def ReadU8_def cur_ReadU8_def dest: unread_Cons split: list.split)
  show "tracks cur_ReadU32 (\<lambda>r. parsed_of (ReadU32 r))"
    using advance [where n = 4]
    by (auto simp: tracks_def parsed_of_def ReadU32_def cur_ReadU32_def gather_start simp del: upt_Suc)
  show "tracks cur_ReadU64 (\<lambda>r. parsed_of (ReadU64 r))"
    using advance [where n = 8]
    by (auto simp: tracks_def parsed_of_def ReadU64_def cur_ReadU64_def gather_start simp del: upt_Suc)
qed

lemma tracks_ReadI64: "tracks cur_ReadI64 (\<lambda>r. parsed_of (ReadI64 r))"
  unfolding cur_ReadI64_def
  by (rule tracks_bind [OF tracks_primitives(4) tracks_Some]) (auto simp: ReadI64_def split: option.split)

lemma tracks_ReadString: "tracks cur_ReadString (\<lambda>r. parsed_of (ReadString r))"
  unfolding cur_ReadString_def
proof (rule tracks_bind [OF tracks_primitives(3), where k = "\<lambda>len r. ReadBytes (unat len) r"])
  fix len :: u32
  have len: "unat (ucast len :: u64) = unat len" "unat len < 2 ^ 63"
    using unsigned_less [of len, where ?'a = nat] by (simp_all add: unsigned_ucast_eq take_bit_nat_eq_self)
  show "tracks (\<lambda>r. if rd_pos r + ucast len > bsize r then Short else if length (rd_buf r) < unat (rd_pos r) then Wild
      else Done (take (unat len) (drop (unat (rd_pos r)) (rd_buf r))) (r\<lparr>rd_pos := rd_pos r + ucast len\<rparr>))
    (\<lambda>r. parsed_of (ReadBytes (unat len) r))"
    using advance [where n = "ucast len"] len
    by (auto simp: tracks_def parsed_of_def ReadBytes_def unread_def in_bounds_def)
qed (auto simp: ReadString_def ReadBytes_def split: option.split)

lemma tracks_strings: "tracks (cur_strings n) (\<lambda>r. parsed_of (read_strings n r))"
proof (induction n)
  case (Suc n)
  show ?case
    unfolding cur_strings.simps
    by (rule tracks_bind [OF tracks_ReadString], rule tracks_bind [OF Suc tracks_Some], rule refl)
      (auto split: option.split)
qed (simp add: tracks_Some)

lemma tracks_fields: "tracks (cur_fields n) (\<lambda>r. parsed_of (read_fields n r))"
proof (induction n)
  case (Suc n)
  show ?case
    unfolding cur_fields.simps
    by (rule tracks_bind [OF tracks_ReadString], rule tracks_bind [OF tracks_ReadString], rule tracks_bind [OF Suc tracks_Some], rule refl, rule refl)
      (auto split: option.split)
qed (simp add: tracks_Some)

lemma tracks_if: "tracks f g \<Longrightarrow> tracks f' g' \<Longrightarrow> tracks (if b then f else f') (\<lambda>r. if b then g r else g' r)"
  by (cases b) simp_all

lemma tracks_if_at: "tracks f g \<Longrightarrow> tracks f' g' \<Longrightarrow> tracks (\<lambda>r. if b then f r else f' r) (\<lambda>r. if b then g r else g' r)"
  by (cases b) simp_all

lemma tracks_map:
  "tracks f (\<lambda>r. parsed_of (g r)) \<Longrightarrow> tracks (and_then f (\<lambda>x. Done (h x))) (\<lambda>r. parsed_of (map_option (\<lambda>(x, r1). (h x, r1)) (g r)))"
  by (rule tracks_bind [OF _ tracks_Some]) (auto split: option.split)

lemma tracks_contents: "tracks (cur_contents reserves entry) (read_contents reserves entry)"
proof (cases "se_type entry")
  case KString
  then show ?thesis
    using tracks_map [OF tracks_ReadString, of "\<lambda>x. entry\<lparr>se_str := x\<rparr>"] by (simp add: cur_contents_def read_contents_def [abs_def])
next
  case KList
  then show ?thesis
    unfolding cur_contents_def read_contents_def [abs_def]
    by simp (intro tracks_option tracks_primitives tracks_if_at tracks_fails tracks_map tracks_strings)
next
  case KHash
  then show ?thesis
    unfolding cur_contents_def read_contents_def [abs_def]
    by simp (intro tracks_option tracks_primitives tracks_if_at tracks_fails tracks_map tracks_fields)
qed

lemma tracks_ttl: "tracks cur_ttl (\<lambda>r. parsed_of (read_ttl r))"
  unfolding cur_ttl_def
proof (rule tracks_bind [OF tracks_primitives(2)])
  show "tracks (if b = 0 then Done None else and_then cur_ReadI64 (\<lambda>ms. Done (Some (wrap64 (ms * ns_per_ms)))))
     (\<lambda>r. parsed_of (if b = 0 then Some (None, r) else map_option (\<lambda>(ms, r1). (Some (wrap64 (ms * ns_per_ms)), r1)) (ReadI64 r)))" for b :: u8
    by (simp add: tracks_Some tracks_map [OF tracks_ReadI64])
qed (auto simp: read_ttl_def split: option.split)

lemma tracks_entry: "tracks (cur_entry reserves wall_now) (read_entry reserves wall_now)"
  unfolding cur_entry_def read_entry_def [abs_def] Let_def
  by (intro tracks_option tracks_ReadString tracks_primitives tracks_ttl tracks_and_then tracks_contents tracks_Done)

lemma tracks_entries: "tracks (cur_entries reserves wall_now n) (read_entries reserves wall_now n)"
proof (induction n)
  case 0
  have "read_entries reserves wall_now 0 = Got []" by auto
  then show ?case by (simp add: tracks_Done)
next
  case (Suc n)
  show ?case
    unfolding cur_entries.simps read_entries.simps [abs_def]
    by (intro tracks_and_then tracks_entry Suc tracks_Done)
qed

lemma tracks_payload: "tracks (cur_payload reserves wall_now) (read_payload reserves wall_now)"
proof -
  have "length kMagic = unat (4 :: u64)" by (simp add: kMagic_def)
  then show ?thesis
    unfolding cur_payload_def read_payload_def [abs_def]
    by (simp only:) (intro tracks_option tracks_primitives tracks_if tracks_fails tracks_entries, simp)
qed

lemma ByteReader_start [simp]: "length buf < 2 ^ 63 \<Longrightarrow> in_bounds (ByteReader buf)" "unread (ByteReader buf) = buf"
  by (simp_all add: in_bounds_def unread_def ByteReader_def)

section \<open>Properties\<close>

text \<open>
  C21: The snapshot loader never reads outside its buffer, whatever is in the file, and its 64-bit
  cursor never wraps: with the guards computed on the cursor, \<^verbatim>\<open>LoadRdb\<close> does exactly what the reader over the
  bytes not yet read does. So the round trip and the detection of damage, which are stated of that
  reader, hold of this one. (For every file shorter than \<open>2\<^sup>6\<^sup>3\<close> bytes.)
\<close>

theorem cursor_loads:
  assumes "\<And>buf. fs path = Some buf \<Longrightarrow> length buf < 2 ^ 63"
  shows "cur_LoadRdb reserves wall_now e s path fs =
    (case LoadRdb reserves wall_now e s path fs of None \<Rightarrow> Uncaught | Some (ok, s') \<Rightarrow> Returns ok s')"
proof (cases "fs path")
  case (Some buf)
  let ?payload = "take (length buf - 8) buf" and ?sum = "drop (length buf - 8) buf"
  have small: "length ?payload < 2 ^ 63" "length ?sum < 2 ^ 63" using assms [OF Some] by simp_all
  have "case parsed_of (ReadU64 ?sum) of
      Got x rest \<Rightarrow> \<exists>r'. cur_ReadU64 (ByteReader ?sum) = Done x r' \<and> in_bounds r' \<and> unread r' = rest
    | Malformed \<Rightarrow> cur_ReadU64 (ByteReader ?sum) = Short | Throws \<Rightarrow> cur_ReadU64 (ByteReader ?sum) = NoMemory"
    using tracks_primitives(4) [unfolded tracks_def, rule_format, OF ByteReader_start(1) [OF small(2)]] by simp
  moreover have "case read_payload reserves wall_now ?payload of
      Got x rest \<Rightarrow> \<exists>r'. cur_payload reserves wall_now (ByteReader ?payload) = Done x r' \<and> in_bounds r' \<and> unread r' = rest
    | Malformed \<Rightarrow> cur_payload reserves wall_now (ByteReader ?payload) = Short
    | Throws \<Rightarrow> cur_payload reserves wall_now (ByteReader ?payload) = NoMemory"
    using tracks_payload [unfolded tracks_def, rule_format, OF ByteReader_start(1) [OF small(1)]] by simp
  ultimately show ?thesis
    using Some
    by (auto simp: cur_LoadRdb_def LoadRdb_def checked_payload_def parsed_of_def Let_def split: option.splits parsed.splits)
qed (simp add: cur_LoadRdb_def LoadRdb_def)

definition greeting :: snapshot_entry where
  "greeting = (blank_entry ''k'' KString None)\<lparr>se_str := ''hi''\<rparr>"

lemma greeting_image: "length (rdb_image [greeting]) < 2 ^ 63" "loadable (\<lambda>_ _. True) [greeting]"
proof -
  have "length (rdb_image [greeting]) = 37" by code_simp
  then show "length (rdb_image [greeting]) < 2 ^ 63" by simp
  show "loadable (\<lambda>_ _. True) [greeting]" by (simp add: loadable_def greeting_def blank_entry_def storable_def allocates_def)
qed

theorem cursor_loads_witness:
  "cur_LoadRdb (\<lambda>_ _. True) 5 (still 0) new_store ''dump.rdb'' [''dump.rdb'' \<mapsto> rdb_image [greeting]]
     = Returns True (LoadSnapshot (still 0) [filed greeting] new_store)"
proof -
  let ?fs = "[''dump.rdb'' \<mapsto> rdb_image [greeting]]"
  have "LoadRdb (\<lambda>_ _. True) 5 (still 0) new_store ''dump.rdb'' ?fs = Some (True, LoadSnapshot (still 0) [filed greeting] new_store)"
    using LoadRdb_image [of ?fs "''dump.rdb''" "[greeting]" "\<lambda>_ _. True" 5 "still 0" new_store] greeting_image(2)
    by (simp add: past_def greeting_def blank_entry_def)
  then show ?thesis
    using cursor_loads [of ?fs "''dump.rdb''" "\<lambda>_ _. True" 5 "still 0" new_store] greeting_image(1) by simp
qed

end
