(* ===== verification/Append_Lock.thy ===== *)
theory Append_Lock
  imports Aof Thread_Runs
begin

text \<open>
  The log writer shared by the client threads: the class \<^verbatim>\<open>AofWriter\<close> of \<^verbatim>\<open>src/src/server/aof.h\<close> and
  \<^verbatim>\<open>aof.cpp\<close> with its descriptor and its mutex. Here every system call of \<^verbatim>\<open>Append\<close> is a step of its
  own, and steps of several threads come in any order the mutex allows. The result is that the calls
  come out as if each had been made alone, which is how the other theories have them.
\<close>

section \<open>The writer\<close>

text \<open>A thread between calls, waiting for \<^verbatim>\<open>mu_\<close>, in the write loop, before \<^verbatim>\<open>fsync\<close>, or with the result.\<close>

datatype call_phase =
    Outside
  | Waiting "string list"
  | Writing "string list" bytes
  | Syncing "string list"
  | Returned bool

record writer =
  fd :: int
  mu :: "nat option"
  call_of :: "nat \<Rightarrow> call_phase"
  contents :: bytes

text \<open>The constructor, with the answer of \<^verbatim>\<open>open\<close>; \<^verbatim>\<open>IsOpen\<close>; the destructor, on the set of open descriptors.\<close>

definition writer_new :: "int \<Rightarrow> bytes \<Rightarrow> writer" where
  "writer_new opened old = \<lparr>fd = opened, mu = None, call_of = (\<lambda>_. Outside), contents = old\<rparr>"

definition IsOpen :: "writer \<Rightarrow> bool" where
  "IsOpen w = (fd w \<ge> 0)"

definition writer_del :: "writer \<Rightarrow> int set \<Rightarrow> int set" where
  "writer_del w fds = (if fd w \<ge> 0 then fds - {fd w} else fds)"

datatype call_action =
    Call nat "string list"
  | Lock nat
  | WriteCall nat write_result
  | Fsync nat bool
  | Return nat

definition encoded :: "string list \<Rightarrow> bytes" where
  "encoded args = Encode (Array (map BulkString args))"

text \<open>The loop condition \<^verbatim>\<open>remaining > 0\<close>.\<close>

definition loop_or_sync :: "string list \<Rightarrow> bytes \<Rightarrow> call_phase" where
  "loop_or_sync args rest = (if rest = [] then Syncing args else Writing args rest)"

fun append_step :: "call_action \<Rightarrow> writer \<Rightarrow> writer option" where
  "append_step (Call th args) w =
     (if call_of w th \<noteq> Outside then None
      else Some (w\<lparr>call_of := (call_of w)(th := if fd w < 0 then Returned False else Waiting args)\<rparr>))"
| "append_step (Lock th) w =
     (case call_of w th of
        Waiting args \<Rightarrow>
          (if mu w \<noteq> None then None
           else Some (w\<lparr>mu := Some th, call_of := (call_of w)(th := loop_or_sync args (encoded args))\<rparr>))
      | _ \<Rightarrow> None)"
| "append_step (WriteCall th res) w =
     (case call_of w th of
        Writing args rest \<Rightarrow>
          (case res of
             Wrote n \<Rightarrow>
               (if length rest < n then None
                else Some (w\<lparr>contents := contents w @ take n rest,
                             call_of := (call_of w)(th := loop_or_sync args (drop n rest))\<rparr>))
           | Interrupted \<Rightarrow> Some w
           | WriteError \<Rightarrow> Some (w\<lparr>mu := None, call_of := (call_of w)(th := Returned False)\<rparr>))
      | _ \<Rightarrow> None)"
| "append_step (Fsync th ok) w =
     (case call_of w th of
        Syncing args \<Rightarrow> Some (w\<lparr>mu := None, call_of := (call_of w)(th := Returned ok)\<rparr>)
      | _ \<Rightarrow> None)"
| "append_step (Return th) w =
     (case call_of w th of
        Returned ok \<Rightarrow> Some (w\<lparr>call_of := (call_of w)(th := Outside)\<rparr>)
      | _ \<Rightarrow> None)"

section \<open>Calls as single events\<close>

datatype append_event = Appended nat "string list" bool

text \<open>A call takes effect when it gives the mutex back.\<close>

fun released :: "call_action \<Rightarrow> writer \<Rightarrow> append_event list" where
  "released (WriteCall th WriteError) w = (case call_of w th of Writing args rest \<Rightarrow> [Appended th args False] | _ \<Rightarrow> [])"
| "released (Fsync th ok) w = (case call_of w th of Syncing args \<Rightarrow> [Appended th args ok] | _ \<Rightarrow> [])"
| "released _ w = []"

text \<open>What the call does to the file when nobody else is there.\<close>

fun alone :: "append_event \<Rightarrow> bytes \<Rightarrow> bytes \<Rightarrow> bool" where
  "alone (Appended th args ok) d d' \<longleftrightarrow> (\<exists>ws synced. Append True ws synced args d = Some (ok, d'))"

text \<open>
  Only the holder of the mutex is in the middle of a call, and what it has written so far is the
  beginning of its record, behind the contents \<open>d\<close> it found.
\<close>

definition only_holder :: "writer \<Rightarrow> bool" where
  "only_holder w \<longleftrightarrow>
     (\<forall>th. mu w \<noteq> Some th \<longrightarrow> (case call_of w th of Writing _ _ \<Rightarrow> False | Syncing _ \<Rightarrow> False | _ \<Rightarrow> True))"

fun partial_record :: "call_phase \<Rightarrow> bytes \<Rightarrow> bytes \<Rightarrow> bool" where
  "partial_record (Writing args rest) d cs \<longleftrightarrow> rest \<noteq> [] \<and> (\<exists>p. p @ rest = encoded args \<and> cs = d @ p)"
| "partial_record (Syncing args) d cs \<longleftrightarrow> cs = d @ encoded args"
| "partial_record _ d cs \<longleftrightarrow> False"

definition mid_call :: "writer \<Rightarrow> bytes \<Rightarrow> bool" where
  "mid_call w d \<longleftrightarrow>
     only_holder w \<and> (case mu w of None \<Rightarrow> contents w = d | Some th \<Rightarrow> partial_record (call_of w th) d (contents w))"

lemma partial_loop: "p @ rest = encoded args \<Longrightarrow> partial_record (loop_or_sync args rest) d (d @ p)"
  by (auto simp: loop_or_sync_def)

lemma write_loop_nonempty:
  "dat \<noteq> [] \<Longrightarrow> write_loop (Wrote n # ws) dat d = write_loop ws (drop n dat) (d @ take n dat)"
  by (cases dat) simp_all

lemma alone_success: "alone (Appended th args ok) d (d @ encoded args)"
proof -
  have "write_loop [Wrote (length (encoded args))] (encoded args) d = Some (True, d @ encoded args)"
    by (cases "encoded args") simp_all
  then show ?thesis
    by (auto simp: Append_def encoded_def intro!: exI [of _ "[Wrote (length (encoded args))]"] exI [of _ ok])
qed

lemma alone_failure:
  assumes "p @ rest = encoded args" and "rest \<noteq> []"
  shows "alone (Appended th args False) d (d @ p)"
proof -
  have "write_loop [Wrote (length p), WriteError] (encoded args) d = Some (False, d @ p)"
    using assms(2) unfolding assms(1) [symmetric] by (cases rest) (simp_all add: write_loop_nonempty)
  then show ?thesis
    by (auto simp: Append_def encoded_def intro!: exI [of _ "[Wrote (length p), WriteError]"])
qed

lemma mid_call_step:
  assumes rel: "mid_call w d" and step: "append_step a w = Some w'"
  shows "\<exists>d'. explains alone (released a w) d d' \<and> mid_call w' d'"
proof (cases a)
  case (Call th args)
  with rel step have "mid_call w' d"
    by (cases "mu w") (auto simp: mid_call_def only_holder_def split: if_splits)
  with Call show ?thesis by simp
next
  case (Lock th)
  with step obtain args where w: "call_of w th = Waiting args" "mu w = None"
    "w' = w\<lparr>mu := Some th, call_of := (call_of w)(th := loop_or_sync args (encoded args))\<rparr>"
    by (auto split: call_phase.splits if_splits)
  with rel partial_loop [of "[]" "encoded args" args d] have "mid_call w' d" by (auto simp: mid_call_def only_holder_def)
  with Lock show ?thesis by simp
next
  case (WriteCall th res)
  with step obtain args rest where w: "call_of w th = Writing args rest" by (auto split: call_phase.splits)
  with rel have held: "mu w = Some th" by (force simp: mid_call_def only_holder_def)
  with rel w obtain p where p: "rest \<noteq> []" "p @ rest = encoded args" "contents w = d @ p" by (auto simp: mid_call_def)
  show ?thesis
  proof (cases res)
    case (Wrote n)
    with WriteCall step w have "w' = w\<lparr>contents := contents w @ take n rest, call_of := (call_of w)(th := loop_or_sync args (drop n rest))\<rparr>"
      by (auto split: if_splits)
    moreover have "partial_record (loop_or_sync args (drop n rest)) d (d @ p @ take n rest)"
      using p(2) by (intro partial_loop) simp
    ultimately have "mid_call w' d" using rel held p(3) by (auto simp: mid_call_def only_holder_def)
    with WriteCall Wrote show ?thesis by simp
  next
    case Interrupted
    with WriteCall step w rel show ?thesis by auto
  next
    case WriteError
    with WriteCall step w have "w' = w\<lparr>mu := None, call_of := (call_of w)(th := Returned False)\<rparr>" by simp
    then have "mid_call w' (d @ p)" using rel held p(3) by (auto simp: mid_call_def only_holder_def)
    then show ?thesis
      using WriteCall WriteError w alone_failure [OF p(2,1)] by (intro exI [of _ "d @ p"]) simp
  qed
next
  case (Fsync th ok)
  with step obtain args where w: "call_of w th = Syncing args" "w' = w\<lparr>mu := None, call_of := (call_of w)(th := Returned ok)\<rparr>"
    by (auto split: call_phase.splits)
  with rel have held: "mu w = Some th" by (force simp: mid_call_def only_holder_def)
  with rel w have "mid_call w' (d @ encoded args)" by (auto simp: mid_call_def only_holder_def)
  then show ?thesis using Fsync w(1) alone_success by (intro exI [of _ "d @ encoded args"]) simp
next
  case (Return th)
  with step obtain ok where w: "call_of w th = Returned ok" "w' = w\<lparr>call_of := (call_of w)(th := Outside)\<rparr>"
    by (auto split: call_phase.splits)
  with rel have "mid_call w' d" by (cases "mu w") (auto simp: mid_call_def only_holder_def)
  with Return show ?thesis by simp
qed

interpretation one_by_one: simulation append_step released alone mid_call
  by unfold_locales (rule mid_call_step)

section \<open>Properties\<close>

text \<open>
  C22: Concurrent calls of \<^verbatim>\<open>Append\<close> do not mix their bytes. However the \<^verbatim>\<open>write\<close> calls of several threads
  are cut up, interrupted and ordered, the file is at every moment the result of the calls that have given the
  mutex back, each as if made alone and in that order, followed by the beginning of the record of
  the one call that holds it, if any.
\<close>

theorem appends_do_not_mix:
  assumes "steps append_step as (writer_new opened old) = Some w"
  shows "\<exists>d part. explains alone (trace append_step released as (writer_new opened old)) old d
    \<and> contents w = d @ part
    \<and> (case mu w of
         None \<Rightarrow> part = []
       | Some th \<Rightarrow> (\<exists>args rest. call_of w th = loop_or_sync args rest \<and> part @ rest = encoded args))"
proof -
  have "mid_call (writer_new opened old) old" by (simp add: mid_call_def only_holder_def writer_new_def)
  from one_by_one.sim_steps [OF assms this] obtain d
    where d: "explains alone (trace append_step released as (writer_new opened old)) old d" "mid_call w d" by blast
  show ?thesis
  proof (cases "mu w")
    case None
    with d show ?thesis by (auto simp: mid_call_def)
  next
    case (Some th)
    with d(2) have "partial_record (call_of w th) d (contents w)" by (simp add: mid_call_def)
    then obtain part args rest where "contents w = d @ part" "call_of w th = loop_or_sync args rest" "part @ rest = encoded args"
      by (cases "call_of w th") (force simp: loop_or_sync_def)+
    with d(1) Some show ?thesis by auto
  qed
qed

definition two_calls :: "call_action list" where
  "two_calls = [Call 0 [''FLUSHALL''], Call 1 [''DEL'', ''k''], Lock 1, WriteCall 1 (Wrote 5), WriteCall 1 Interrupted,
     WriteCall 1 (Wrote 15), Fsync 1 True, Lock 0, WriteCall 0 (Wrote 3)]"

theorem appends_do_not_mix_witness:
  "\<exists>w d part. steps append_step two_calls (writer_new 3 []) = Some w
     \<and> explains alone [Appended 1 [''DEL'', ''k''] True] [] d \<and> contents w = d @ part \<and> part = ''*1'' @ [CHR 0x0D]"
proof -
  have run: "map_option (\<lambda>w. (mu w, call_of w 0, contents w)) (steps append_step two_calls (writer_new 3 []))
      = Some (Some 0, Writing [''FLUSHALL''] (drop 3 (encoded [''FLUSHALL''])),
          encoded [''DEL'', ''k''] @ ''*1'' @ [CHR 0x0D])" by code_simp
  have events: "trace append_step released two_calls (writer_new 3 []) = [Appended 1 [''DEL'', ''k''] True]" by code_simp
  obtain w where w: "steps append_step two_calls (writer_new 3 []) = Some w" "mu w = Some 0"
    "contents w = encoded [''DEL'', ''k''] @ ''*1'' @ [CHR 0x0D]" "call_of w 0 = Writing [''FLUSHALL''] (drop 3 (encoded [''FLUSHALL'']))"
    using run by (auto simp del: steps.simps)
  have flush: "encoded [''FLUSHALL''] = (''*1'' @ [CHR 0x0D]) @ drop 3 (encoded [''FLUSHALL''])" "drop 3 (encoded [''FLUSHALL'']) \<noteq> []"
    by code_simp+
  from appends_do_not_mix [OF w(1)] obtain d part where d: "explains alone [Appended 1 [''DEL'', ''k''] True] [] d"
    "contents w = d @ part" "\<exists>args rest. call_of w 0 = loop_or_sync args rest \<and> part @ rest = encoded args"
    unfolding events w(2) option.case by blast
  then have "part @ drop 3 (encoded [''FLUSHALL'']) = (''*1'' @ [CHR 0x0D]) @ drop 3 (encoded [''FLUSHALL''])"
    using w(4) flush by (auto simp: loop_or_sync_def split: if_splits)
  then have "part = ''*1'' @ [CHR 0x0D]" by blast
  with w(1) d(1,2) show ?thesis by blast
qed

end
