(* ===== verification/Concurrent_Commands.thy ===== *)
theory Concurrent_Commands
  imports Thread_Runs Aof
begin

text \<open>
  Commands of several clients at the same time. A command is a sequence of critical sections of the
  store and of the log, and between two of them anything else may happen. Most commands have one section
  of the store. A read that has met expired keys under the shared lock comes back for each of them
  under the exclusive one. \<^verbatim>\<open>SET\<close> with \<^verbatim>\<open>EX\<close> is \<^verbatim>\<open>Set\<close> and then \<^verbatim>\<open>Expire\<close>. A write is followed by \<^verbatim>\<open>Append\<close> when
  there is a log, and only then is the reply sent.

  The clock stands still during one section and never goes back. The recency stamps that
  overlapping readers write are the subject of the theory on interleavings; a read is one section here.
\<close>

section \<open>The sections of a command\<close>

text \<open>What a client's thread has left to do, with the request and the reply it will send.\<close>

datatype client_phase =
    Ready
  | Removing "string list" resp_value "string list"
  | Expiring "string list" resp_value string int
  | Appending "string list" resp_value
  | Replying "string list" resp_value

definition stale :: "env \<Rightarrow> string \<Rightarrow> store \<Rightarrow> string list" where
  "stale e k s = (case HT_Get (data s) k of None \<Rightarrow> [] | Some v \<Rightarrow> if IsExpired (clk e 0) v then [k] else [])"

text \<open>The keys a read has found expired when it releases the shared lock.\<close>

fun stale_keys :: "env \<Rightarrow> command \<Rightarrow> store \<Rightarrow> string list" where
  "stale_keys e (CGet k) s = stale e k s"
| "stale_keys e (CExists ks) s = snd (exists_scan (clk e) ks s)"
| "stale_keys e (CKeys pat) s = expired_entries (clk e) (HT_entries (data s))"
| "stale_keys e (CTtl k) s = stale e k s"
| "stale_keys e (CLLen k) s = stale e k s"
| "stale_keys e (CLRange k a b) s = stale e k s"
| "stale_keys e (CHGet k f) s = stale e k s"
| "stale_keys e (CHGetAll k) s = stale e k s"
| "stale_keys e (CHLen k) s = stale e k s"
| "stale_keys e (CHExists k f) s = stale e k s"
| "stale_keys e (CHKeys k) s = stale e k s"
| "stale_keys e (CHVals k) s = stale e k s"
| "stale_keys e _ s = []"

definition after_section :: "string list \<Rightarrow> outcome \<Rightarrow> client_phase" where
  "after_section args out = (case logged out of None \<Rightarrow> Replying args (reply out) | Some args' \<Rightarrow> Appending args' (reply out))"

definition split_section :: "env \<Rightarrow> string list \<Rightarrow> store \<Rightarrow> resp_value + command \<Rightarrow> outcome \<Rightarrow> client_phase \<times> store" where
  "split_section e args s parsed out =
     (case parsed of
        Inl err \<Rightarrow> (Replying args err, s)
      | Inr (CSetEx k v n) \<Rightarrow> (Expiring args ok_reply k n, Store_Set e k v s)
      | Inr c \<Rightarrow>
          if stale_keys e c s = [] then (after_section args out, new_state out)
          else (Removing args (reply out) (stale_keys e c s), s))"

definition first_section :: "env \<Rightarrow> string list \<Rightarrow> store \<Rightarrow> client_phase \<times> store" where
  "first_section e args s = split_section e args s (parse_command args) (Dispatch (\<lambda>_. e) args s)"

text \<open>A command whose remaining sections follow at once.\<close>

fun complete_command :: "env \<Rightarrow> client_phase \<times> store \<Rightarrow> outcome option" where
  "complete_command e (Ready, s) = None"
| "complete_command e (Removing args r ks, s) = Some \<lparr>reply = r, logged = None, new_state = SweepDelete (clk e) ks s\<rparr>"
| "complete_command e (Expiring args r k n, s) = Some \<lparr>reply = r, logged = Some args, new_state = snd (Expire e k n s)\<rparr>"
| "complete_command e (Appending args r, s) = Some \<lparr>reply = r, logged = Some args, new_state = s\<rparr>"
| "complete_command e (Replying args r, s) = Some \<lparr>reply = r, logged = None, new_state = s\<rparr>"

section \<open>Clients side by side\<close>

text \<open>
  \<open>instant\<close> is the latest reading of the clock, \<open>phase_of\<close> where each client's thread is, \<open>log_open\<close>
  whether there is a log and \<open>disk\<close> its bytes.
\<close>

record shared =
  kv :: store
  instant :: int
  phase_of :: "nat \<Rightarrow> client_phase"
  log_open :: bool
  disk :: bytes

datatype section_action =
    Enter nat int "nat \<Rightarrow> nat \<Rightarrow> nat" "string list"
  | RemoveKey nat int
  | SetDeadline nat int
  | AppendRecord nat "write_result list" bool
  | SendReply nat
  | SweepKeys int "string list"

definition at_instant :: "int \<Rightarrow> (nat \<Rightarrow> nat \<Rightarrow> nat) \<Rightarrow> env" where
  "at_instant t draws = \<lparr>clk = (\<lambda>_. t), wall = (\<lambda>_. t), rnd = draws\<rparr>"

text \<open>\<^verbatim>\<open>if (aof != nullptr)\<close>.\<close>

fun log_if_open :: "bool \<Rightarrow> client_phase \<Rightarrow> client_phase" where
  "log_if_open opened (Appending args r) = (if opened then Appending args r else Replying args r)"
| "log_if_open opened p = p"

definition enter_section :: "nat \<Rightarrow> int \<Rightarrow> (nat \<Rightarrow> nat \<Rightarrow> nat) \<Rightarrow> string list \<Rightarrow> shared \<Rightarrow> shared" where
  "enter_section th t draws args c =
     (let (p, s) = first_section (at_instant t draws) args (kv c)
      in c\<lparr>kv := s, instant := t, phase_of := (phase_of c)(th := log_if_open (log_open c) p)\<rparr>)"

fun concurrently :: "section_action \<Rightarrow> shared \<Rightarrow> shared option" where
  "concurrently (Enter th t draws args) c =
     (if phase_of c th = Ready \<and> instant c \<le> t \<and> args \<noteq> [] then Some (enter_section th t draws args c) else None)"
| "concurrently (RemoveKey th t) c =
     (if t < instant c then None
      else case phase_of c th of
        Removing args r (k # ks) \<Rightarrow>
          Some (c\<lparr>kv := snd (DeleteIfExpired t k (kv c)), instant := t,
            phase_of := (phase_of c)(th := if ks = [] then Replying args r else Removing args r ks)\<rparr>)
      | _ \<Rightarrow> None)"
| "concurrently (SetDeadline th t) c =
     (if t < instant c then None
      else case phase_of c th of
        Expiring args r k n \<Rightarrow>
          Some (c\<lparr>kv := snd (Expire (at_instant t (\<lambda>_ i. i)) k n (kv c)), instant := t,
            phase_of := (phase_of c)(th := log_if_open (log_open c) (Appending args r))\<rparr>)
      | _ \<Rightarrow> None)"
| "concurrently (AppendRecord th ws synced) c =
     (case phase_of c th of
        Appending args r \<Rightarrow>
          (case Append True ws synced args (disk c) of
             None \<Rightarrow> None
           | Some (ok, disk') \<Rightarrow> Some (c\<lparr>disk := disk', phase_of := (phase_of c)(th := Replying args r)\<rparr>))
      | _ \<Rightarrow> None)"
| "concurrently (SendReply th) c =
     (case phase_of c th of
        Replying args r \<Rightarrow> Some (c\<lparr>phase_of := (phase_of c)(th := Ready)\<rparr>)
      | _ \<Rightarrow> None)"
| "concurrently (SweepKeys t ks) c =
     (if t < instant c then None else Some (c\<lparr>kv := SweepDelete (\<lambda>_. t) ks (kv c), instant := t\<rparr>))"

section \<open>What is observed\<close>

text \<open>
  A command takes effect when its first section ends, with the reply it will get; the deadline of \<^verbatim>\<open>SET\<close>
  with \<^verbatim>\<open>EX\<close> takes effect of its own. A record is written, and a reply is sent.
\<close>

datatype event =
    Effect nat int "string list" resp_value
  | Deadline nat int string int
  | Recorded nat "string list" bool
  | Replied nat "string list" resp_value

text \<open>The request a thread works on with the reply it has decided on.\<close>

fun in_flight :: "client_phase \<Rightarrow> (string list \<times> resp_value) list" where
  "in_flight Ready = []"
| "in_flight (Removing args r ks) = [(args, r)]"
| "in_flight (Expiring args r k n) = [(args, r)]"
| "in_flight (Appending args r) = [(args, r)]"
| "in_flight (Replying args r) = [(args, r)]"

fun visible :: "section_action \<Rightarrow> shared \<Rightarrow> event list" where
  "visible (Enter th t draws args) c =
     map (\<lambda>(args', r). Effect th t args' r) (in_flight (fst (first_section (at_instant t draws) args (kv c))))"
| "visible (SetDeadline th t) c = (case phase_of c th of Expiring args r k n \<Rightarrow> [Deadline th t k n] | _ \<Rightarrow> [])"
| "visible (AppendRecord th ws synced) c =
     (case phase_of c th of
        Appending args r \<Rightarrow>
          (case Append True ws synced args (disk c) of None \<Rightarrow> [] | Some (ok, disk') \<Rightarrow> [Recorded th args ok])
      | _ \<Rightarrow> [])"
| "visible (SendReply th) c = (case phase_of c th of Replying args r \<Rightarrow> [Replied th args r] | _ \<Rightarrow> [])"
| "visible _ c = []"

text \<open>The specification: events change a key space, one at a time, at instants that never go back.\<close>

definition takes_effect :: "int \<Rightarrow> string list \<Rightarrow> keyspace \<Rightarrow> resp_value \<Rightarrow> keyspace \<Rightarrow> bool" where
  "takes_effect t args m r m' \<longleftrightarrow>
     (case parse_command args of
        Inr (CSetEx k v n) \<Rightarrow> serves t (CSet k v) m r m'
      | _ \<Rightarrow> answers t args m r m')"

fun atomically :: "event \<Rightarrow> int \<times> keyspace \<Rightarrow> int \<times> keyspace \<Rightarrow> bool" where
  "atomically (Effect th t args r) (t0, m) (t1, m') \<longleftrightarrow>
     t0 \<le> t \<and> t1 = t \<and> takes_effect t args (live t m) r m'"
| "atomically (Deadline th t k n) (t0, m) (t1, m') \<longleftrightarrow>
     t0 \<le> t \<and> t1 = t
     \<and> (in_range t (CExpire k n) (live t m) \<longrightarrow> (\<exists>r. serves t (CExpire k n) (live t m) r m'))"
| "atomically _ tm tm' \<longleftrightarrow> tm' = tm"

text \<open>What one thread has done according to the events.\<close>

definition effects :: "nat \<Rightarrow> event list \<Rightarrow> (string list \<times> resp_value) list" where
  "effects th es = concat (map (\<lambda>e. case e of Effect i t args r \<Rightarrow> if i = th then [(args, r)] else [] | _ \<Rightarrow> []) es)"

definition replied :: "nat \<Rightarrow> event list \<Rightarrow> (string list \<times> resp_value) list" where
  "replied th es = concat (map (\<lambda>e. case e of Replied i args r \<Rightarrow> if i = th then [(args, r)] else [] | _ \<Rightarrow> []) es)"

definition deadlines_set :: "nat \<Rightarrow> event list \<Rightarrow> (string \<times> int) list" where
  "deadlines_set th es = concat (map (\<lambda>e. case e of Deadline i t k n \<Rightarrow> if i = th then [(k, n)] else [] | _ \<Rightarrow> []) es)"

definition recorded :: "nat \<Rightarrow> event list \<Rightarrow> string list list" where
  "recorded th es = concat (map (\<lambda>e. case e of Recorded i args ok \<Rightarrow> if i = th then [args] else [] | _ \<Rightarrow> []) es)"

text \<open>What the requests ask for, and what the thread still has to do for the one it works on.\<close>

fun writes :: "command \<Rightarrow> bool" where
  "writes (CSet k v) = True" | "writes (CSetEx k v n) = True" | "writes (CDel ks) = True"
| "writes CFlushAll = True" | "writes (CExpire k n) = True" | "writes (CLPush k vs) = True"
| "writes (CRPush k vs) = True" | "writes (CHSet k fvs) = True" | "writes (CHDel k fs) = True"
| "writes _ = False"

definition needs_record :: "string list \<times> resp_value \<Rightarrow> bool" where
  "needs_record req = (case parse_command (fst req) of Inl _ \<Rightarrow> False | Inr c \<Rightarrow> writes c \<and> snd req \<noteq> WrongTypeError)"

definition wants_deadline :: "string list \<times> resp_value \<Rightarrow> (string \<times> int) list" where
  "wants_deadline req = (case parse_command (fst req) of Inr (CSetEx k v n) \<Rightarrow> [(k, n)] | _ \<Rightarrow> [])"

fun unrecorded :: "client_phase \<Rightarrow> string list list" where
  "unrecorded (Expiring args r k n) = [args]" | "unrecorded (Appending args r) = [args]" | "unrecorded _ = []"

fun owed_deadline :: "client_phase \<Rightarrow> (string \<times> int) list" where
  "owed_deadline (Expiring args r k n) = [(k, n)]" | "owed_deadline _ = []"

section \<open>The sections make up the command\<close>

definition sectioned :: "env \<Rightarrow> string list \<Rightarrow> store \<Rightarrow> resp_value + command \<Rightarrow> outcome \<Rightarrow> bool" where
  "sectioned e args s parsed out \<longleftrightarrow> complete_command e (split_section e args s parsed out) = Some out"

lemma complete_after_section [simp]: "complete_command e (after_section args out, new_state out) = Some out"
  by (simp add: after_section_def split: option.split)

lemma sectioned_simps [simp]:
  "sectioned e args s (Inl err) out \<longleftrightarrow> out = answered err s"
  "sectioned e args s (Inr (CSetEx k v n)) out \<longleftrightarrow>
     out = \<lparr>reply = ok_reply, logged = Some args, new_state = snd (Expire e k n (Store_Set e k v s))\<rparr>"
  by (auto simp: sectioned_def split_section_def)

lemma answered_same: "answered (reply out) s = out \<longleftrightarrow> logged out = None \<and> new_state out = s"
  by (cases out) auto

lemma sectioned_other:
  assumes "\<forall>k v n. c \<noteq> CSetEx k v n"
  shows "sectioned e args s (Inr c) out \<longleftrightarrow>
    (stale_keys e c s \<noteq> [] \<longrightarrow> logged out = None \<and> new_state out = SweepDelete (clk e) (stale_keys e c s) s)"
  using assms by (cases c) (auto simp: sectioned_def split_section_def answered_same)

lemma read_typed_stale:
  assumes "\<And>i. clk e i = t" and "stale e k s \<noteq> []"
  shows "snd (read_typed e ty missing answer k s) = SweepDelete (clk e) (stale e k s) s"
    and "snd (TTL e k s) = SweepDelete (clk e) (stale e k s) s"
  using assms by (auto simp: stale_def read_typed_def TTL_def split: option.splits if_splits)

lemma sectioned_reads:
  assumes "\<And>i. clk e i = t"
  shows "sectioned e args s (one_arg name rest (\<lambda>k. Inr (CGet k))) (cmd_GET (\<lambda>_. e) (name # rest) s)"
    "sectioned e args s (one_arg name rest (\<lambda>k. Inr (CTtl k))) (cmd_TTL (\<lambda>_. e) (name # rest) s)"
    "sectioned e args s (one_arg name rest (\<lambda>k. Inr (CLLen k))) (cmd_LLEN (\<lambda>_. e) (name # rest) s)"
    "sectioned e args s (parse_LRANGE name rest) (cmd_LRANGE (\<lambda>_. e) (name # rest) s)"
    "sectioned e args s (two_args name rest (\<lambda>k f. Inr (CHGet k f))) (cmd_HGET (\<lambda>_. e) (name # rest) s)"
    "sectioned e args s (one_arg name rest (\<lambda>k. Inr (CHGetAll k))) (cmd_HGETALL (\<lambda>_. e) (name # rest) s)"
    "sectioned e args s (one_arg name rest (\<lambda>k. Inr (CHLen k))) (cmd_HLEN (\<lambda>_. e) (name # rest) s)"
    "sectioned e args s (two_args name rest (\<lambda>k f. Inr (CHExists k f))) (cmd_HEXISTS (\<lambda>_. e) (name # rest) s)"
    "ToUpper name = ''HKEYS'' \<Longrightarrow> sectioned e args s (one_arg name rest (\<lambda>k. Inr (CHKeys k))) (cmd_HKEYS_HVALS (\<lambda>_. e) (name # rest) s)"
    "ToUpper name = ''HVALS'' \<Longrightarrow> sectioned e args s (one_arg name rest (\<lambda>k. Inr (CHVals k))) (cmd_HKEYS_HVALS (\<lambda>_. e) (name # rest) s)"
  by (auto simp: one_arg_def two_args_def parse_LRANGE_def with_int_def ParseInt64Arg_ParseInt64 command_defs sectioned_other
      Store_Get_def LLen_def LRange_def HGet_def HGetAll_def HLen_def HExists_def HKeys_def HVals_def
      case_prod_beta read_typed_stale [OF assms] split: list.split option.split)

lemma sectioned_multikey_reads:
  assumes "\<And>i. clk e i = t"
  shows "sectioned e args s (if rest = [] then Inl (WrongArgsError name) else Inr (CExists rest)) (cmd_EXISTS (\<lambda>_. e) (name # rest) s)"
    "sectioned e args s (one_arg name rest (\<lambda>k. Inr (CKeys k))) (cmd_KEYS (\<lambda>_. e) (name # rest) s)"
proof -
  have "clk e = (\<lambda>_. t)" using assms by auto
  then show "sectioned e args s (if rest = [] then Inl (WrongArgsError name) else Inr (CExists rest)) (cmd_EXISTS (\<lambda>_. e) (name # rest) s)"
    "sectioned e args s (one_arg name rest (\<lambda>k. Inr (CKeys k))) (cmd_KEYS (\<lambda>_. e) (name # rest) s)"
    by (auto simp: one_arg_def sectioned_other command_defs Store_Exists_def Store_Keys_def case_prod_beta Let_def split: list.split)
qed

lemma sectioned_writes:
  "sectioned e args s (parse_PING name rest) (cmd_PING (name # rest) s)"
  "sectioned e args s (one_arg name rest (\<lambda>x. Inr (CEcho x))) (cmd_ECHO (name # rest) s)"
  "sectioned e (name # rest) s (parse_SET name rest) (cmd_SET (\<lambda>_. e) (name # rest) s)"
  "sectioned e args s (if rest = [] then Inl (WrongArgsError name) else Inr (CDel rest)) (cmd_DEL (\<lambda>_. e) (name # rest) s)"
  "sectioned e args s (if rest = [] then Inr CFlushAll else Inl (WrongArgsError name)) (cmd_FLUSHALL (name # rest) s)"
  "sectioned e args s (two_args name rest (\<lambda>k n. with_int n (\<lambda>seconds. Inr (CExpire k seconds)))) (cmd_EXPIRE (\<lambda>_. e) (name # rest) s)"
  "sectioned e args s (key_and_args name rest (\<lambda>k vs. Inr (CLPush k vs))) (cmd_PUSH (\<lambda>_. e) (name # rest) s)"
  "sectioned e args s (key_and_args name rest (\<lambda>k vs. Inr (CRPush k vs))) (cmd_PUSH (\<lambda>_. e) (name # rest) s)"
  "sectioned e args s (parse_HSET name rest) (cmd_HSET (\<lambda>_. e) (name # rest) s)"
  "sectioned e args s (key_and_args name rest (\<lambda>k fs. Inr (CHDel k fs))) (cmd_HDEL (\<lambda>_. e) (name # rest) s)"
  by (auto simp: parse_PING_def parse_SET_def parse_HSET_def one_arg_def two_args_def key_and_args_def with_int_def
      ParseInt64Arg_ParseInt64 command_defs sectioned_other ok_reply_def case_prod_beta Let_def split: list.split option.split)

lemma Dispatch_sectioned:
  assumes "\<And>i. clk e i = t"
  shows "sectioned e (name # rest) s (parse_command (name # rest)) (Dispatch (\<lambda>_. e) (name # rest) s)"
  by (rule Dispatch_related; (rule sectioned_reads [OF assms] sectioned_multikey_reads [OF assms] sectioned_writes)?; simp)

section \<open>What the first section decides\<close>

definition records_as :: "string list \<Rightarrow> resp_value + command \<Rightarrow> outcome \<Rightarrow> bool" where
  "records_as args parsed out \<longleftrightarrow>
     logged out = (case parsed of
        Inl _ \<Rightarrow> None
      | Inr c \<Rightarrow> if writes c \<and> reply out \<noteq> WrongTypeError then Some args else None)"

lemma not_wrong_type [simp]: "Integer n \<noteq> WrongTypeError" "SimpleString x \<noteq> WrongTypeError"
  by (simp_all add: WrongTypeError_def resp_constructors)

lemma write_outcome_records:
  "logged (write_outcome args res) = (if reply (write_outcome args res) \<noteq> WrongTypeError then Some args else None)"
  by (simp add: write_outcome_def case_prod_beta)

lemma odd_length: "odd (length xs) \<Longrightarrow> length xs mod 2 = Suc 0"
  by presburger

lemma Dispatch_records: "records_as (name # rest) (parse_command (name # rest)) (Dispatch es (name # rest) s)"
  by (rule Dispatch_related)
    (auto simp: records_as_def parse_PING_def parse_SET_def parse_LRANGE_def parse_HSET_def one_arg_def two_args_def key_and_args_def
      with_int_def ParseInt64Arg_ParseInt64 command_defs write_outcome_records case_prod_beta Let_def
      odd_length simp del: write_outcome_state split: list.split option.split)

lemma stale_keys_read: "writes c \<Longrightarrow> stale_keys e c s = []"
  by (cases c) auto

lemma first_section_cases:
  assumes "args \<noteq> []" and "\<And>i. clk e i = t"
  obtains (err) err where "parse_command args = Inl err" "first_section e args s = (Replying args err, s)"
      "Dispatch (\<lambda>_. e) args s = answered err s"
    | (set_ex) k v n where "parse_command args = Inr (CSetEx k v n)"
        "first_section e args s = (Expiring args ok_reply k n, Store_Set e k v s)"
    | (stale) c where "parse_command args = Inr c" "\<forall>k v n. c \<noteq> CSetEx k v n" "\<not> writes c"
        "first_section e args s = (Removing args (reply (Dispatch (\<lambda>_. e) args s)) (stale_keys e c s), s)"
        "new_state (Dispatch (\<lambda>_. e) args s) = SweepDelete (clk e) (stale_keys e c s) s" "stale_keys e c s \<noteq> []"
    | (whole) c where "parse_command args = Inr c" "\<forall>k v n. c \<noteq> CSetEx k v n"
        "first_section e args s = (after_section args (Dispatch (\<lambda>_. e) args s), new_state (Dispatch (\<lambda>_. e) args s))"
proof -
  have sec: "sectioned e args s (parse_command args) (Dispatch (\<lambda>_. e) args s)"
    using Dispatch_sectioned [OF assms(2), of "hd args" "tl args" s] assms(1) by simp
  show thesis
  proof (cases "parse_command args")
    case (Inl e)
    then show thesis using sec err by (simp add: first_section_def split_section_def)
  next
    case (Inr c)
    show thesis
    proof (cases "\<exists>k v n. c = CSetEx k v n")
      case True
      then show thesis using Inr set_ex by (auto simp: first_section_def split_section_def)
    next
      case False
      then have "first_section e args s = (if stale_keys e c s = [] then (after_section args (Dispatch (\<lambda>_. e) args s), new_state (Dispatch (\<lambda>_. e) args s))
          else (Removing args (reply (Dispatch (\<lambda>_. e) args s)) (stale_keys e c s), s))"
        using Inr by (cases c) (simp_all add: first_section_def split_section_def)
      then show thesis
        using stale [OF Inr] whole [OF Inr] sec False Inr stale_keys_read [of c e s]
        by (cases "stale_keys e c s = []") (auto simp: sectioned_other)
    qed
  qed
qed

lemma first_section_request:
  assumes "args \<noteq> []" and "\<And>i. clk e i = t"
  shows "\<exists>r. in_flight (fst (first_section e args s)) = [(args, r)]
      \<and> unrecorded (fst (first_section e args s)) = (if needs_record (args, r) then [args] else [])
      \<and> owed_deadline (fst (first_section e args s)) = wants_deadline (args, r)"
proof -
  have rec: "records_as args (parse_command args) (Dispatch (\<lambda>_. e) args s)"
    using Dispatch_records [of "hd args" "tl args" "\<lambda>_. e" s] assms(1) by simp
  show ?thesis
    using assms
    by (cases rule: first_section_cases [of args e t s])
      (use rec in \<open>auto simp: needs_record_def wants_deadline_def ok_reply_def after_section_def records_as_def
        split: command.split\<close>)
qed

lemma first_section_effect:
  assumes "store_inv s" and "max_memory_bytes s = 0" and "args \<noteq> []" and clock: "\<And>i. clk e i = t"
    and "in_flight (fst (first_section e args s)) = [(args', r)]"
  shows "takes_effect t args' (live t (keyspace_of s)) r (live t (keyspace_of (snd (first_section e args s))))"
proof -
  have ans: "answers t args (live t (keyspace_of s)) (reply (Dispatch (\<lambda>_. e) args s)) (live t (keyspace_of (new_state (Dispatch (\<lambda>_. e) args s))))"
    using assms by (intro Dispatch_answers) (simp_all add: frozen_def)
  have "logged (Dispatch (\<lambda>_. e) args s) = None \<or> logged (Dispatch (\<lambda>_. e) args s) = Some args" by (rule Dispatch_logged)
  from assms(3) clock show ?thesis
  proof (cases rule: first_section_cases [of args e t s])
    case (err x)
    then show ?thesis using ans assms(5) by (simp add: takes_effect_def)
  next
    case (set_ex k v n)
    then show ?thesis
      using assms(5) keyspace_unlimited(1) [OF assms(1,2)] by (auto simp: takes_effect_def spec_set_def live_changes)
  next
    case (stale c)
    then show ?thesis
      using ans assms(5) SweepDelete_unobservable [OF assms(1), of "clk e" t "stale_keys e c s"] clock
      by (auto simp: takes_effect_def split: command.split)
  next
    case (whole c)
    then show ?thesis
      using ans assms(5) \<open>_ \<or> _\<close> by (auto simp: takes_effect_def after_section_def split: command.split)
  qed
qed

section \<open>Simulation by atomic events\<close>

text \<open>A key space stands for the state of the program when their live parts agree.\<close>

fun represents :: "shared \<Rightarrow> int \<times> keyspace \<Rightarrow> bool" where
  "represents c (t, m) \<longleftrightarrow>
     store_inv (kv c) \<and> max_memory_bytes (kv c) = 0 \<and> t \<le> instant c
     \<and> live (instant c) m = live (instant c) (keyspace_of (kv c))"

lemma at_instant_fields [simp]: "clk (at_instant t draws) i = t"
  by (simp add: at_instant_def)

lemma represents_later:
  assumes "represents c (t0, m)" and "instant c \<le> t"
  shows "live t m = live t (keyspace_of (kv c))"
  using assms by (metis live_later represents.simps)

text \<open>A step without events leaves what is alive as it is.\<close>

lemma represents_quiet:
  assumes "represents c (t0, m)" and "instant c \<le> instant c'"
    and "store_inv (kv c')" and "max_memory_bytes (kv c') = max_memory_bytes (kv c)"
    and "live (instant c') (keyspace_of (kv c')) = live (instant c') (keyspace_of (kv c))"
  shows "represents c' (t0, m)"
  using assms represents_later [OF assms(1,2)] by auto

text \<open>An event at instant \<open>t\<close> leads to the live part of the new state.\<close>

lemma represents_event:
  assumes "store_inv s" and "max_memory_bytes s = 0" and "kv c' = s" and "instant c' = t"
  shows "represents c' (t, live t (keyspace_of s))"
  using assms by (simp add: live_later)

lemma first_section_store:
  assumes "store_inv s" and "args \<noteq> []" and "\<And>i. clk e i = t"
  shows "store_inv (snd (first_section e args s))" "max_memory_bytes (snd (first_section e args s)) = max_memory_bytes s"
  by (cases rule: first_section_cases [OF assms(2,3), of s]; simp add: assms(1) inv_intros)+

lemma sim_enter:
  assumes rep: "represents c (t0, m)" and "instant c \<le> t" "args \<noteq> []"
  shows "\<exists>m'. explains atomically (visible (Enter th t draws args) c) (t0, m) m' \<and> represents (enter_section th t draws args c) m'"
proof -
  let ?e = "at_instant t draws"
  let ?s = "snd (first_section ?e args (kv c))"
  have inv: "store_inv (kv c)" "max_memory_bytes (kv c) = 0" using rep by simp_all
  obtain r where r: "in_flight (fst (first_section ?e args (kv c))) = [(args, r)]"
    using first_section_request [OF assms(3), of ?e t "kv c"] by auto
  have "takes_effect t args (live t m) r (live t (keyspace_of ?s))"
    using first_section_effect [OF inv assms(3) at_instant_fields r] represents_later [OF rep assms(2)] by simp
  moreover have "represents (enter_section th t draws args c) (t, live t (keyspace_of ?s))"
    using first_section_store [OF inv(1) assms(3), of ?e t] inv
    by (intro represents_event) (simp_all add: enter_section_def case_prod_beta)
  ultimately show ?thesis
    using r rep assms(2) by (intro exI [of _ "(t, live t (keyspace_of ?s))"]) auto
qed

lemma sim_deadline:
  assumes rep: "represents c (t0, m)" and "instant c \<le> t"
    and c': "kv c' = snd (Expire (at_instant t draws) k n (kv c))" "instant c' = t"
  shows "\<exists>m'. explains atomically [Deadline th t k n] (t0, m) m' \<and> represents c' m'"
proof -
  let ?s = "snd (Expire (at_instant t draws) k n (kv c))"
  have inv: "store_inv (kv c)" "max_memory_bytes (kv c) = 0" using rep by simp_all
  then have "calm t (\<lambda>_. at_instant t draws) (kv c)" by (simp add: calm_def frozen_def)
  then have "atomically (Deadline th t k n) (t0, m) (t, live t (keyspace_of ?s))"
    using Expire_serves [of t "\<lambda>_. at_instant t draws" "kv c" n k] represents_later [OF rep assms(2)] rep assms(2)
    by (auto simp del: serves.simps)
  moreover have "represents c' (t, live t (keyspace_of ?s))"
    using inv c' by (intro represents_event) (simp_all add: inv_intros)
  ultimately show ?thesis by (intro exI [of _ "(t, live t (keyspace_of ?s))"]) simp
qed

lemma sim_action:
  assumes rep: "represents c m" and step: "concurrently a c = Some c'"
  shows "\<exists>m'. explains atomically (visible a c) m m' \<and> represents c' m'"
proof (cases a)
  case (Enter th t draws args)
  with step rep show ?thesis
    using sim_enter [of c "fst m" "snd m" t args th draws] by (auto split: if_splits)
next
  case (RemoveKey th t)
  with step rep show ?thesis
    using represents_quiet [of c "fst m" "snd m" c']
    by (cases m) (auto simp: inv_intros live_after_delete_expired split: if_splits client_phase.splits list.splits)
next
  case (SetDeadline th t)
  with step rep show ?thesis
    using sim_deadline [of c "fst m" "snd m" t c' "\<lambda>_ i. i" _ _ th]
    by (auto split: if_splits client_phase.splits)
next
  case (AppendRecord th ws synced)
  with step rep show ?thesis by (cases m) (auto split: client_phase.splits option.splits)
next
  case (SendReply th)
  with step rep show ?thesis by (cases m) (auto split: client_phase.splits)
next
  case (SweepKeys t ks)
  with step rep show ?thesis
    using represents_quiet [of c "fst m" "snd m" c']
    by (cases m) (auto simp: inv_intros SweepDelete_unobservable split: if_splits)
qed

interpretation atomic_events: simulation concurrently visible atomically represents
  by unfold_locales (rule sim_action)

section \<open>The books of every thread\<close>

definition accounted :: "event list \<Rightarrow> shared \<Rightarrow> bool" where
  "accounted es c \<longleftrightarrow>
     (\<forall>th. effects th es = replied th es @ in_flight (phase_of c th)
        \<and> deadlines_set th es @ owed_deadline (phase_of c th) = concat (map wants_deadline (effects th es))
        \<and> (log_open c \<longrightarrow>
             recorded th es @ unrecorded (phase_of c th) = map fst (filter needs_record (effects th es))))"

lemmas event_books = effects_def replied_def deadlines_set_def recorded_def

lemma log_if_open_keeps [simp]:
  "in_flight (log_if_open b p) = in_flight p" "owed_deadline (log_if_open b p) = owed_deadline p"
  "b \<Longrightarrow> unrecorded (log_if_open b p) = unrecorded p"
  by (cases p; simp)+

lemma accounted_enter:
  assumes "accounted es c" and "phase_of c th = Ready" and "args \<noteq> []"
  shows "accounted (es @ visible (Enter th t draws args) c) (enter_section th t draws args c)"
proof -
  let ?p = "fst (first_section (at_instant t draws) args (kv c))"
  obtain r where "in_flight ?p = [(args, r)]" "unrecorded ?p = (if needs_record (args, r) then [args] else [])"
    "owed_deadline ?p = wants_deadline (args, r)"
    using first_section_request [OF assms(3), of "at_instant t draws" t "kv c"] by auto
  moreover have "effects th es = replied th es" "deadlines_set th es = concat (map wants_deadline (effects th es))"
    "log_open c \<Longrightarrow> recorded th es = map fst (filter needs_record (effects th es))"
    using assms(1,2) by (auto simp: accounted_def dest!: spec [of _ th])
  ultimately show ?thesis
    using assms(1) by (simp add: accounted_def enter_section_def case_prod_beta event_books)
qed

lemma accounted_action:
  assumes "accounted es c" and "concurrently a c = Some c'"
  shows "accounted (es @ visible a c) c'"
proof (cases a)
  case (Enter th t draws args)
  with assms accounted_enter [of es c th args t draws] show ?thesis by (auto simp del: visible.simps split: if_splits)
next
  case (RemoveKey th t)
  with assms show ?thesis
    by (clarsimp simp: accounted_def split: if_splits client_phase.splits list.splits)
      (auto dest!: spec [of _ th])
next
  case (SetDeadline th t)
  with assms show ?thesis
    by (clarsimp simp: accounted_def event_books split: if_splits client_phase.splits) (auto dest!: spec [of _ th])
next
  case (AppendRecord th ws synced)
  with assms show ?thesis
    by (clarsimp simp: accounted_def event_books split: client_phase.splits option.splits) (auto dest!: spec [of _ th])
next
  case (SendReply th)
  with assms show ?thesis
    by (clarsimp simp: accounted_def event_books split: client_phase.splits) (auto dest!: spec [of _ th])
next
  case (SweepKeys t ks)
  with assms show ?thesis by (auto simp: accounted_def split: if_splits)
qed

interpretation books: observed concurrently visible accounted
  by unfold_locales (rule accounted_action)

text \<open>As long as every \<^verbatim>\<open>Append\<close> succeeds the file is the records in the order in which they were written.\<close>

definition all_recorded :: "event list \<Rightarrow> string list list" where
  "all_recorded es = concat (map (\<lambda>e. case e of Recorded i args ok \<Rightarrow> [args] | _ \<Rightarrow> []) es)"

definition appends_succeed :: "event list \<Rightarrow> bool" where
  "appends_succeed es = list_all (\<lambda>e. case e of Recorded i args ok \<Rightarrow> ok | _ \<Rightarrow> True) es"

definition on_disk :: "bytes \<Rightarrow> event list \<Rightarrow> shared \<Rightarrow> bool" where
  "on_disk start es c \<longleftrightarrow>
     (appends_succeed es \<longrightarrow> disk c = start @ concat (map (\<lambda>args. Encode (Array (map BulkString args))) (all_recorded es)))"

lemma Append_success:
  "Append opened ws synced args dsk = Some (ok, dsk') \<Longrightarrow> ok \<Longrightarrow> dsk' = dsk @ Encode (Array (map BulkString args))"
  by (auto simp: Append_def dest!: write_loop_prefix split: if_splits option.splits)

lemma log_books [simp]:
  "appends_succeed []" "appends_succeed (es @ fs) \<longleftrightarrow> appends_succeed es \<and> appends_succeed fs"
  "appends_succeed [Recorded i args ok] \<longleftrightarrow> ok"
  "all_recorded []  = []" "all_recorded (es @ fs) = all_recorded es @ all_recorded fs"
  "all_recorded [Recorded i args ok] = [args]"
  by (simp_all add: appends_succeed_def all_recorded_def)

lemma unlogged_events [simp]:
  "all_recorded [Deadline i t k n] = []" "all_recorded [Replied i args r] = []"
  "all_recorded (map (\<lambda>(args, r). Effect i t args r) reqs) = []"
  by (simp_all add: all_recorded_def case_prod_beta o_def)

interpretation log_file: observed concurrently visible "on_disk start" for start
proof
  fix es c a c'
  assume kept: "on_disk start es c" and step: "concurrently a c = Some c'"
  show "on_disk start (es @ visible a c) c'"
  proof (cases a)
    case (AppendRecord th ws synced)
    with step obtain args r ok d where d: "phase_of c th = Appending args r" "Append True ws synced args (disk c) = Some (ok, d)"
      by (auto split: client_phase.splits option.splits)
    with AppendRecord step have "c' = c\<lparr>disk := d, phase_of := (phase_of c)(th := Replying args r)\<rparr>" by simp
    with AppendRecord d kept show ?thesis using Append_success [OF d(2)] by (simp add: on_disk_def)
  qed (use kept step in \<open>auto simp: on_disk_def enter_section_def case_prod_beta appends_succeed_def
        split: if_splits client_phase.splits list.splits\<close>)
qed

interpretation same_log: safe_steps concurrently "\<lambda>c. log_open c = opened" for opened
proof
  show "log_open c' = opened" if "log_open c = opened" "concurrently a c = Some c'" for c a c'
    using that
    by (cases a) (auto simp: enter_section_def case_prod_beta split: if_splits client_phase.splits list.splits option.splits)
qed

section \<open>Commands come to an end\<close>

fun sections_left :: "client_phase \<Rightarrow> nat" where
  "sections_left Ready = 0"
| "sections_left (Removing args r ks) = Suc (length ks)"
| "sections_left (Expiring args r k n) = 3"
| "sections_left (Appending args r) = 2"
| "sections_left (Replying args r) = 1"

text \<open>The steps of client \<open>th\<close> on the command it is serving; it does not begin another one.\<close>

fun works :: "nat \<Rightarrow> section_action \<Rightarrow> bool" where
  "works th (RemoveKey i t) \<longleftrightarrow> i = th" | "works th (SetDeadline i t) \<longleftrightarrow> i = th"
| "works th (AppendRecord i ws synced) \<longleftrightarrow> i = th" | "works th (SendReply i) \<longleftrightarrow> i = th"
| "works th _ \<longleftrightarrow> False"

fun begins :: "nat \<Rightarrow> section_action \<Rightarrow> bool" where
  "begins th (Enter i t draws args) \<longleftrightarrow> i = th" | "begins th _ \<longleftrightarrow> False"

definition serving :: "nat \<Rightarrow> section_action \<Rightarrow> shared \<Rightarrow> shared option" where
  "serving th a c = (if begins th a then None else concurrently a c)"

definition keys_left :: "shared \<Rightarrow> bool" where
  "keys_left c \<longleftrightarrow> (\<forall>th args r. phase_of c th \<noteq> Removing args r [])"

lemma first_section_keys_left:
  assumes "args \<noteq> []" and "\<And>i. clk e i = t"
  shows "fst (first_section e args s) \<noteq> Removing args' r []"
  by (cases rule: first_section_cases [OF assms, of s]) (auto simp: after_section_def split: option.splits)

lemma log_if_open_Removing: "log_if_open b p = Removing args r ks \<longleftrightarrow> p = Removing args r ks"
  by (cases p) auto

lemma keys_left_step: "keys_left c \<Longrightarrow> concurrently a c = Some c' \<Longrightarrow> keys_left c'"
  by (cases a) (auto simp: keys_left_def enter_section_def case_prod_beta log_if_open_Removing first_section_keys_left [OF _ at_instant_fields]
      split: if_splits client_phase.splits list.splits option.splits)

interpretation removals: safe_steps concurrently keys_left
  by unfold_locales (rule keys_left_step)

lemma work_step:
  assumes "serving th a c = Some c'"
  shows "works th a \<Longrightarrow> sections_left (phase_of c' th) < sections_left (phase_of c th)"
    and "\<not> works th a \<Longrightarrow> sections_left (phase_of c' th) \<le> sections_left (phase_of c th)"
  using assms
  by (cases a; auto simp: serving_def enter_section_def case_prod_beta split: if_splits client_phase.splits list.splits option.splits)+

lemma works_serving: "works th a \<Longrightarrow> serving th a c = concurrently a c"
  by (cases a) (auto simp: serving_def)

text \<open>A client in the middle of a command has a next step, whatever the others are doing.\<close>

lemma work_possible:
  assumes "keys_left c" and "0 < sections_left (phase_of c th)"
  shows "\<exists>a c'. works th a \<and> serving th a c = Some c'"
proof (cases "phase_of c th")
  case Ready
  with assms show ?thesis by simp
next
  case (Removing args r ks)
  with assms(1) obtain k ks' where "ks = k # ks'" by (cases ks) (auto simp: keys_left_def)
  with Removing show ?thesis by (intro exI [of _ "RemoveKey th (instant c)"]) (simp add: serving_def)
next
  case (Expiring args r k n)
  then show ?thesis by (intro exI [of _ "SetDeadline th (instant c)"]) (simp add: serving_def)
next
  case (Appending args r)
  let ?dat = "Encode (Array (map BulkString args))"
  obtain ok d where "write_loop [Wrote (length ?dat)] ?dat (disk c) = Some (ok, d)"
    using write_loop_returns [of ?dat "[Wrote (length ?dat)]" "disk c"] by auto
  with Appending show ?thesis
    by (intro exI [of _ "AppendRecord th [Wrote (length ?dat)] True"]) (simp add: serving_def Append_def)
next
  case (Replying args r)
  then show ?thesis by (intro exI [of _ "SendReply th"]) (simp add: serving_def)
qed

interpretation one_command: progress "serving th" keys_left "works th" "\<lambda>_ _. True" "\<lambda>c. sections_left (phase_of c th)" for th
proof unfold_locales
  show "keys_left c'" if "keys_left c" "serving th a c = Some c'" for a c c'
    using that keys_left_step [of c a c'] by (auto simp: serving_def split: if_splits)
qed (use work_step work_possible in blast)+

section \<open>Concrete runs\<close>

definition idle_clients :: "bool \<Rightarrow> shared" where
  "idle_clients opened = \<lparr>kv = new_store, instant = 0, phase_of = (\<lambda>_. Ready), log_open = opened, disk = []\<rparr>"

lemma idle_clients_fields [simp]:
  "store_inv (kv (idle_clients b))" "max_memory_bytes (kv (idle_clients b)) = 0" "phase_of (idle_clients b) th = Ready"
  "log_open (idle_clients b) = b" "disk (idle_clients b) = []" "instant (idle_clients b) = 0" "kv (idle_clients b) = new_store"
  by (simp_all add: idle_clients_def store_inv_new)

text \<open>
  \<^verbatim>\<open>SET k v EX 9\<close> of client 0, with \<^verbatim>\<open>SET k w\<close> of client 1 between the value and the deadline.
\<close>

definition set_v_ex :: "string list" where
  "set_v_ex = [''SET'', ''k'', ''v'', ''EX'', ''9'']"

definition set_w :: "string list" where
  "set_w = [''SET'', ''k'', ''w'']"

definition set_race :: "section_action list" where
  "set_race = [Enter 0 1 (\<lambda>_ i. i) set_v_ex, Enter 1 2 (\<lambda>_ i. i) set_w, SetDeadline 0 3,
     AppendRecord 1 [Wrote 40] True, SendReply 1, AppendRecord 0 [Interrupted, Wrote 9, Wrote 90] True, SendReply 0]"

lemma set_race_run:
  "\<exists>c'. steps concurrently set_race (idle_clients True) = Some c' \<and> instant c' = 3
     \<and> phase_of c' 0 = Ready \<and> phase_of c' 1 = Ready
     \<and> HT_Get (data (kv c')) ''k'' \<noteq> None \<and> str_value (the (HT_Get (data (kv c')) ''k'')) = ''w''
     \<and> vtype (the (HT_Get (data (kv c')) ''k'')) = KString
     \<and> expires_at (the (HT_Get (data (kv c')) ''k'')) = Some 9000000003"
proof -
  have "map_option (\<lambda>c'. (instant c', phase_of c' 0, phase_of c' 1,
      map_option (\<lambda>v. (str_value v, vtype v, expires_at v)) (HT_Get (data (kv c')) ''k'')))
      (steps concurrently set_race (idle_clients True))
    = Some (3, Ready, Ready, Some (''w'', KString, Some 9000000003))"
    by code_simp
  then show ?thesis by auto
qed

lemma set_race_trace:
  "trace concurrently visible set_race (idle_clients True) =
     [Effect 0 1 set_v_ex ok_reply, Effect 1 2 set_w ok_reply, Deadline 0 3 ''k'' 9,
      Recorded 1 set_w True, Replied 1 set_w ok_reply, Recorded 0 set_v_ex True, Replied 0 set_v_ex ok_reply]"
  by code_simp

section \<open>Properties\<close>



text \<open>
  C2: Concurrent commands are linearizable. Whatever the interleaving of the clients' sections, of the
  log and of the sweeper, the events of the run, taken one at a time on a plain key space, explain every
  reply and lead to what is alive in the store at the end. Each command takes effect once,
  between its request and its reply, and the replies a client has received are those of its commands in
  order, but for the one it waits for. \<^verbatim>\<open>SET\<close> with \<^verbatim>\<open>EX\<close> is the one command that is two events, the value and
  the deadline, which is set before the reply. (With no memory budget, and the clock standing
  still during a section and never going back.)
\<close>

theorem linearizable:
  assumes "steps concurrently as c = Some c'" and "store_inv (kv c)" and "max_memory_bytes (kv c) = 0"
    and "\<And>th. phase_of c th = Ready"
  shows "(\<exists>t m. explains atomically (trace concurrently visible as c) (instant c, keyspace_of (kv c)) (t, m)
        \<and> live (instant c') m = live (instant c') (keyspace_of (kv c')))
    \<and> (\<forall>th. effects th (trace concurrently visible as c)
          = replied th (trace concurrently visible as c) @ in_flight (phase_of c' th)
        \<and> deadlines_set th (trace concurrently visible as c) @ owed_deadline (phase_of c' th)
          = concat (map wants_deadline (effects th (trace concurrently visible as c))))"
proof -
  have "represents c (instant c, keyspace_of (kv c))" using assms by simp
  from atomic_events.sim_steps [OF assms(1) this]
  have "\<exists>t m. explains atomically (trace concurrently visible as c) (instant c, keyspace_of (kv c)) (t, m)
      \<and> live (instant c') m = live (instant c') (keyspace_of (kv c'))" by auto
  moreover have "accounted ([] @ trace concurrently visible as c) c'"
    by (rule books.shown_steps [OF assms(1)]) (simp add: accounted_def event_books assms(4))
  ultimately show ?thesis by (simp add: accounted_def)
qed

theorem linearizable_witness:
  "\<exists>c' t m. steps concurrently set_race (idle_clients True) = Some c'
     \<and> explains atomically [Effect 0 1 set_v_ex ok_reply, Effect 1 2 set_w ok_reply, Deadline 0 3 ''k'' 9,
      Recorded 1 set_w True, Replied 1 set_w ok_reply, Recorded 0 set_v_ex True, Replied 0 set_v_ex ok_reply]
         (0, Map.empty) (t, m)
     \<and> live 3 m = live 3 (keyspace_of (kv c'))"
proof -
  obtain c' where c': "steps concurrently set_race (idle_clients True) = Some c'" "instant c' = 3" using set_race_run by blast
  from linearizable [OF c'(1) idle_clients_fields(1,2,3)] obtain t m
    where "explains atomically (trace concurrently visible set_race (idle_clients True))
        (instant (idle_clients True), keyspace_of (kv (idle_clients True))) (t, m)"
      "live (instant c') m = live (instant c') (keyspace_of (kv c'))" by blast
  then show ?thesis using c'(1) unfolding set_race_trace idle_clients_fields new_store_keyspace c'(2) by blast
qed





text \<open>
  C39: \<^verbatim>\<open>SET\<close> with \<^verbatim>\<open>EX\<close> is not atomic. When another client sets the key between the value and the deadline,
  its value, which was to stay for ever, gets the deadline; both clients get \<^verbatim>\<open>OK\<close>. In neither order of the two commands
  does the key end up like this.
\<close>

theorem set_ex_not_atomic:
  "\<exists>c'. steps concurrently set_race (idle_clients True) = Some c'
     \<and> replied 0 (trace concurrently visible set_race (idle_clients True)) = [(set_v_ex, ok_reply)]
     \<and> replied 1 (trace concurrently visible set_race (idle_clients True)) = [(set_w, ok_reply)]
     \<and> keyspace_of (kv c') ''k'' = Some (PString ''w'', Some 9000000003)
     \<and> (\<nexists>t1 t2 m1 m2 r1 r2. 0 \<le> t1 \<and> t1 \<le> t2 \<and> t2 \<le> 3
          \<and> (answers t1 set_v_ex Map.empty r1 m1 \<and> answers t2 set_w (live t2 m1) r2 m2
             \<or> answers t1 set_w Map.empty r1 m1 \<and> answers t2 set_v_ex (live t2 m1) r2 m2)
          \<and> m2 ''k'' = keyspace_of (kv c') ''k'')"
proof -
  obtain c' where c': "steps concurrently set_race (idle_clients True) = Some c'"
    "HT_Get (data (kv c')) ''k'' \<noteq> None" "str_value (the (HT_Get (data (kv c')) ''k'')) = ''w''"
    "vtype (the (HT_Get (data (kv c')) ''k'')) = KString" "expires_at (the (HT_Get (data (kv c')) ''k'')) = Some 9000000003"
    using set_race_run by blast
  have parsed: "parse_command set_v_ex = Inr (CSetEx ''k'' ''v'' 9)" "parse_command set_w = Inr (CSet ''k'' ''w'')"
    by code_simp+
  have key: "keyspace_of (kv c') ''k'' = Some (PString ''w'', Some 9000000003)"
    using c'(2-) by (auto simp: keyspace_of_def abs_value_def payload_of_def)
  show ?thesis
    using c'(1) key by (auto simp: set_race_trace replied_def answers_def parsed ns_per_second_def)
qed

end
