(* ===== verification/Spec2Isabelle.thy ===== *)
theory Spec2Isabelle
  imports Sweeper Store_Types Dispatch_Budget MainThread ServerMain Rdb_Cursor Append_Lock Concurrent_Commands
begin

text \<open>
  A verification of the in-memory key-value server under \<^verbatim>\<open>src/src\<close>: a server that speaks the RESP
  protocol, keeps strings, lists and hashes with deadlines under a memory budget, and persists them
  in snapshot files or in a log of commands.

  \<^bold>\<open>Parts and theories.\<close>

  \<^item> \<open>Prelude\<close>: types of machine integers, wrap-around of 64-bit and 32-bit arithmetic
    (\<open>wrap64\<close>, \<open>wrap32\<close>), collections of lemmas, facts on lists and words.
  \<^item> \<open>Table_Interface\<close>: the locale \<open>keyed_table\<close>, what the store relies on in its hash table, and
    what follows from it alone.
  \<^item> \<open>HashTable\<close>: \<^verbatim>\<open>store/hash_table.h\<close>. One definition per method (\<open>HT_Set\<close>, \<open>HT_Get\<close>, \<open>HT_Delete\<close>,
    \<open>RehashTo\<close>, \<open>MaybeShrink\<close>, \<open>SampleKeys\<close>, \dots); a bucket is an association list. It interprets
    \<open>keyed_table\<close>. Shown: any sequence of calls implements a finite map, and keeps the buckets
    well-formed and the load factor within its bounds.
  \<^item> \<open>Store\<close>: \<^verbatim>\<open>store/value.h\<close>, \<^verbatim>\<open>store/store.h\<close>, \<^verbatim>\<open>store/store.cpp\<close>. The record \<open>store\<close> is the
    state of \<^verbatim>\<open>Store\<close>, each method one definition. Clocks and random draws come from a record \<open>env\<close>.
  \<^item> \<open>Store_Invariant\<close>: \<open>store_inv\<close>, a well-formed table whose entries account exactly for
    \<^verbatim>\<open>used_memory_bytes_\<close>, is preserved by every method.
  \<^item> \<open>Store_Spec\<close> and \<open>Store_Props\<close>: the abstract view of a store, a map from keys to payloads and
    deadlines (\<open>keyspace_of\<close>, \<open>live\<close>), and for every method what it does to that map and what it answers.
  \<^item> \<open>Store_Lifecycle\<close>: snapshots and their round trip, the choice of eviction victims, and the
    limits of expiry and eviction.
  \<^item> \<open>Thread_Runs\<close>: runs of systems of threads, an action of some thread after the other. The locale
    \<open>safe_steps\<close> carries an invariant along a run; \<open>progress\<close> is the contract of threads that must come
    to an end, a measure that their steps decrease, and has what follows from it: their steps are bounded, and they are
    never stuck. It is interpreted for the destruction of a store, for \<^verbatim>\<open>Stop\<close>, for the end of the program and
    for a single command. The locales \<open>observed\<close> and \<open>simulation\<close> are about the events of a run: what can be
    said of those so far, and an abstract state that takes them one at a time.
  \<^item> \<open>Interleaving\<close>: critical sections of clients and of the sweeper as steps of a machine; the
    invariant under every interleaving, and the steps no client can observe.
  \<^item> \<open>Sweeper\<close>: the constructor, \<^verbatim>\<open>SweeperRun\<close> and the destructor of \<^verbatim>\<open>Store\<close> with the mutex and
    the condition variable between them. The wakeup is not lost, nothing touches a destroyed store,
    and destruction always ends.
  \<^item> \<open>RespValue\<close>, \<open>CommandParser\<close>: \<^verbatim>\<open>resp/resp_value.cpp\<close>, \<^verbatim>\<open>resp/command_parser.cpp\<close>. The encoder
    against a decoder, and the parser against the encoder, for every way to cut the stream.
  \<^item> \<open>Glob\<close>: \<^verbatim>\<open>GlobMatch\<close> of \<^verbatim>\<open>server/dispatcher.cpp\<close> against the meaning of patterns.
  \<^item> \<open>Dispatcher\<close>, \<open>Dispatch_Spec\<close>: \<^verbatim>\<open>server/dispatcher.cpp\<close>, one definition per command. An
    abstract command language (\<open>parse_command\<close>, \<open>serves\<close>) on key spaces, and that \<open>Dispatch\<close>
    implements it; replies that keep to their frame; what need not be logged.
  \<^item> \<open>Dispatch_Budget\<close>: the same under a memory budget, by comparison with the store without it: the
    replies are those of the specification, the key space a part of the specified one.
  \<^item> \<open>Store_Types\<close>: the tag of every stored value against its fields, in every store that commands,
    sweeps, budgets and reloads can produce.
  \<^item> \<open>Rdb\<close>: \<^verbatim>\<open>persistence/rdb.cpp\<close>. The bytes of a snapshot file, the checksum, \<open>SaveRdb\<close> and
    \<open>LoadRdb\<close> on a map of files.
  \<^item> \<open>Aof\<close>: \<^verbatim>\<open>server/aof.cpp\<close>. \<open>Append\<close>, \<open>LoadAof\<close>, and the log against the store: recovery after
    a crash at any byte, and the races that log and store are exposed to.
  \<^item> \<open>Rdb_Cursor\<close>: the reader of snapshot files once more, as a buffer with a 64-bit cursor and accesses by index.
    It never leaves the buffer, and the loader over it is the loader of \<open>Rdb\<close>.
  \<^item> \<open>Append_Lock\<close>: the class \<^verbatim>\<open>AofWriter\<close> with its descriptor and its mutex, the system calls of
    \<open>Append\<close> as single steps of several threads; they come out as whole calls in sequence.
  \<^item> \<open>Concurrent_Commands\<close>: commands of several clients cut into critical sections, with the sweeper and the log
    between them. The sections make up \<open>Dispatch\<close>; every run is linearizable to the command language; no
    write is acknowledged before it is logged; every command comes to its end. \<^verbatim>\<open>SET\<close> with \<^verbatim>\<open>EX\<close> is the
    exception to atomicity, and what can go wrong with it is shown.
  \<^item> \<open>TcpServer\<close>: \<^verbatim>\<open>SendAll\<close> and \<^verbatim>\<open>HandleClient\<close> of \<^verbatim>\<open>server/tcp_server.cpp\<close>; a connection is its
    commands in sequence.
  \<^item> \<open>Connections\<close>: \<^verbatim>\<open>Start\<close>, \<^verbatim>\<open>AcceptLoop\<close>, the guard of a handler and \<^verbatim>\<open>Stop\<close> as interleaved
    steps; who owns a descriptor, what the count of clients means, and that a shutdown completes.
  \<^item> \<open>MainThread\<close>: the polling loop of \<^verbatim>\<open>main.cpp\<close>, the signal, \<^verbatim>\<open>Stop\<close> and the join among the steps of
    the other threads; a signal ends the program whatever the clients do.
  \<^item> \<open>ServerMain\<close>: \<^verbatim>\<open>main.cpp\<close> from the command line to the files it leaves; what a restart keeps in
    each of the two modes, and what the messages on the terminal say.
  \<^item> \<open>Spec2Isabelle\<close>: the parts together, from the bytes a client sends to the bytes it is sent,
    against the command language.

  \<^bold>\<open>How state and operations correspond.\<close> A class is a record or, when it has one member, that
  member; a method takes the state and returns it with its result. A C++ string is a list of bytes.
  A pointer into the hash table is named by its key. Sizes that are accounted are 64-bit words;
  signed arithmetic that can overflow is written with \<open>wrap64\<close> or \<open>wrap32\<close> (on clocks the
  overflow is undefined in C++ and taken as wrap-around). Errors are values: \<open>result\<close> for the
  store, \<open>status\<close> for the parser, \<open>None\<close> for a read that fails, \<open>Throws\<close> for an exception. What
  the program is told from outside is an argument: clocks, random draws, the results of system
  calls, the sizes an allocation accepts. A command reads the clock at several points, so \<open>env\<close>
  has a clock value for each; theorems say what they need of them.

  \<^bold>\<open>Loops and fuel.\<close> Loops are structural recursion or recursion with a proved measure. The one
  loop with fuel is \<open>evict_loop\<close>: every round removes an entry, so one round more than there are
  entries is enough, and that it returns with this fuel is part of the property on eviction. The
  write loop of \<open>Append\<close> recurs over the results of the system calls; it returns once they have
  accepted the length of the record. Loops that run until something happens outside (the sweeper, the accept
  loop, the polling loop) are not functions but steps of a machine; that they end when they should is
  the subject of the properties on liveness, which count steps instead of assuming fairness.

  \<^bold>\<open>Concurrency.\<close> Within the store a critical section is one step; between them any other thread
  may run. \<open>Interleaving\<close> has the sections of the methods, with the recency stamps that readers draw under the
  shared lock as steps of their own, and shows the invariant; \<open>Concurrent_Commands\<close> has whole commands and shows
  what clients see. The refinement theorems of \<open>Dispatch_Spec\<close> and \<open>Dispatch_Budget\<close> are about a command
  that is not interrupted; linearizability extends the first of them to concurrent clients. Each theory
  fixes the grain it needs (system calls in \<open>Append_Lock\<close>, calls of \<open>Append\<close> elsewhere), and the finer one is
  shown to come out like the coarser.

  \<^bold>\<open>Time.\<close> A timeout (the sweep interval, the two seconds of the drain, the poll) is a step that may be taken at
  any moment; how long one lasts is not modelled. The properties on liveness say which of the steps
  they rely on wait for the clock.

  \<^bold>\<open>Not modelled.\<close> Memory orders (atomic accesses are sequentially consistent); fairness of locks and of the
  scheduler; linearizability under a memory budget, where evictions take keys away at any write; the kernel's side of sockets beyond the results of its calls; the deletion of copy operations and
  other declarations without a behaviour of their own. The benchmarks, the tests and the build files are
  not part of the server.
\<close>

section \<open>A connection against the specification of commands\<close>

text \<open>
  What a client may expect of a sequence of commands, the \<open>i\<close>-th of them carried out at the instant
  \<open>ts i\<close>: each is answered, and changes the key space, as the command language says for the keys that are live
  at its instant.
\<close>

fun specified :: "(nat \<Rightarrow> int) \<Rightarrow> string list list \<Rightarrow> keyspace \<Rightarrow> resp_value list \<Rightarrow> keyspace \<Rightarrow> bool" where
  "specified ts [] m rs m' \<longleftrightarrow> rs = [] \<and> m' = m"
| "specified ts (args # cmds) m rs m' \<longleftrightarrow>
     (\<exists>r rs' m1. rs = r # rs' \<and> answers (ts 0) args (live (ts 0) m) r m1 \<and> specified (\<lambda>i. ts (Suc i)) cmds m1 rs' m')"

lemma replies_specified:
  assumes "store_inv s" and "max_memory_bytes s = 0" and "\<And>i. frozen (ts i) (es i)" and "mono ts" and "[] \<notin> set cmds"
    and "\<And>now. ts 0 \<le> now \<Longrightarrow> live now m = live now (keyspace_of s)"
  shows "\<exists>m'. specified ts cmds m (replies es cmds s) m'
    \<and> (\<forall>now. (\<forall>i. ts i \<le> now) \<longrightarrow> live now m' = live now (keyspace_of (snd (serve (history es cmds) [] s))))"
  using assms
proof (induction cmds arbitrary: s es ts m)
  case (Cons args cmds)
  let ?out = "Dispatch (es 0) args s" and ?ts = "\<lambda>i. ts (Suc i)"
  let ?m1 = "live (ts 0) (keyspace_of (new_state ?out))"
  have "answers (ts 0) args (live (ts 0) (keyspace_of s)) (reply ?out) ?m1"
    using Cons.prems by (intro Dispatch_answers) auto
  then have a: "answers (ts 0) args (live (ts 0) m) (reply ?out) ?m1" using Cons.prems(6) by simp
  have mono: "mono ?ts" using Cons.prems(4) by (auto simp: mono_def)
  have "live now ?m1 = live now (keyspace_of (new_state ?out))" if "?ts 0 \<le> now" for now
    using that monoD [OF Cons.prems(4), of 0 "Suc 0"] by (intro live_later) simp
  then obtain m' where m': "specified ?ts cmds ?m1 (replies (\<lambda>i. es (Suc i)) cmds (new_state ?out)) m'"
      "\<forall>now. (\<forall>i. ?ts i \<le> now) \<longrightarrow>
         live now m' = live now (keyspace_of (snd (serve (history (\<lambda>i. es (Suc i)) cmds) [] (new_state ?out))))"
    using Cons.IH [of "new_state ?out" ?ts "\<lambda>i. es (Suc i)" ?m1] Cons.prems mono by (auto simp: Dispatch_inv Dispatch_budget)
  then show ?case using a by (intro exI [of _ m']) (auto simp: Let_def serve_store)
qed auto

text \<open>
  C7: From bytes to bytes. A client that sends commands in RESP form, in whatever chunks they arrive, is sent the
  encodings of replies that the command language allows for them, in order, and the server ends with the
  key space it prescribes. (With no memory budget, when no send fails, each command at an instant
  of its own, the instants non-decreasing.)
\<close>

theorem wire_session_specified:
  assumes "store_inv (sess_store c)" and "max_memory_bytes (sess_store c) = 0"
    and "\<forall>i. 0 < sess_sends c i" and "\<forall>i. frozen (ts i) (sess_envs c i)" and "mono ts"
    and "concat chunks = concat (map encode_command cmds)" and "list_all sendable cmds" and "chunks \<noteq> []"
  shows "\<exists>rs m'. specified ts cmds (keyspace_of (sess_store c)) rs m'
    \<and> sess_out (HandleClient chunks [] c) = sess_out c @ concat (map Encode rs)
    \<and> (\<forall>now. (\<forall>i. ts i \<le> now) \<longrightarrow> live now (keyspace_of (sess_store (HandleClient chunks [] c))) = live now m')"
proof -
  have "receive chunks [] = (cmds, KIncomplete, [])" using receive_encoded [of "[]" chunks cmds] assms(6-8) by simp
  from HandleClient_served [OF this, of c] have "conversation c cmds [] [] (HandleClient chunks [] c)"
    using assms(3) by (auto simp: served_def farewell_def)
  then have out: "sess_out (HandleClient chunks [] c)
      = sess_out c @ concat (map Encode (replies (sess_envs c) cmds (sess_store c)))"
    "sess_store (HandleClient chunks [] c) = snd (serve (history (sess_envs c) cmds) [] (sess_store c))"
    by (simp_all add: conversation_def carried_out_def Let_def)
  have "[] \<notin> set cmds" using assms(7) by (auto simp: list_all_iff sendable_def)
  then obtain m' where m': "specified ts cmds (keyspace_of (sess_store c)) (replies (sess_envs c) cmds (sess_store c)) m'"
      "\<forall>now. (\<forall>i. ts i \<le> now) \<longrightarrow>
         live now m' = live now (keyspace_of (snd (serve (history (sess_envs c) cmds) [] (sess_store c))))"
    using replies_specified [OF assms(1,2) spec [OF assms(4)] assms(5) _ refl] by blast
  show ?thesis
    unfolding out by (rule exI [of _ "replies (sess_envs c) cmds (sess_store c)"], rule exI [of _ m']) (use m' in simp)
qed

theorem wire_session_specified_witness:
  "sess_out (HandleClient [encode_command [''SET'', ''k'', ''v''], encode_command [''GET'', ''k'']] [] fresh_session)
     = concat (map Encode [ok_reply, BulkString ''v''])"
proof -
  let ?cmds = "[[''SET'', ''k'', ''v''], [''GET'', ''k'']]"
  have parse: "parse_command [''SET'', ''k'', ''v''] = Inr (CSet ''k'' ''v'')" "parse_command [''GET'', ''k''] = Inr (CGet ''k'')"
    by code_simp+
  have spec: "rs = [ok_reply, BulkString ''v'']" if "specified (\<lambda>_. 0) ?cmds m rs m'" for m rs m'
    using that by (auto simp: answers_def parse look_def live_changes)
  have "\<exists>rs m'. specified (\<lambda>_. 0) ?cmds (keyspace_of (sess_store fresh_session)) rs m'
      \<and> sess_out (HandleClient (map encode_command ?cmds) [] fresh_session) = sess_out fresh_session @ concat (map Encode rs)
      \<and> (\<forall>now. (\<forall>i::nat. 0 \<le> now) \<longrightarrow> live now (keyspace_of (sess_store (HandleClient (map encode_command ?cmds) [] fresh_session))) = live now m')"
    by (rule wire_session_specified)
      (simp_all add: fresh_session_def store_inv_new frozen_def mono_def sendable_def kMaxArgs_def kMaxBulkLen_def)
  moreover have "sess_out fresh_session = []" by (simp add: fresh_session_def)
  ultimately obtain rs where rs: "rs = [ok_reply, BulkString ''v'']"
      "sess_out (HandleClient (map encode_command ?cmds) [] fresh_session) = [] @ concat (map Encode rs)"
    using spec by metis
  from rs(2) show ?thesis unfolding rs(1) append_Nil list.map .
qed

end
